(* ===== verification/Prelude.thy ===== *)
theory Prelude
  imports Main "HOL-Library.Word"
begin

text \<open>
  Shared vocabulary of the development: the machine types the sources use, the error
  codes of \<^verbatim>\<open>include/fds_error.h\<close> that the modelled components return, the ways a call can
  end without returning a value, the result type that carries both, and the generic
  lemmas on results, lists and words that the component theories share.
\<close>

unbundle bit_operations_syntax

named_theorems res_simps "results of calls: composition and inversion"
named_theorems wf_intros "preservation of the well-formedness invariants"
named_theorems table_simps "reading the placement tables"

type_synonym u8 = "8 word"
type_synonym u16 = "16 word"
type_synonym u32 = "32 word"
type_synonym u64 = "64 word"

section \<open>Error codes and abnormal ends of a call\<close>

text \<open>
  The codes of \<^verbatim>\<open>fds_errno_t\<close> that the modelled operations produce, under their source names.
\<close>

datatype fds_errno =
    ERR_OK
  | ERR_DUPLICATE
  | ERR_INVALID_ARG
  | ERR_NOT_FOUND
  | ERR_NOT_READY
  | ERR_INVALID_DLT
  | ERR_SERIALIZE_FAILED
  | ERR_NO_BYTES_WRITTEN
  | ERR_NO_BYTES_READ
  | ERR_VOL_NOT_FOUND
  | ERR_VOL_DUPLICATE
  | ERR_INVALID_DMT
  | ERR_DM_TX_EXISTS
  | ERR_DM_TX_NOT_STARTED
  | ERR_DM_TX_COMMITTED
  | ERR_DM_INVALID_TX_ID
  | ERR_IO_PENDING
  | ERR_INVALID_VERSION
  | ERR_INVALID
  | ERR_EXCEED_MIN_IOPS
  | ERR_DISK_WRITE_FAILED
  | ERR_DISK_READ_FAILED
  | ERR_ABORTED
  | ERR_UNAVAILABLE
  | ERR_SM_OLT_DISKS_INCONSISTENT
  | ERR_SM_NO_DISK
  | ERR_DM_OP_NOT_ALLOWED
  | ERR_CAT_ENTRY_NOT_FOUND
  | ERR_DM_OFFSET_OUT_RANGE
  | ERR_DM_VOL_NOT_ACTIVATED
  | ERR_DM_MIGRATION_ABORTED
  | ERR_ONDISK_DATA_CORRUPT

text \<open>
  \<open>Panic\<close> is a failed \<^verbatim>\<open>fds_verify\<close> (\<^verbatim>\<open>fds_panic\<close> stops the process), \<open>OutOfRange\<close> the
  exception of a checked \<^verbatim>\<open>at()\<close>, \<open>NullDeref\<close> a read through a null or dangling pointer,
  \<open>Undefined\<close> an operation whose result the C++ standard leaves undefined,
  \<open>Throw\<close> an \<^verbatim>\<open>fds::Exception\<close> with its error code, and \<open>Exn\<close> any other C++ exception
  (thrift's transport and protocol exceptions among them).
\<close>

datatype abort = Panic | OutOfRange | NullDeref | Undefined | Throw fds_errno | Exn

type_synonym 'a res = "abort + 'a"

definition bindR :: "'a res \<Rightarrow> ('a \<Rightarrow> 'b res) \<Rightarrow> 'b res" where
  "bindR m f = (case m of Inl e \<Rightarrow> Inl e | Inr x \<Rightarrow> f x)"

definition fds_verify :: "bool \<Rightarrow> 'a res \<Rightarrow> 'a res" where
  "fds_verify b k = (if b then k else Inl Panic)"

definition vec_at :: "'a list \<Rightarrow> nat \<Rightarrow> 'a res" where
  "vec_at xs i = (if i < length xs then Inr (xs ! i) else Inl OutOfRange)"

lemma bindR_simps [simp]:
  "bindR (Inl e) f = Inl e"
  "bindR (Inr x) f = f x"
  by (simp_all add: bindR_def)

lemma bindR_eq_Inr [res_simps]: "bindR m f = Inr y \<longleftrightarrow> (\<exists>x. m = Inr x \<and> f x = Inr y)"
  by (cases m) auto

lemma bindR_eq_Inl [res_simps]:
  "bindR m f = Inl e \<longleftrightarrow> m = Inl e \<or> (\<exists>x. m = Inr x \<and> f x = Inl e)"
  by (cases m) auto

lemma bindR_assoc: "bindR (bindR m f) g = bindR m (\<lambda>x. bindR (f x) g)"
  by (cases m) auto

lemma fds_verify_simps [simp]:
  "fds_verify True k = k"
  "fds_verify False k = Inl Panic"
  by (simp_all add: fds_verify_def)

lemma fds_verify_eq_Inr [res_simps]: "fds_verify b k = Inr y \<longleftrightarrow> b \<and> k = Inr y"
  by (simp add: fds_verify_def)

lemma fds_verify_cong [fundef_cong]:
  "b = b' \<Longrightarrow> (b' \<Longrightarrow> k = k') \<Longrightarrow> fds_verify b k = fds_verify b' k'"
  by (simp add: fds_verify_def)

lemma bindR_cong [fundef_cong]:
  "m = m' \<Longrightarrow> (\<And>x. m' = Inr x \<Longrightarrow> f x = g x) \<Longrightarrow> bindR m f = bindR m' g"
  by (cases m') auto

lemma vec_at_eq_Inr [res_simps]: "vec_at xs i = Inr x \<longleftrightarrow> i < length xs \<and> x = xs ! i"
  by (auto simp: vec_at_def)

lemma vec_at_in [simp]: "i < length xs \<Longrightarrow> vec_at xs i = Inr (xs ! i)"
  by (simp add: vec_at_def)

lemma vec_at_out [simp]: "length xs \<le> i \<Longrightarrow> vec_at xs i = Inl OutOfRange"
  by (simp add: vec_at_def)

text \<open>Reading through a pointer.\<close>

definition deref :: "'a option \<Rightarrow> 'a res" where
  "deref p = (case p of None \<Rightarrow> Inl NullDeref | Some v \<Rightarrow> Inr v)"

text \<open>A loop that runs a fallible body over a list and collects the results.\<close>

fun mapR :: "('a \<Rightarrow> 'b res) \<Rightarrow> 'a list \<Rightarrow> 'b list res" where
  "mapR f [] = Inr []"
| "mapR f (x # xs) = bindR (f x) (\<lambda>y. bindR (mapR f xs) (\<lambda>ys. Inr (y # ys)))"

lemma mapR_all_Inr: "(\<And>x. x \<in> set xs \<Longrightarrow> f x = Inr (g x)) \<Longrightarrow> mapR f xs = Inr (map g xs)"
  by (induction xs) auto

lemma mapR_cong [fundef_cong]:
  "xs = ys \<Longrightarrow> (\<And>x. x \<in> set ys \<Longrightarrow> f x = g x) \<Longrightarrow> mapR f xs = mapR g ys"
  by (induction ys arbitrary: xs) auto

lemma mapR_eq_Inr_length: "mapR f xs = Inr ys \<Longrightarrow> length ys = length xs"
  by (induction xs arbitrary: ys) (auto simp: bindR_eq_Inr)

lemma mapR_eq_Inr_nth:
  "mapR f xs = Inr ys \<Longrightarrow> i < length xs \<Longrightarrow> f (xs ! i) = Inr (ys ! i)"
proof (induction xs arbitrary: ys i)
  case Nil
  then show ?case by simp
next
  case (Cons x xs)
  then show ?case by (cases i) (auto simp: bindR_eq_Inr)
qed

text \<open>A loop that runs a fallible body over a list and threads a state through it.\<close>

fun foldR :: "('a \<Rightarrow> 's \<Rightarrow> 's res) \<Rightarrow> 'a list \<Rightarrow> 's \<Rightarrow> 's res" where
  "foldR f [] s = Inr s"
| "foldR f (x # xs) s = bindR (f x s) (foldR f xs)"

lemma foldR_all_Inr:
  "(\<And>x s. x \<in> set xs \<Longrightarrow> f x s = Inr (g x s)) \<Longrightarrow> foldR f xs s = Inr (fold g xs s)"
  by (induction xs arbitrary: s) auto

lemma foldR_append: "foldR f (xs @ ys) s = bindR (foldR f xs s) (foldR f ys)"
  by (induction xs arbitrary: s) (simp_all add: bindR_def split: sum.splits)

lemma foldR_cong [fundef_cong]:
  "xs = ys \<Longrightarrow> s = t \<Longrightarrow> (\<And>x s. x \<in> set ys \<Longrightarrow> f x s = g x s) \<Longrightarrow> foldR f xs s = foldR g ys t"
  by (induction ys arbitrary: xs s t) (auto intro!: arg_cong2[of _ _ _ _ bindR])

lemma foldR_invariant:
  "foldR f xs s = Inr s' \<Longrightarrow> I s \<Longrightarrow> (\<And>x s s'. x \<in> set xs \<Longrightarrow> f x s = Inr s' \<Longrightarrow> I s \<Longrightarrow> I s') \<Longrightarrow> I s'"
  by (induction xs arbitrary: s) (auto simp: bindR_eq_Inr)

section \<open>Lists\<close>

lemma nth_list_update_same [simp]: "i < length xs \<Longrightarrow> (xs[i := v]) ! i = v"
  by simp

lemma map_nth_upt: "map ((!) xs) [0..<length xs] = xs"
  by (rule map_nth)

lemma card_set_lt_length_iff: "card (set xs) < length xs \<longleftrightarrow> \<not> distinct xs"
  using card_length[of xs] distinct_card[of xs] card_distinct[of xs] by linarith

lemma list_all2_nthE: "list_all2 P xs ys \<Longrightarrow> i < length xs \<Longrightarrow> P (xs ! i) (ys ! i)"
  by (simp add: list_all2_conv_all_nth)

lemma fold_concat: "fold f (concat xss) s = fold (fold f) xss s"
  by (induction xss arbitrary: s) auto

lemma find_SomeD: "find P xs = Some x \<Longrightarrow> P x \<and> x \<in> set xs"
  by (induction xs) (auto split: if_splits)

lemma find_append: "find P (xs @ ys) = (case find P xs of None \<Rightarrow> find P ys | Some x \<Rightarrow> Some x)"
  by (induction xs) auto

section \<open>Words\<close>

lemma unat_of_nat_lt: "n < 2 ^ LENGTH('a::len) \<Longrightarrow> unat (of_nat n :: 'a word) = n"
  by (simp add: unat_of_nat take_bit_nat_eq_self)

lemma unat_u8_lt [simp]: "unat (w :: u8) < 256"
  using unsigned_less[of w] by simp

lemma unat_u8_le [simp]: "unat (w :: u8) \<le> 255"
  using unat_u8_lt[of w] by linarith

lemma of_nat_unat_u8 [simp]: "(of_nat (unat (w :: u8)) :: u8) = w"
  by simp

lemma unat_ucast_u32: "unat (ucast (x :: u32) :: u64) = unat x"
  by transfer (simp add: take_bit_take_bit min_def)

lemma unat_ucast_down: "unat (x :: u64) < 2 ^ 32 \<Longrightarrow> unat (ucast x :: u32) = unat x"
  by (simp add: unsigned_ucast_eq take_bit_nat_eq_self)

lemma ucast_ucast_u32 [simp]: "ucast (ucast (x :: u32) :: u64) = x"
  using unsigned_less[of x, where 'a = nat] by (simp add: word_unat_eq_iff unat_ucast_down unat_ucast_u32)

section \<open>Runs\<close>

text \<open>A sequence of calls on a state, with their answers; it ends at the first call that fails.\<close>

fun run_ops :: "('s \<Rightarrow> 'a \<Rightarrow> ('s \<times> 'r) res) \<Rightarrow> 's \<Rightarrow> 'a list \<Rightarrow> ('s \<times> 'r list) res" where
  "run_ops exec s [] = Inr (s, [])"
| "run_ops exec s (a # as) = bindR (exec s a) (\<lambda>(s', r).
     bindR (run_ops exec s' as) (\<lambda>(s'', rs). Inr (s'', r # rs)))"

section \<open>Walking a hash map\<close>

text \<open>
  \<open>walk\<close> gives the order in which a hash map is iterated, which the standard leaves open: all
  the keys, each once.
\<close>

definition hash_walk :: "(('k \<Rightarrow> 'v option) \<Rightarrow> 'k list) \<Rightarrow> bool" where
  "hash_walk walk \<longleftrightarrow> (\<forall>m. finite (dom m) \<longrightarrow> distinct (walk m) \<and> set (walk m) = dom m)"

end
