(* ===== verification/Object_Id.thy ===== *)
theory Object_Id
  imports Prelude
begin

text \<open>
  Object identifiers: \<^verbatim>\<open>class ObjectID\<close> of \<^verbatim>\<open>include/fds_types.h\<close> and \<^verbatim>\<open>lib/misc/fds_types.cpp\<close>.
  An identifier is a 20-byte digest; the placement tables take their token from its
  leading bits, storage walks the identifiers of a token as an interval of the byte
  order, and the tools print and parse it in hexadecimal.
\<close>

section \<open>The digest\<close>

definition OBJECTID_DIGESTLEN :: nat where
  "OBJECTID_DIGESTLEN = 20"

typedef ObjectID = "{d :: u8 list. length d = OBJECTID_DIGESTLEN}" morphisms digest Abs_ObjectID
  by (rule exI[of _ "replicate OBJECTID_DIGESTLEN 0"]) simp

text \<open>\<^verbatim>\<open>ObjectID(uint8_t const *objId)\<close>: the first 20 bytes of the buffer are copied.\<close>

definition ObjectID_bytes :: "u8 list \<Rightarrow> ObjectID" where
  "ObjectID_bytes p = Abs_ObjectID (take OBJECTID_DIGESTLEN (p @ replicate OBJECTID_DIGESTLEN 0))"

text \<open>\<^verbatim>\<open>ObjectID(uint32_t dataSet)\<close>: \<^verbatim>\<open>memset\<close> writes the low byte of its argument everywhere.\<close>

definition ObjectID_fill :: "u32 \<Rightarrow> ObjectID" where
  "ObjectID_fill dataSet = Abs_ObjectID (replicate OBJECTID_DIGESTLEN (ucast dataSet))"

lemma ObjectID_abstype [code abstype]: "Abs_ObjectID (digest oid) = oid"
  by (rule digest_inverse)

lemma digest_ObjectID_bytes_code [code abstract]:
  "digest (ObjectID_bytes p) = take OBJECTID_DIGESTLEN (p @ replicate OBJECTID_DIGESTLEN 0)"
  by (simp add: ObjectID_bytes_def Abs_ObjectID_inverse)

lemma digest_ObjectID_fill [code abstract]:
  "digest (ObjectID_fill dataSet) = replicate OBJECTID_DIGESTLEN (ucast dataSet)"
  by (simp add: ObjectID_fill_def Abs_ObjectID_inverse)

definition NullObjectID :: ObjectID where
  "NullObjectID = ObjectID_fill 0"

lemma length_digest [simp]: "length (digest oid) = 20"
  using digest[of oid] by (simp add: OBJECTID_DIGESTLEN_def)

lemma digest_ObjectID_bytes [simp]: "length d = 20 \<Longrightarrow> digest (ObjectID_bytes d) = d"
  by (simp add: digest_ObjectID_bytes_code OBJECTID_DIGESTLEN_def)

lemma ObjectID_bytes_digest [simp]: "ObjectID_bytes (digest oid) = oid"
  by (metis digest_ObjectID_bytes digest_inject length_digest)

text \<open>
  \<^verbatim>\<open>SetId(data, len)\<close> is a \<^verbatim>\<open>memcpy\<close> over the front of the digest; reading past the source
  buffer or writing past the 20 bytes is undefined.
\<close>

definition SetId :: "ObjectID \<Rightarrow> u8 list \<Rightarrow> nat \<Rightarrow> ObjectID res" where
  "SetId oid data len =
     (if len \<le> OBJECTID_DIGESTLEN \<and> len \<le> length data
      then Inr (ObjectID_bytes (take len data @ drop len (digest oid)))
      else Inl Undefined)"

section \<open>The byte order\<close>

text \<open>\<^verbatim>\<open>memcmp\<close> of two buffers of the same length; only the sign of its result is specified.\<close>

fun memcmp :: "u8 list \<Rightarrow> u8 list \<Rightarrow> int" where
  "memcmp (a # as) (b # bs) = (if a < b then -1 else if b < a then 1 else memcmp as bs)"
| "memcmp _ _ = 0"

definition compare :: "ObjectID \<Rightarrow> ObjectID \<Rightarrow> int" where
  "compare lhs rhs = memcmp (digest lhs) (digest rhs)"

lemma memcmp_refl [simp]: "memcmp xs xs = 0"
  by (induction xs) auto

lemma memcmp_anti: "length xs = length ys \<Longrightarrow> memcmp ys xs = - memcmp xs ys"
  by (induction xs ys rule: list_induct2) auto

lemma memcmp_0_iff: "length xs = length ys \<Longrightarrow> memcmp xs ys = 0 \<longleftrightarrow> xs = ys"
  by (induction xs ys rule: list_induct2) auto

lemma memcmp_trans:
  "length xs = length ys \<Longrightarrow> length ys = length zs \<Longrightarrow>
   memcmp xs ys \<le> 0 \<Longrightarrow> memcmp ys zs \<le> 0 \<Longrightarrow> memcmp xs zs \<le> 0"
proof (induction xs ys zs rule: list_induct3)
  case Nil
  then show ?case by simp
next
  case (Cons x xs y ys z zs)
  consider "x < y" | "x = y" | "y < x" by (rule linorder_cases)
  then show ?case
  proof cases
    case 1
    with Cons.prems(2) have "x < z" by (auto split: if_splits intro: less_trans)
    then show ?thesis by simp
  next
    case 2
    with Cons show ?thesis by (auto split: if_splits)
  next
    case 3
    then have "\<not> x < y" by simp
    with 3 Cons.prems(1) show ?thesis by simp
  qed
qed

text \<open>\<^verbatim>\<open>operator<\<close> and its kin order the identifiers by \<^verbatim>\<open>compare\<close>; the order is linear.\<close>

instantiation ObjectID :: linorder
begin

definition less_eq_ObjectID :: "ObjectID \<Rightarrow> ObjectID \<Rightarrow> bool" where
  "less_eq_ObjectID lhs rhs \<longleftrightarrow> compare lhs rhs \<le> 0"

definition less_ObjectID :: "ObjectID \<Rightarrow> ObjectID \<Rightarrow> bool" where
  "less_ObjectID lhs rhs \<longleftrightarrow> compare lhs rhs < 0"

instance
proof
  fix x y z :: ObjectID
  have anti: "\<And>a b. compare b a = - compare a b"
    unfolding compare_def by (rule memcmp_anti) simp
  show "(x < y) = (x \<le> y \<and> \<not> y \<le> x)"
    using anti[of x y] by (auto simp: less_eq_ObjectID_def less_ObjectID_def)
  show "x \<le> x"
    by (simp add: less_eq_ObjectID_def compare_def)
  show "x \<le> y \<Longrightarrow> y \<le> z \<Longrightarrow> x \<le> z"
    unfolding less_eq_ObjectID_def compare_def
    by (rule memcmp_trans[of _ "digest y"]) simp_all
  show "x \<le> y \<Longrightarrow> y \<le> x \<Longrightarrow> x = y"
    using anti[of x y] memcmp_0_iff[of "digest x" "digest y"]
    by (auto simp: less_eq_ObjectID_def compare_def digest_inject)
  show "x \<le> y \<or> y \<le> x"
    using anti[of x y] by (auto simp: less_eq_ObjectID_def)
qed

end

section \<open>Tokens\<close>

text \<open>The table lists 17 of its 64 entries; C++ fills the others with zero.\<close>

definition bitMaskLookup :: "nat list" where
  "bitMaskLookup =
     [0x0, 0x1, 0x3, 0x7, 0xF, 0x1F, 0x3F, 0x7F, 0xFF,
      0x1FF, 0x3FF, 0x7FF, 0xFFF, 0x1FFF, 0x3FFF, 0x7FFF, 0xFFFF] @ replicate 47 0"

text \<open>
  \<^verbatim>\<open>getTokenBits(numBits)\<close>. A shift count above 24 wraps to a huge unsigned value, which
  is undefined for a 32-bit shift.
\<close>

definition getTokenBits :: "ObjectID \<Rightarrow> nat \<Rightarrow> nat res" where
  "getTokenBits oid numBits =
     (let d = (\<lambda>i. unat (digest oid ! i)) in
      if numBits > 24 then Inl Undefined
      else if numBits > 16 then
        Inr (drop_bit (24 - numBits) (push_bit 16 (d 0) OR push_bit 8 (d 1) OR d 2)
             AND bitMaskLookup ! numBits)
      else if numBits > 8 then
        Inr (drop_bit (16 - numBits) (push_bit 8 (d 0) OR d 1) AND bitMaskLookup ! numBits)
      else
        Inr (drop_bit (8 - numBits) (d 0) AND bitMaskLookup ! numBits))"

text \<open>\<^verbatim>\<open>DLT::getToken(objId)\<close>: \<^verbatim>\<open>1 << width\<close> is an \<^verbatim>\<open>int\<close> shift, undefined from 31 bits on.\<close>

definition getToken :: "ObjectID \<Rightarrow> nat \<Rightarrow> nat res" where
  "getToken objId width =
     (if width \<ge> 31 then Inl Undefined
      else bindR (getTokenBits objId width)
             (\<lambda>bits. let token_bitmask = push_bit width 1 - 1 in Inr (token_bitmask AND bits)))"

text \<open>The static \<^verbatim>\<open>DLT::getToken(objId, bitsPerToken)\<close>.\<close>

definition getToken_static :: "ObjectID \<Rightarrow> nat \<Rightarrow> nat res" where
  "getToken_static objId bitsPerToken =
     fds_verify (bitsPerToken > 0)
       (if bitsPerToken \<ge> 31 then Inl Undefined
        else bindR (getTokenBits objId bitsPerToken)
               (\<lambda>bits. let token_bitmask = push_bit bitsPerToken 1 - 1
                       in Inr (token_bitmask AND bits)))"

text \<open>The byte loop of \<^verbatim>\<open>getTokenRange\<close>, from index \<open>i\<close> with what is left of the token.\<close>

function range_loop :: "nat \<Rightarrow> nat \<Rightarrow> nat \<Rightarrow> u8 list \<times> u8 list \<Rightarrow> u8 list \<times> u8 list" where
  "range_loop nTokenBytes i token (b, e) =
     (if i < nTokenBytes
      then range_loop nTokenBytes (Suc i) (drop_bit 8 token)
             (b[nTokenBytes - 1 - i := of_nat (token AND 0xFF)],
              e[nTokenBytes - 1 - i := of_nat (token AND 0xFF)])
      else (b, e))"
  by pat_completeness auto
termination
  by (relation "measure (\<lambda>(n, i, t, p). n - i)") auto

declare range_loop.simps [simp del]

definition getTokenRange :: "nat \<Rightarrow> nat \<Rightarrow> (ObjectID \<times> ObjectID) res" where
  "getTokenRange token nTokenBits =
     fds_verify (nTokenBits mod 8 = 0 \<and> nTokenBits div 8 \<le> 4)
       (let (b, e) = range_loop (nTokenBits div 8) 0 token
                       (replicate OBJECTID_DIGESTLEN 0, replicate OBJECTID_DIGESTLEN 0xFF)
        in Inr (ObjectID_bytes b, ObjectID_bytes e))"

subsection \<open>Which bits make the token\<close>

lemma push_or_byte: "push_bit 8 (unat (a :: u8)) OR unat (b :: u8) = unat a * 256 + unat b"
proof -
  have "push_bit 8 (unat a) AND unat b = 0"
    by (rule bit_eqI) (auto simp: bit_simps dest: bit_imp_le_length)
  then have "push_bit 8 (unat a) + unat b = push_bit 8 (unat a) OR unat b"
    by (rule disjunctive_add_eq_or)
  then show ?thesis by (simp add: push_bit_eq_mult)
qed

lemma bitMaskLookup_low: "n \<le> 16 \<Longrightarrow> bitMaskLookup ! n = 2 ^ n - 1"
proof -
  assume "n \<le> 16"
  moreover have "take 17 bitMaskLookup = map (\<lambda>k. 2 ^ k - 1) [0..<17]"
    by (simp add: bitMaskLookup_def upt_rec)
  ultimately show ?thesis
    using nth_take[of n 17 bitMaskLookup] by simp
qed

lemma bitMaskLookup_high: "16 < n \<Longrightarrow> n < 64 \<Longrightarrow> bitMaskLookup ! n = 0"
  unfolding bitMaskLookup_def
  by (subst nth_append_right) simp_all

lemma and_low_mask:
  "x AND (2 ^ n - Suc 0) = x mod 2 ^ n"
  "(2 ^ n - Suc 0) AND x = x mod 2 ^ n"
  using take_bit_eq_mask[of n x] take_bit_eq_mod[of n x]
  by (simp_all add: mask_eq_exp_minus_1 and.commute)

text \<open>The number made of the first two bytes: every token of at most 16 bits is a prefix of it.\<close>

definition lead16 :: "ObjectID \<Rightarrow> nat" where
  "lead16 oid = unat (digest oid ! 0) * 256 + unat (digest oid ! 1)"

lemma byte_pair_lt: "a \<le> 255 \<Longrightarrow> b \<le> 255 \<Longrightarrow> a * 256 + b < (65536 :: nat)"
  by simp

lemma lead16_lt: "lead16 oid < 2 ^ 16"
  using byte_pair_lt[OF unat_u8_le unat_u8_le] by (simp add: lead16_def)

lemma lead16_div_lt: "n \<le> 16 \<Longrightarrow> lead16 oid div 2 ^ (16 - n) < 2 ^ n"
  using lead16_lt[of oid] by (simp add: less_mult_imp_div_less flip: power_add)

lemma lead16_div_byte: "n \<le> 8 \<Longrightarrow> lead16 oid div 2 ^ (16 - n) = unat (digest oid ! 0) div 2 ^ (8 - n)"
proof -
  assume "n \<le> 8"
  then have "2 ^ (16 - n) = (256 :: nat) * 2 ^ (8 - n)"
    by (simp add: power_add[of "2::nat" 8, simplified, symmetric])
  then have "lead16 oid div 2 ^ (16 - n) = lead16 oid div 256 div 2 ^ (8 - n)"
    by (simp add: div_mult2_eq)
  moreover have "lead16 oid div 256 = unat (digest oid ! 0)"
    by (simp add: lead16_def)
  ultimately show ?thesis by simp
qed

lemma getTokenBits_low:
  "n \<le> 16 \<Longrightarrow> getTokenBits oid n = Inr (lead16 oid div 2 ^ (16 - n))"
proof (cases "n \<le> 8")
  case True
  have "unat (digest oid ! 0) div 2 ^ (8 - n) mod 2 ^ n = unat (digest oid ! 0) div 2 ^ (8 - n)"
    using True lead16_div_lt[of n oid] by (simp add: lead16_div_byte)
  with True show ?thesis
    by (simp add: getTokenBits_def bitMaskLookup_low and_low_mask drop_bit_eq_div lead16_div_byte)
next
  case False
  assume n: "n \<le> 16"
  have "push_bit 8 (unat (digest oid ! 0)) OR unat (digest oid ! 1) = lead16 oid"
    by (simp only: push_or_byte lead16_def)
  then have "getTokenBits oid n = Inr (lead16 oid div 2 ^ (16 - n) AND (2 ^ n - 1))"
    using False n by (simp add: getTokenBits_def bitMaskLookup_low drop_bit_eq_div)
  with n show ?thesis
    using lead16_div_lt[of n oid] by (simp add: and_low_mask)
qed

lemma getTokenBits_high: "16 < n \<Longrightarrow> n \<le> 24 \<Longrightarrow> getTokenBits oid n = Inr 0"
  unfolding getTokenBits_def Let_def by (subst bitMaskLookup_high) simp_all

lemma getToken_low: "n \<le> 16 \<Longrightarrow> getToken oid n = Inr (lead16 oid div 2 ^ (16 - n))"
  using lead16_div_lt[of n oid]
  by (simp add: getToken_def getTokenBits_low push_bit_eq_mult and_low_mask)

definition oid_lead16 :: "nat \<Rightarrow> ObjectID" where
  "oid_lead16 x = ObjectID_bytes ([of_nat (x div 256), of_nat (x mod 256)] @ replicate 18 0)"

lemma lead16_oid_lead16: "x < 65536 \<Longrightarrow> lead16 (oid_lead16 x) = x"
  by (simp add: lead16_def oid_lead16_def unat_of_nat less_mult_imp_div_less)

lemma getToken_high: "16 < n \<Longrightarrow> n \<le> 24 \<Longrightarrow> getToken oid n = Inr 0"
  by (simp add: getToken_def getTokenBits_high)

subsection \<open>The identifiers of a token are an interval\<close>

fun be_bytes :: "nat \<Rightarrow> nat \<Rightarrow> u8 list" where
  "be_bytes 0 t = []"
| "be_bytes (Suc k) t = be_bytes k (t div 256) @ [of_nat (t mod 256)]"

lemma length_be_bytes [simp]: "length (be_bytes k t) = k"
  by (induction k arbitrary: t) auto

lemma range_loop_be_bytes:
  "i \<le> nb \<Longrightarrow> nb \<le> length b \<Longrightarrow> length e = length b \<Longrightarrow>
   range_loop nb i t (b, e) =
     (be_bytes (nb - i) t @ drop (nb - i) b, be_bytes (nb - i) t @ drop (nb - i) e)"
proof (induction "nb - i" arbitrary: i t b e)
  case 0
  then show ?case by (simp add: range_loop.simps[of i i])
next
  case (Suc k)
  define x :: u8 where "x = of_nat (t mod 256)"
  have x: "(of_nat (t AND 255) :: u8) = x"
    using and_low_mask(1)[of t 8] by (simp add: x_def)
  have k: "nb - Suc i = k" "nb - i = Suc k" "i < nb" "k < length b"
    using Suc by auto
  have split_at: "drop k (c[k := x]) = x # drop (Suc k) c" if "k < length c" for c :: "u8 list"
    using that by (simp add: Cons_nth_drop_Suc[symmetric])
  have "range_loop nb i t (b, e) = range_loop nb (Suc i) (t div 256) (b[k := x], e[k := x])"
    using k by (simp add: range_loop.simps[of nb i] x drop_bit_eq_div)
  also have "\<dots> = (be_bytes k (t div 256) @ drop k (b[k := x]),
                  be_bytes k (t div 256) @ drop k (e[k := x]))"
    using Suc.hyps(1)[of "Suc i" "b[k := x]" "e[k := x]" "t div 256"] Suc.prems k by simp
  finally show ?case
    using k Suc.prems split_at[of b] split_at[of e] by (simp add: x_def)
qed

lemma getTokenRange_bytes:
  "k \<le> 4 \<Longrightarrow> getTokenRange t (8 * k) =
     Inr (ObjectID_bytes (be_bytes k t @ replicate (20 - k) 0),
          ObjectID_bytes (be_bytes k t @ replicate (20 - k) 0xFF))"
  by (simp add: getTokenRange_def range_loop_be_bytes OBJECTID_DIGESTLEN_def)

lemma memcmp_zeros: "length r = m \<Longrightarrow> memcmp (replicate m 0) r \<le> 0"
  by (induction r arbitrary: m) (auto simp: word_gt_0)

lemma u8_le_255: "(a :: u8) \<le> 255"
  by (simp add: word_le_nat_alt)

lemma memcmp_ones: "length r = m \<Longrightarrow> memcmp r (replicate m 0xFF) \<le> 0"
  by (induction r arbitrary: m) (auto simp: leD[OF u8_le_255])

lemma memcmp_interval:
  "length p = length q \<Longrightarrow> length r = m \<Longrightarrow>
   memcmp (p @ replicate m 0) (q @ r) \<le> 0 \<and> memcmp (q @ r) (p @ replicate m 0xFF) \<le> 0 \<longleftrightarrow> p = q"
  by (induction p q rule: list_induct2) (auto simp: memcmp_zeros memcmp_ones)

lemma interval_iff_prefix:
  assumes "length p \<le> 20"
  shows "ObjectID_bytes (p @ replicate (20 - length p) 0) \<le> oid
         \<and> oid \<le> ObjectID_bytes (p @ replicate (20 - length p) 0xFF)
         \<longleftrightarrow> p = take (length p) (digest oid)"
  using memcmp_interval[of p "take (length p) (digest oid)" "drop (length p) (digest oid)"
      "20 - length p"] assms
  by (simp add: less_eq_ObjectID_def compare_def)

lemma be_bytes_one: "be_bytes 1 t = [of_nat (t mod 256)]"
  by simp

lemma be_bytes_two: "be_bytes 2 t = [of_nat (t div 256 mod 256), of_nat (t mod 256)]"
  by (simp add: numeral_2_eq_2)

lemma of_nat_u8_eq_iff: "n < 256 \<Longrightarrow> (of_nat n = (w :: u8)) \<longleftrightarrow> n = unat w"
  using unat_of_nat_lt[where 'a = 8, of n] by auto

lemma digest_take1: "take (Suc 0) (digest oid) = [digest oid ! 0]"
  by (rule nth_equalityI) auto

lemma digest_take2: "take 2 (digest oid) = [digest oid ! 0, digest oid ! 1]"
  by (rule nth_equalityI) (auto simp: less_2_cases_iff nth_Cons')

lemma byte_pair_eq_iff:
  "b < (256 :: nat) \<Longrightarrow> a * 256 + b = t \<longleftrightarrow> t div 256 = a \<and> t mod 256 = b"
  using div_mult_mod_eq[of t 256] by (auto simp: div_add1_eq)

lemma getToken_bytes:
  assumes "k = 1 \<or> k = 2" and "t < 2 ^ (8 * k)"
  shows "getToken oid (8 * k) = Inr t \<longleftrightarrow> be_bytes k t = take k (digest oid)"
  using assms(1)
proof
  assume k: "k = 1"
  then have "getToken oid (8 * k) = Inr (unat (digest oid ! 0))"
    using lead16_div_byte[of 8 oid] by (simp add: getToken_low)
  then show ?thesis
    using k assms(2) by (auto simp: be_bytes_one digest_take1 of_nat_u8_eq_iff)
next
  assume k: "k = 2"
  then have "getToken oid (8 * k) = Inr t \<longleftrightarrow> lead16 oid = t"
    by (simp add: getToken_low)
  also have "\<dots> \<longleftrightarrow> t div 256 = unat (digest oid ! 0) \<and> t mod 256 = unat (digest oid ! 1)"
    unfolding lead16_def by (rule byte_pair_eq_iff) simp
  also have "\<dots> \<longleftrightarrow> be_bytes k t = take k (digest oid)"
    using k assms(2) by (simp add: be_bytes_two digest_take2 of_nat_u8_eq_iff)
  finally show ?thesis .
qed


section \<open>Hexadecimal text\<close>

text \<open>
  \<^verbatim>\<open>std::hex << std::setfill('0') << std::setw(2) << (uint16_t)key[i]\<close>: the hexadecimal digits of
  the byte, padded on the left to two characters.
\<close>

definition hex_digit :: "nat \<Rightarrow> char" where
  "hex_digit n = ''0123456789abcdef'' ! n"

fun hex_digits :: "nat \<Rightarrow> string" where
  "hex_digits n = (if n < 16 then [hex_digit n] else hex_digits (n div 16) @ [hex_digit (n mod 16)])"

declare hex_digits.simps [simp del]

definition setw_fill :: "nat \<Rightarrow> char \<Rightarrow> string \<Rightarrow> string" where
  "setw_fill w c s = replicate (w - length s) c @ s"

definition ToHex_bytes :: "u8 list \<Rightarrow> string" where
  "ToHex_bytes key = concat (map (\<lambda>b. setw_fill 2 (CHR ''0'') (hex_digits (unat b))) key)"

definition ToHex :: "ObjectID \<Rightarrow> string" where
  "ToHex oid = ToHex_bytes (digest oid)"

text \<open>
  \<^verbatim>\<open>operator=(hexStr)\<close>. A \<^verbatim>\<open>char\<close> is a signed byte; the sum is truncated to the byte it is
  stored in. A string of the wrong shape is reported and leaves the identifier alone
  (a release build; with \<^verbatim>\<open>DEBUG\<close> the assertions stop the process first).
\<close>

definition hex_nibble :: "char \<Rightarrow> u8" where
  "hex_nibble c = (let a = of_char c :: u8 in if sint a > 57 then a - 87 else a - 48)"

fun parse_hex_loop :: "string \<Rightarrow> u8 list" where
  "parse_hex_loop (a # b # rest) =
     ((push_bit 4 (hex_nibble a) AND 0xF0) + hex_nibble b) # parse_hex_loop rest"
| "parse_hex_loop _ = []"

definition assign_hex :: "ObjectID \<Rightarrow> string \<Rightarrow> ObjectID" where
  "assign_hex oid hexStr =
     (if take 2 hexStr \<noteq> ''0x'' \<or> length hexStr \<noteq> 40 + 2 then oid
      else ObjectID_bytes (parse_hex_loop (drop 2 hexStr)))"

lemma hex_digits_byte:
  "setw_fill 2 (CHR ''0'') (hex_digits (unat (b :: u8))) =
     [hex_digit (unat b div 16), hex_digit (unat b mod 16)]"
proof (cases "unat b < 16")
  case True
  then show ?thesis
    by (simp add: hex_digits.simps[of "unat b"] setw_fill_def hex_digit_def numeral_2_eq_2)
next
  case False
  have "unat b div 16 < 16"
    using unat_u8_lt[of b] by (simp add: less_mult_imp_div_less)
  then show ?thesis
    using False
    by (simp add: hex_digits.simps[of "unat b"] hex_digits.simps[of "unat b div 16"] setw_fill_def)
qed

lemma hex_nibble_digit_all: "\<forall>n\<in>set [0..<16]. hex_nibble (hex_digit n) = of_nat n"
  by (simp add: upt_rec hex_nibble_def hex_digit_def Let_def)

lemma hex_nibble_digit: "n < 16 \<Longrightarrow> hex_nibble (hex_digit n) = of_nat n"
  using hex_nibble_digit_all by auto

lemma of_nat_div_16: "(of_nat (unat b div 16) :: u8) = drop_bit 4 b"
  using unat_div[of b 16] le_less_trans[OF div_le_dividend unat_u8_lt, of b 16]
  by (simp add: drop_bit_eq_div word_unat_eq_iff unat_of_nat)

lemma of_nat_mod_16: "(of_nat (unat b mod 16) :: u8) = take_bit 4 b"
  using unat_mod[of b 16] by (simp add: take_bit_eq_mod word_unat_eq_iff unat_of_nat)

lemma high_mask_eq: "0xF0 = (NOT (mask 4) :: u8)"
  by (simp add: mask_eq_exp_minus_1)

lemma high_nibble_mask: "push_bit 4 (drop_bit 4 b) AND 0xF0 = push_bit 4 (drop_bit 4 (b :: u8))"
  unfolding high_mask_eq by (rule bit_eqI) (auto simp: bit_simps)

lemma nibbles_byte:
  "(push_bit 4 (of_nat (unat b div 16)) AND 0xF0) + of_nat (unat b mod 16) = (b :: u8)"
  using bits_ident[of 4 b] by (simp only: of_nat_div_16 of_nat_mod_16 high_nibble_mask)

lemma ToHex_bytes_simps [simp]:
  "ToHex_bytes [] = []"
  "ToHex_bytes (b # bs) = hex_digit (unat b div 16) # hex_digit (unat b mod 16) # ToHex_bytes bs"
  by (simp_all add: ToHex_bytes_def hex_digits_byte)

lemma length_ToHex_bytes: "length (ToHex_bytes bs) = 2 * length bs"
  by (induction bs) auto

lemma unat_u8_div_16: "unat (b :: u8) div 16 < 16"
  using unat_u8_lt[of b] by (simp add: less_mult_imp_div_less)

lemma parse_ToHex_bytes: "parse_hex_loop (ToHex_bytes bs) = bs"
  by (induction bs) (simp_all add: hex_nibble_digit unat_u8_div_16 nibbles_byte)

section \<open>Properties\<close>

lemma token_interval:
  assumes "n = 8 \<or> n = 16" and "t < 2 ^ n"
  shows "\<exists>start end. getTokenRange t n = Inr (start, end)
           \<and> (\<forall>oid. start \<le> oid \<and> oid \<le> end \<longleftrightarrow> getToken oid n = Inr t)"
proof -
  define k where "k = n div 8"
  have n: "n = 8 * k" and k: "k = 1 \<or> k = 2"
    using assms(1) by (auto simp: k_def)
  then have k4: "k \<le> 4" by auto
  show ?thesis
    using interval_iff_prefix[of "be_bytes k t"] getToken_bytes[OF k] assms(2) k4
    by (auto simp: n getTokenRange_bytes)
qed

text \<open>
  C9. For the byte-aligned widths the storage manager uses, the identifiers of a token
  are exactly those in the interval \<^verbatim>\<open>getTokenRange\<close> gives it: the interval is never
  refused, and an identifier lies in it if and only if \<^verbatim>\<open>getToken\<close> maps it to that token.
\<close>

theorem getTokenRange_exact:
  assumes "n = 8 \<or> n = 16" and "t < 2 ^ n"
  shows "\<exists>start end. getTokenRange t n = Inr (start, end)
           \<and> (\<forall>oid. start \<le> oid \<and> oid \<le> end \<longleftrightarrow> getToken oid n = Inr t)"
  by (rule token_interval[OF assms])

theorem getTokenRange_exact_witness:
  "\<exists>start end. getTokenRange 0x0102 16 = Inr (start, end)
     \<and> (\<forall>oid. start \<le> oid \<and> oid \<le> end \<longleftrightarrow> getToken oid 16 = Inr 0x0102)"
  by (rule getTokenRange_exact) simp_all

text \<open>
  C25. Writing an identifier in hexadecimal and assigning the text back, with the prefix
  the assignment requires, restores the identifier whatever the target held before.
\<close>

theorem hex_round_trip: "assign_hex old (''0x'' @ ToHex oid) = oid"
  by (simp add: assign_hex_def ToHex_def length_ToHex_bytes parse_ToHex_bytes)

text \<open>
  Up to 16 bits the token is the leading bits of the digest, it fits the table of
  \<open>2 ^ n\<close> columns and every column is some object's token. A wider table degenerates: for
  17 to 24 bits, which \<^verbatim>\<open>getTokenBits\<close> has a branch for, the missing entries of
  \<^verbatim>\<open>bitMaskLookup\<close> send every object to token 0.
\<close>

theorem getToken_by_width:
  "(n \<le> 16 \<longrightarrow> (\<exists>t. getToken oid n = Inr t \<and> t = lead16 oid div 2 ^ (16 - n) \<and> t < 2 ^ n))
   \<and> (n \<le> 16 \<and> t < 2 ^ n \<longrightarrow> (\<exists>oid. getToken oid n = Inr t))
   \<and> (16 < n \<and> n \<le> 24 \<longrightarrow> getToken oid n = Inr 0)"
proof (intro conjI impI)
  show "\<exists>t. getToken oid n = Inr t \<and> t = lead16 oid div 2 ^ (16 - n) \<and> t < 2 ^ n"
    if "n \<le> 16"
    using that by (simp add: getToken_low lead16_div_lt)
  show "\<exists>oid. getToken oid n = Inr t" if "n \<le> 16 \<and> t < 2 ^ n"
  proof -
    have "t * 2 ^ (16 - n) < 2 ^ n * 2 ^ (16 - n)" using that by simp
    also have "\<dots> = 65536" using that by (simp flip: power_add)
    finally show ?thesis
      using that by (intro exI[of _ "oid_lead16 (t * 2 ^ (16 - n))"])
        (simp add: getToken_low lead16_oid_lead16)
  qed
  show "getToken oid n = Inr 0" if "16 < n \<and> n \<le> 24"
    using that by (simp add: getToken_high)
qed

theorem getToken_by_width_witness:
  "getToken (ObjectID_fill 0xFF) 20 = Inr 0
   \<and> getToken (ObjectID_fill 0xFF) 4 = Inr 15
   \<and> (\<exists>oid. getToken oid 4 = Inr 9)"
  using getToken_by_width[of 20 "ObjectID_fill 0xFF" 0] getToken_by_width[of 4 "ObjectID_fill 0xFF" 9]
  by (simp add: lead16_def digest_ObjectID_fill OBJECTID_DIGESTLEN_def)

end
