(* ===== verification/Svc_State.thy ===== *)
theory Svc_State
  imports Prelude
begin

text \<open>
  The life cycle of a service as the orchestration manager sees it:
  \<^verbatim>\<open>lib/misc/OmExtUtilApi.cpp\<close>. A service record carries a status and an incarnation
  number; an incoming record replaces the current one only when its incarnation is not
  older and the table \<^verbatim>\<open>allowedStateTransitions\<close> (with two special cases) permits the
  change of status. The same class keeps the list of nodes that wait for removal, which
  the verification of the placement tables consults.
\<close>

section \<open>Records\<close>

datatype ServiceStatus =
    SVC_STATUS_INVALID
  | SVC_STATUS_ACTIVE
  | SVC_STATUS_INACTIVE_STOPPED
  | SVC_STATUS_DISCOVERED
  | SVC_STATUS_STANDBY
  | SVC_STATUS_ADDED
  | SVC_STATUS_STARTED
  | SVC_STATUS_STOPPING
  | SVC_STATUS_REMOVED
  | SVC_STATUS_INACTIVE_FAILED

datatype FDSP_MgrIdType =
    FDSP_PLATFORM
  | FDSP_STOR_MGR
  | FDSP_DATA_MGR
  | FDSP_ACCESS_MGR
  | FDSP_ORCH_MGR
  | FDSP_CLI_MGR
  | FDSP_OMCLIENT_MGR
  | FDSP_MIGRATION_MGR
  | FDSP_PLATFORM_SVC
  | FDSP_CHECKER_TYPE
  | FDSP_TEST_APP
  | FDSP_CONSOLE
  | FDSP_INVALID_SVC

text \<open>\<^verbatim>\<open>struct SvcInfo\<close>; the incarnation number is a signed 32-bit value that is only compared.\<close>

record SvcInfo =
  svc_uuid :: u64
  svc_port :: int
  svc_type :: FDSP_MgrIdType
  svc_status :: ServiceStatus
  svc_auto_name :: string
  svc_ip :: string
  incarnationNo :: int
  svc_name :: string
  svc_props :: "(string \<times> string) list"

primrec status_code :: "ServiceStatus \<Rightarrow> nat" where
  "status_code SVC_STATUS_INVALID = 0"
| "status_code SVC_STATUS_ACTIVE = 1"
| "status_code SVC_STATUS_INACTIVE_STOPPED = 2"
| "status_code SVC_STATUS_DISCOVERED = 3"
| "status_code SVC_STATUS_STANDBY = 4"
| "status_code SVC_STATUS_ADDED = 5"
| "status_code SVC_STATUS_STARTED = 6"
| "status_code SVC_STATUS_STOPPING = 7"
| "status_code SVC_STATUS_REMOVED = 8"
| "status_code SVC_STATUS_INACTIVE_FAILED = 9"

section \<open>Permitted changes of status\<close>

definition allowedStateTransitions :: "ServiceStatus list list" where
  "allowedStateTransitions =
     [[SVC_STATUS_ACTIVE, SVC_STATUS_INACTIVE_STOPPED, SVC_STATUS_DISCOVERED, SVC_STATUS_STANDBY,
       SVC_STATUS_ADDED, SVC_STATUS_STARTED, SVC_STATUS_STOPPING, SVC_STATUS_REMOVED,
       SVC_STATUS_INACTIVE_FAILED],
      [SVC_STATUS_STANDBY, SVC_STATUS_STOPPING, SVC_STATUS_INACTIVE_FAILED, SVC_STATUS_STARTED],
      [SVC_STATUS_ACTIVE, SVC_STATUS_STARTED, SVC_STATUS_REMOVED, SVC_STATUS_DISCOVERED],
      [SVC_STATUS_ACTIVE],
      [SVC_STATUS_ACTIVE],
      [SVC_STATUS_STARTED, SVC_STATUS_REMOVED],
      [SVC_STATUS_ACTIVE, SVC_STATUS_STOPPING, SVC_STATUS_INACTIVE_FAILED],
      [SVC_STATUS_INACTIVE_STOPPED, SVC_STATUS_STARTED, SVC_STATUS_REMOVED, SVC_STATUS_DISCOVERED],
      [SVC_STATUS_DISCOVERED],
      [SVC_STATUS_ACTIVE, SVC_STATUS_STOPPING, SVC_STATUS_STARTED]]"

definition printSvcStatus :: "ServiceStatus \<Rightarrow> string" where
  "printSvcStatus s =
     [''INVALID'', ''ACTIVE'', ''INACTIVE_STOPPED'', ''DISCOVERED'', ''STANDBY'', ''ADDED'',
      ''STARTED'', ''STOPPING'', ''REMOVED'', ''INACTIVE_FAILED''] ! status_code s"

definition isTransitionAllowed ::
  "ServiceStatus \<Rightarrow> ServiceStatus \<Rightarrow> bool \<Rightarrow> bool \<Rightarrow> bool \<Rightarrow> FDSP_MgrIdType \<Rightarrow> bool \<Rightarrow> bool" where
  "isTransitionAllowed incoming current sameIncNo greaterIncNo zeroIncNo type pingUpdate =
     (if incoming = current then zeroIncNo \<or> greaterIncNo
      else if incoming = SVC_STATUS_ACTIVE \<and> current = SVC_STATUS_INACTIVE_FAILED then
        (if greaterIncNo then True
         else if pingUpdate then True
         else if type = FDSP_ORCH_MGR then True
         else False)
      else incoming \<in> set (allowedStateTransitions ! status_code current))"

definition isIncomingUpdateValid :: "SvcInfo \<Rightarrow> SvcInfo \<Rightarrow> bool \<Rightarrow> bool" where
  "isIncomingUpdateValid incomingSvcInfo currentInfo pingUpdate =
     (let inc = incarnationNo incomingSvcInfo;
          cur = incarnationNo currentInfo;
          (ret, sameIncNo, greaterIncNo, zeroIncNo) =
            (if inc < cur then (False, False, False, False)
             else if inc = cur \<and> svc_status incomingSvcInfo \<noteq> svc_status currentInfo
               then (True, True, False, False)
             else if inc > cur then (True, False, True, False)
             else if inc = 0 then (True, False, False, True)
             else (False, False, False, False))
      in if ret
         then isTransitionAllowed (svc_status incomingSvcInfo) (svc_status currentInfo)
                sameIncNo greaterIncNo zeroIncNo (svc_type incomingSvcInfo) pingUpdate
         else False)"

text \<open>The rows of the table, one fact per current status.\<close>

lemma allowed_rows [simp]:
  "allowedStateTransitions ! 0 =
     [SVC_STATUS_ACTIVE, SVC_STATUS_INACTIVE_STOPPED, SVC_STATUS_DISCOVERED, SVC_STATUS_STANDBY,
      SVC_STATUS_ADDED, SVC_STATUS_STARTED, SVC_STATUS_STOPPING, SVC_STATUS_REMOVED,
      SVC_STATUS_INACTIVE_FAILED]"
  "allowedStateTransitions ! Suc 0 =
     [SVC_STATUS_STANDBY, SVC_STATUS_STOPPING, SVC_STATUS_INACTIVE_FAILED, SVC_STATUS_STARTED]"
  "allowedStateTransitions ! 2 =
     [SVC_STATUS_ACTIVE, SVC_STATUS_STARTED, SVC_STATUS_REMOVED, SVC_STATUS_DISCOVERED]"
  "allowedStateTransitions ! 3 = [SVC_STATUS_ACTIVE]"
  "allowedStateTransitions ! 4 = [SVC_STATUS_ACTIVE]"
  "allowedStateTransitions ! 5 = [SVC_STATUS_STARTED, SVC_STATUS_REMOVED]"
  "allowedStateTransitions ! 6 = [SVC_STATUS_ACTIVE, SVC_STATUS_STOPPING, SVC_STATUS_INACTIVE_FAILED]"
  "allowedStateTransitions ! 7 =
     [SVC_STATUS_INACTIVE_STOPPED, SVC_STATUS_STARTED, SVC_STATUS_REMOVED, SVC_STATUS_DISCOVERED]"
  "allowedStateTransitions ! 8 = [SVC_STATUS_DISCOVERED]"
  "allowedStateTransitions ! 9 = [SVC_STATUS_ACTIVE, SVC_STATUS_STOPPING, SVC_STATUS_STARTED]"
  by (simp_all add: allowedStateTransitions_def)

lemma INVALID_not_allowed: "SVC_STATUS_INVALID \<notin> set (allowedStateTransitions ! status_code s)"
  by (cases s) simp_all

lemma isIncomingUpdateValid_iff:
  "isIncomingUpdateValid i c ping \<longleftrightarrow>
     (incarnationNo c < incarnationNo i
        \<and> isTransitionAllowed (svc_status i) (svc_status c) False True False (svc_type i) ping)
   \<or> (incarnationNo c = incarnationNo i \<and> svc_status i \<noteq> svc_status c
        \<and> isTransitionAllowed (svc_status i) (svc_status c) True False False (svc_type i) ping)
   \<or> (incarnationNo c = incarnationNo i \<and> svc_status i = svc_status c \<and> incarnationNo i = 0)"
  unfolding isIncomingUpdateValid_def Let_def
  by (cases "incarnationNo i" "incarnationNo c" rule: linorder_cases)
    (auto simp: isTransitionAllowed_def)

lemma valid_update_incarnation:
  "isIncomingUpdateValid i c ping \<Longrightarrow> incarnationNo c \<le> incarnationNo i"
  by (auto simp: isIncomingUpdateValid_iff)

lemma valid_update_status:
  "isIncomingUpdateValid i c ping \<Longrightarrow> svc_status i \<noteq> svc_status c \<Longrightarrow>
   svc_status i \<in> set (allowedStateTransitions ! status_code (svc_status c))"
  by (auto simp: isIncomingUpdateValid_iff isTransitionAllowed_def split: if_splits)

lemma valid_update_mono_ping:
  "isIncomingUpdateValid i c False \<Longrightarrow> isIncomingUpdateValid i c ping"
  by (auto simp: isIncomingUpdateValid_iff isTransitionAllowed_def split: if_splits)

lemma valid_update_ping_case:
  "isIncomingUpdateValid i c True \<Longrightarrow> \<not> isIncomingUpdateValid i c False \<Longrightarrow>
   svc_status i = SVC_STATUS_ACTIVE \<and> svc_status c = SVC_STATUS_INACTIVE_FAILED
   \<and> incarnationNo i = incarnationNo c"
  by (auto simp: isIncomingUpdateValid_iff isTransitionAllowed_def split: if_splits)

lemmas valid_update_facts =
  valid_update_incarnation valid_update_status valid_update_mono_ping valid_update_ping_case

section \<open>Nodes waiting for removal, and migrations to abort after a restart\<close>

record om_ext =
  removedNodes :: "(u64 \<times> FDSP_MgrIdType) list"
  sendSMMigAbortAfterRestart :: bool
  sendDMMigAbortAfterRestart :: bool
  dltTargetVersionForAbort :: u64
  dmtTargetVersionForAbort :: u64

definition OmExtUtilApi_init :: om_ext where
  "OmExtUtilApi_init = \<lparr>removedNodes = [], sendSMMigAbortAfterRestart = False,
     sendDMMigAbortAfterRestart = False, dltTargetVersionForAbort = 0, dmtTargetVersionForAbort = 0\<rparr>"

fun marked :: "(u64 \<times> FDSP_MgrIdType) list \<Rightarrow> u64 \<Rightarrow> bool" where
  "marked [] uuid = False"
| "marked (elem # rest) uuid = (if fst elem = uuid then True else marked rest uuid)"

definition isMarkedForRemoval :: "om_ext \<Rightarrow> u64 \<Rightarrow> bool" where
  "isMarkedForRemoval s uuid = marked (removedNodes s) uuid"

definition addToRemoveList :: "om_ext \<Rightarrow> u64 \<Rightarrow> FDSP_MgrIdType \<Rightarrow> om_ext" where
  "addToRemoveList s uuid type =
     (if \<not> isMarkedForRemoval s uuid
      then s\<lparr>removedNodes := removedNodes s @ [(uuid, type)]\<rparr> else s)"

fun erase_first :: "u64 \<Rightarrow> (u64 \<times> FDSP_MgrIdType) list \<Rightarrow> (u64 \<times> FDSP_MgrIdType) list" where
  "erase_first uuid [] = []"
| "erase_first uuid (mem # rest) = (if uuid = fst mem then rest else mem # erase_first uuid rest)"

definition clearFromRemoveList :: "om_ext \<Rightarrow> u64 \<Rightarrow> om_ext" where
  "clearFromRemoveList s uuid = s\<lparr>removedNodes := erase_first uuid (removedNodes s)\<rparr>"

definition getPendingNodeRemoves :: "om_ext \<Rightarrow> FDSP_MgrIdType \<Rightarrow> nat" where
  "getPendingNodeRemoves s type = length (filter (\<lambda>item. snd item = type) (removedNodes s))"

definition setSMAbortParams :: "om_ext \<Rightarrow> bool \<Rightarrow> u64 \<Rightarrow> om_ext" where
  "setSMAbortParams s abort version =
     s\<lparr>sendSMMigAbortAfterRestart := abort, dltTargetVersionForAbort := version\<rparr>"

definition clearSMAbortParams :: "om_ext \<Rightarrow> om_ext" where
  "clearSMAbortParams s = s\<lparr>sendSMMigAbortAfterRestart := False, dltTargetVersionForAbort := 0\<rparr>"

definition setDMAbortParams :: "om_ext \<Rightarrow> bool \<Rightarrow> u64 \<Rightarrow> om_ext" where
  "setDMAbortParams s abort version =
     s\<lparr>sendDMMigAbortAfterRestart := abort, dmtTargetVersionForAbort := version\<rparr>"

definition clearDMAbortParams :: "om_ext \<Rightarrow> om_ext" where
  "clearDMAbortParams s = s\<lparr>sendDMMigAbortAfterRestart := False, dmtTargetVersionForAbort := 0\<rparr>"

lemma marked_iff: "marked xs uuid \<longleftrightarrow> uuid \<in> fst ` set xs"
  by (induction xs) auto

lemma set_erase_first: "distinct (map fst xs) \<Longrightarrow> fst ` set (erase_first uuid xs) = fst ` set xs - {uuid}"
  by (induction xs) (auto simp: image_iff)

lemma distinct_erase_first: "distinct (map fst xs) \<Longrightarrow> distinct (map fst (erase_first uuid xs))"
  by (induction xs) (auto simp: set_erase_first image_iff dest: in_set_conv_nth[THEN iffD1])

text \<open>No node is listed twice; every operation keeps it so, and clearing then really clears.\<close>

definition remove_list_ok :: "om_ext \<Rightarrow> bool" where
  "remove_list_ok s \<longleftrightarrow> distinct (map fst (removedNodes s))"

lemma remove_list_ok_init [wf_intros]: "remove_list_ok OmExtUtilApi_init"
  by (simp add: remove_list_ok_def OmExtUtilApi_init_def)

lemma remove_list_ok_add [wf_intros]: "remove_list_ok s \<Longrightarrow> remove_list_ok (addToRemoveList s u t)"
  by (auto simp: remove_list_ok_def addToRemoveList_def isMarkedForRemoval_def marked_iff)

lemma remove_list_ok_clear [wf_intros]: "remove_list_ok s \<Longrightarrow> remove_list_ok (clearFromRemoveList s u)"
  by (simp add: remove_list_ok_def clearFromRemoveList_def distinct_erase_first)

lemma isMarked_add: "isMarkedForRemoval (addToRemoveList s u t) v \<longleftrightarrow> v = u \<or> isMarkedForRemoval s v"
  by (auto simp: isMarkedForRemoval_def addToRemoveList_def marked_iff)

lemma isMarked_clear:
  "remove_list_ok s \<Longrightarrow>
   isMarkedForRemoval (clearFromRemoveList s u) v \<longleftrightarrow> v \<noteq> u \<and> isMarkedForRemoval s v"
  by (auto simp: isMarkedForRemoval_def clearFromRemoveList_def marked_iff set_erase_first
      remove_list_ok_def)

end
