(* ===== verification/Svc_Maps.thy ===== *)
theory Svc_Maps
  imports Svc_State
begin

text \<open>
  The two service maps of the orchestration manager and the handler that keeps them
  together: \<^verbatim>\<open>SvcHandle\<close> and the map operations of \<^verbatim>\<open>SvcMgr\<close>
  (\<^verbatim>\<open>net-service/svc_request/SvcMgr.cpp\<close>), the comparisons of \<^verbatim>\<open>orch-mgr/om-lib/OmIntUtilApi.cpp\<close>
  and \<^verbatim>\<open>updateSvcMaps\<close> of \<^verbatim>\<open>orch-mgr/include/OmIntUtilApi.h\<close>. The configuration database is a
  template parameter of the source; it is modelled by the map its hash \<^verbatim>\<open>svcmap\<close> holds,
  for a store whose requests succeed.
\<close>

section \<open>The service layer\<close>

text \<open>\<^verbatim>\<open>svcInfo_\<close> and \<^verbatim>\<open>svcClient_\<close>, the open connection, if any.\<close>

record SvcHandle =
  h_svcInfo :: SvcInfo
  h_svcClient :: "nat option"

type_synonym svc_map = "u64 \<Rightarrow> SvcHandle option"

definition updateSvcHandle :: "SvcHandle \<Rightarrow> SvcInfo \<Rightarrow> bool \<Rightarrow> nat option \<Rightarrow> SvcHandle" where
  "updateSvcHandle h newInfo forceUpdate client =
     (if forceUpdate then h\<lparr>h_svcInfo := newInfo, h_svcClient := client\<rparr>
      else if isIncomingUpdateValid newInfo (h_svcInfo h) False
        then h\<lparr>h_svcInfo := newInfo, h_svcClient := None\<rparr>
      else h)"

definition isSvcDown :: "SvcHandle \<Rightarrow> bool" where
  "isSvcDown h \<longleftrightarrow> svc_status (h_svcInfo h) = SVC_STATUS_INACTIVE_FAILED"

text \<open>
  \<^verbatim>\<open>markSvcDown_\<close>: the second component says whether the service was reported to the OM.
\<close>

definition markSvcDown :: "u64 \<Rightarrow> u64 \<Rightarrow> bool \<Rightarrow> SvcHandle \<Rightarrow> SvcHandle \<times> bool" where
  "markSvcDown selfUuid omUuid canAcceptRequests h =
     (let failed = h\<lparr>h_svcInfo := (h_svcInfo h)\<lparr>svc_status := SVC_STATUS_INACTIVE_FAILED\<rparr>,
                     h_svcClient := None\<rparr>;
          notify = (omUuid \<noteq> svc_uuid (h_svcInfo h))
      in if selfUuid = omUuid then
           (if \<not> canAcceptRequests then (h, False)
            else if isTransitionAllowed SVC_STATUS_INACTIVE_FAILED (svc_status (h_svcInfo h))
                      True False False (svc_type (h_svcInfo h)) False
              then (failed, notify)
            else (h, False))
         else (failed, notify))"

definition updateSvcMap_entry :: "bool \<Rightarrow> SvcInfo \<Rightarrow> svc_map \<Rightarrow> svc_map" where
  "updateSvcMap_entry forceUpdate e m =
     (case m (svc_uuid e) of
        None \<Rightarrow> m(svc_uuid e \<mapsto> \<lparr>h_svcInfo = e, h_svcClient = None\<rparr>)
      | Some h \<Rightarrow> m(svc_uuid e \<mapsto> updateSvcHandle h e forceUpdate None))"

definition updateSvcMap :: "SvcInfo list \<Rightarrow> bool \<Rightarrow> svc_map \<Rightarrow> svc_map" where
  "updateSvcMap entries forceUpdate m = fold (updateSvcMap_entry forceUpdate) entries m"

definition deleteFromSvcMap :: "u64 \<Rightarrow> svc_map \<Rightarrow> svc_map" where
  "deleteFromSvcMap uuid m = m(uuid := None)"

definition getSvcInfo :: "svc_map \<Rightarrow> u64 \<Rightarrow> SvcInfo option" where
  "getSvcInfo m uuid = map_option h_svcInfo (m uuid)"

section \<open>Comparing the two records of a service\<close>

definition dbRecordNeedsUpdate :: "SvcInfo \<Rightarrow> SvcInfo \<Rightarrow> bool" where
  "dbRecordNeedsUpdate svcLayerInfo dbInfo =
     (let l = incarnationNo svcLayerInfo; d = incarnationNo dbInfo in
      if l = 0 \<and> d \<noteq> 0 then False
      else if l \<noteq> 0 \<and> d = 0 then True
      else if l < d then False
      else if l = d then False
      else if l > d then True
      else False)"

definition areRecordsSame :: "SvcInfo \<Rightarrow> SvcInfo \<Rightarrow> bool" where
  "areRecordsSame svcLayerInfo dbInfo \<longleftrightarrow>
     incarnationNo svcLayerInfo = incarnationNo dbInfo \<and> svc_status svcLayerInfo = svc_status dbInfo"

section \<open>Updating both maps\<close>

text \<open>The state the handler works on, with the number of map broadcasts it has sent.\<close>

record om_maps =
  configDB :: "u64 \<Rightarrow> SvcInfo option"
  svcLayer :: svc_map
  broadcasts :: nat

definition changeStateSvcMap :: "SvcInfo \<Rightarrow> om_maps \<Rightarrow> om_maps" where
  "changeStateSvcMap i s = s\<lparr>configDB := (configDB s)(svc_uuid i \<mapsto> i)\<rparr>"

definition layerUpdate :: "SvcInfo \<Rightarrow> bool \<Rightarrow> om_maps \<Rightarrow> om_maps" where
  "layerUpdate i forceUpdate s = s\<lparr>svcLayer := updateSvcMap [i] forceUpdate (svcLayer s)\<rparr>"

definition layerInfo :: "om_maps \<Rightarrow> u64 \<Rightarrow> SvcInfo option" where
  "layerInfo s u = getSvcInfo (svcLayer s) u"

definition is_addition :: "ServiceStatus \<Rightarrow> bool" where
  "is_addition st \<longleftrightarrow> st = SVC_STATUS_ADDED \<or> st = SVC_STATUS_STARTED"

subsection \<open>Updates that carry a record (handler and registration)\<close>

text \<open>Neither map knows the service.\<close>

definition update_none_found :: "SvcInfo \<Rightarrow> bool \<Rightarrow> om_maps \<Rightarrow> om_maps" where
  "update_none_found incoming svcAddition s =
     (if \<not> svcAddition then layerUpdate incoming False (changeStateSvcMap incoming s)
      else changeStateSvcMap incoming s)"

text \<open>Only the database knows it.\<close>

definition update_db_found :: "SvcInfo \<Rightarrow> SvcInfo \<Rightarrow> bool \<Rightarrow> bool \<Rightarrow> om_maps \<Rightarrow> om_maps" where
  "update_db_found incoming dbInfo svcAddition pingUpdate s =
     (if isIncomingUpdateValid incoming dbInfo pingUpdate then
        (if \<not> svcAddition then layerUpdate incoming False (changeStateSvcMap incoming s)
         else changeStateSvcMap incoming s)
      else if svc_status incoming = SVC_STATUS_ACTIVE \<and> svc_status dbInfo = SVC_STATUS_ACTIVE
        then layerUpdate incoming False s
      else s)"

text \<open>Only the service layer knows it.\<close>

definition update_layer_found :: "SvcInfo \<Rightarrow> SvcInfo \<Rightarrow> bool \<Rightarrow> om_maps \<Rightarrow> om_maps" where
  "update_layer_found incoming svcLayerInfo pingUpdate s =
     (if isIncomingUpdateValid incoming svcLayerInfo pingUpdate
      then layerUpdate incoming False (changeStateSvcMap incoming s)
      else changeStateSvcMap svcLayerInfo s)"

text \<open>Both know it. The flag returned is \<^verbatim>\<open>svcAddition\<close>, which also suppresses the broadcast.\<close>

definition update_both_found ::
  "SvcInfo \<Rightarrow> SvcInfo \<Rightarrow> SvcInfo \<Rightarrow> bool \<Rightarrow> bool \<Rightarrow> om_maps \<Rightarrow> om_maps \<times> bool" where
  "update_both_found incoming svcLayerInfo dbInfo svcAddition pingUpdate s =
     (let validUpdate = isIncomingUpdateValid incoming svcLayerInfo pingUpdate;
          dbHasOlderRecord = dbRecordNeedsUpdate svcLayerInfo dbInfo;
          sameRecords = areRecordsSame svcLayerInfo dbInfo
      in if validUpdate \<and> dbHasOlderRecord then
           (layerUpdate incoming False (changeStateSvcMap incoming s), svcAddition)
         else if validUpdate \<and> \<not> dbHasOlderRecord \<and> \<not> sameRecords then
           (if isIncomingUpdateValid incoming dbInfo pingUpdate
            then (layerUpdate incoming False (changeStateSvcMap incoming s), svcAddition)
            else (layerUpdate dbInfo True s, svcAddition))
         else if validUpdate \<and> \<not> dbHasOlderRecord \<and> sameRecords then
           (layerUpdate incoming pingUpdate (changeStateSvcMap incoming s), svcAddition)
         else if \<not> validUpdate \<and> dbHasOlderRecord then
           (changeStateSvcMap svcLayerInfo s, svcAddition)
         else if \<not> validUpdate \<and> \<not> dbHasOlderRecord \<and> sameRecords then
           (s, True)
         else if \<not> validUpdate \<and> \<not> dbHasOlderRecord \<and> \<not> sameRecords then
           (if isIncomingUpdateValid incoming dbInfo pingUpdate
            then (layerUpdate incoming False (changeStateSvcMap incoming (layerUpdate dbInfo True s)),
                  svcAddition)
            else (layerUpdate dbInfo True s, svcAddition))
         else (s, svcAddition))"

definition updateSvcMaps_handler ::
  "om_maps \<Rightarrow> u64 \<Rightarrow> ServiceStatus \<Rightarrow> FDSP_MgrIdType \<Rightarrow> SvcInfo \<Rightarrow> bool \<Rightarrow> om_maps" where
  "updateSvcMaps_handler s u status svcType incoming pingUpdate =
     (if svcType = FDSP_CONSOLE then layerUpdate incoming False (changeStateSvcMap incoming s)
      else
        let layerRec = layerInfo s u;
            dbRec = configDB s u;
            svcLayerInfo = (case layerRec of Some l \<Rightarrow> l | None \<Rightarrow> incoming);
            dbInfo = (case dbRec of Some d \<Rightarrow> d | None \<Rightarrow> incoming);
            bothZero = (incarnationNo svcLayerInfo = 0 \<and> incarnationNo dbInfo = 0)
        in if bothZero \<and> \<not> is_addition status then s
           else
             let svcAddition = is_addition status;
                 (s', quiet) =
                   (case (layerRec, dbRec) of
                      (None, None) \<Rightarrow> (update_none_found dbInfo svcAddition s, svcAddition)
                    | (None, Some d) \<Rightarrow> (update_db_found incoming d svcAddition pingUpdate s, svcAddition)
                    | (Some l, None) \<Rightarrow> (update_layer_found incoming l pingUpdate s, svcAddition)
                    | (Some l, Some d) \<Rightarrow> update_both_found incoming l d svcAddition pingUpdate s)
             in if \<not> quiet then s'\<lparr>broadcasts := broadcasts s' + 1\<rparr> else s')"

subsection \<open>Updates that carry only a status\<close>

definition SvcInfo_default :: SvcInfo where
  "SvcInfo_default = \<lparr>svc_uuid = 0, svc_port = 0, svc_type = FDSP_PLATFORM,
     svc_status = SVC_STATUS_INVALID, svc_auto_name = [], svc_ip = [], incarnationNo = 0,
     svc_name = [], svc_props = []\<rparr>"

definition initial_record :: "SvcInfo option \<Rightarrow> SvcInfo" where
  "initial_record r = (case r of Some i \<Rightarrow> i | None \<Rightarrow> SvcInfo_default)"

definition updated_record :: "SvcInfo option \<Rightarrow> u64 \<Rightarrow> ServiceStatus \<Rightarrow> FDSP_MgrIdType \<Rightarrow> SvcInfo" where
  "updated_record r u status svcType =
     (case r of
        Some i \<Rightarrow> i\<lparr>svc_status := status\<rparr>
      | None \<Rightarrow> SvcInfo_default\<lparr>svc_uuid := u, svc_status := status, svc_type := svcType,
                                 incarnationNo := 0\<rparr>)"

text \<open>
  The database step: the record that is newer, with the new status, is written if the change
  is permitted. \<open>Inl\<close> is an early return of the handler, \<open>Inr\<close> the state it goes on with and
  the record \<^verbatim>\<open>newRecord\<close>.
\<close>

definition status_db_step ::
  "om_maps \<Rightarrow> u64 \<Rightarrow> ServiceStatus \<Rightarrow> FDSP_MgrIdType \<Rightarrow> bool \<Rightarrow> bool \<Rightarrow> om_maps + (om_maps \<times> SvcInfo)" where
  "status_db_step s u status svcType svcAddition pingUpdate =
     (let initialDbInfo = initial_record (configDB s u);
          dbInfoUpdate = updated_record (configDB s u) u status svcType;
          initialSvcLayerInfo = initial_record (layerInfo s u);
          svcLayerInfoUpdate = updated_record (layerInfo s u) u status svcType;
          allowed = (\<lambda>current. isTransitionAllowed status (svc_status current)
                                True False False svcType pingUpdate)
      in if dbRecordNeedsUpdate initialSvcLayerInfo initialDbInfo then
           (if allowed initialSvcLayerInfo
            then Inr (changeStateSvcMap svcLayerInfoUpdate s, svcLayerInfoUpdate)
            else Inl (changeStateSvcMap initialSvcLayerInfo s))
         else if svc_status initialDbInfo \<noteq> SVC_STATUS_INVALID then
           (if allowed initialDbInfo
            then Inr (changeStateSvcMap dbInfoUpdate s, dbInfoUpdate)
            else if \<not> areRecordsSame initialSvcLayerInfo initialDbInfo \<and> \<not> svcAddition
              then Inl (layerUpdate initialDbInfo True s)
            else Inl s)
         else Inr (changeStateSvcMap dbInfoUpdate s, dbInfoUpdate))"

text \<open>
  The service-layer step. \<open>initialDbInfo\<close> and \<open>initialSvcLayerInfo\<close> were read before the
  database step.
\<close>

definition status_layer_step ::
  "om_maps \<Rightarrow> SvcInfo \<Rightarrow> SvcInfo \<Rightarrow> SvcInfo \<Rightarrow> bool \<Rightarrow> ServiceStatus \<Rightarrow> FDSP_MgrIdType \<Rightarrow> bool \<Rightarrow> om_maps" where
  "status_layer_step s newRecord initialDbInfo initialSvcLayerInfo skip status svcType pingUpdate =
     (if skip then s
      else
        let s' = (if \<not> isTransitionAllowed status (svc_status initialSvcLayerInfo)
                         True False False svcType pingUpdate
                  then layerUpdate newRecord False (layerUpdate initialDbInfo True s)
                  else s)
        in layerUpdate newRecord False s')"

text \<open>
  The whole path. \<open>others\<close> is what other threads do to the service layer between the
  database step and the second read of the layer; a newer incarnation found there restarts
  the update with that record.
\<close>

definition updateSvcMaps_status ::
  "om_maps \<Rightarrow> u64 \<Rightarrow> ServiceStatus \<Rightarrow> FDSP_MgrIdType \<Rightarrow> bool \<Rightarrow> (svc_map \<Rightarrow> svc_map) \<Rightarrow> om_maps" where
  "updateSvcMaps_status s u status svcType pingUpdate others =
     (let dbInfoUpdate = updated_record (configDB s u) u status svcType;
          svcLayerInfoUpdate = updated_record (layerInfo s u) u status svcType;
          initialDbInfo = initial_record (configDB s u);
          initialSvcLayerInfo = initial_record (layerInfo s u);
          bothZero = (incarnationNo svcLayerInfoUpdate = 0 \<and> incarnationNo dbInfoUpdate = 0);
          addedRemoved = (svc_status initialDbInfo = SVC_STATUS_ADDED \<and> status = SVC_STATUS_REMOVED)
      in if bothZero \<and> \<not> is_addition status \<and> \<not> addedRemoved then s
         else
           let svcAddition = (if bothZero then True else is_addition status)
           in (case status_db_step s u status svcType svcAddition pingUpdate of
                 Inl s' \<Rightarrow> s'
               | Inr (s1, newRecord) \<Rightarrow>
                   let s2 = s1\<lparr>svcLayer := others (svcLayer s1)\<rparr>;
                       finish = status_layer_step s2 newRecord initialDbInfo initialSvcLayerInfo
                                  (svcAddition \<and> layerInfo s u = None) status svcType pingUpdate
                   in (case layerInfo s2 u of
                         Some n \<Rightarrow>
                           (if incarnationNo initialSvcLayerInfo \<noteq> 0 \<and> incarnationNo n \<noteq> 0
                               \<and> svc_status n \<noteq> svc_status initialSvcLayerInfo
                               \<and> incarnationNo n > incarnationNo svcLayerInfoUpdate
                            then updateSvcMaps_handler s2 u (svc_status n) (svc_type n) n False
                            else finish)
                       | None \<Rightarrow> finish)))"

definition updateSvcMaps ::
  "om_maps \<Rightarrow> u64 \<Rightarrow> ServiceStatus \<Rightarrow> FDSP_MgrIdType \<Rightarrow> bool \<Rightarrow> bool \<Rightarrow> SvcInfo \<Rightarrow> bool \<Rightarrow>
   (svc_map \<Rightarrow> svc_map) \<Rightarrow> om_maps" where
  "updateSvcMaps s u status svcType handlerUpdate registration incoming pingUpdate others =
     (if handlerUpdate \<or> registration
      then updateSvcMaps_handler s u status svcType incoming pingUpdate
      else updateSvcMaps_status s u status svcType pingUpdate others)"

text \<open>\<^verbatim>\<open>populateAndRemoveSvc\<close>: the node joins the removal list and its status becomes \<^verbatim>\<open>REMOVED\<close>.\<close>

definition populateAndRemoveSvc ::
  "om_ext \<Rightarrow> om_maps \<Rightarrow> u64 \<Rightarrow> FDSP_MgrIdType \<Rightarrow> (svc_map \<Rightarrow> svc_map) \<Rightarrow> om_ext \<times> om_maps" where
  "populateAndRemoveSvc e s u type others =
     (addToRemoveList e u type,
      updateSvcMaps s u SVC_STATUS_REMOVED type False False SvcInfo_default False others)"

section \<open>The stores as an interface\<close>

text \<open>
  What the handler relies on in either store: after a record is written, looking its
  service up gives that record, and the other services keep theirs.
\<close>

locale svc_store =
  fixes lookup :: "'s \<Rightarrow> u64 \<Rightarrow> SvcInfo option"
    and store :: "SvcInfo \<Rightarrow> 's \<Rightarrow> 's"
  assumes lookup_store: "lookup (store i s) u = (if u = svc_uuid i then Some i else lookup s u)"
begin

lemma lookup_store_same [simp]: "svc_uuid i = u \<Longrightarrow> lookup (store i s) u = Some i"
  by (simp add: lookup_store)

lemma lookup_store_other [simp]: "svc_uuid i \<noteq> u \<Longrightarrow> lookup (store i s) u = lookup s u"
  by (simp add: lookup_store)

lemma lookup_fold_store:
  "lookup (fold store is s) u =
     (case filter (\<lambda>i. svc_uuid i = u) (rev is) of [] \<Rightarrow> lookup s u | i # _ \<Rightarrow> Some i)"
proof (induction "is" rule: rev_induct)
  case Nil
  then show ?case by simp
next
  case (snoc i js)
  then show ?case by (simp add: lookup_store)
qed

end

lemma getSvcInfo_forced:
  "getSvcInfo (updateSvcMap_entry True i m) u = (if u = svc_uuid i then Some i else getSvcInfo m u)"
  by (auto simp: getSvcInfo_def updateSvcMap_entry_def updateSvcHandle_def split: option.splits)

interpretation db: svc_store configDB changeStateSvcMap
  by unfold_locales (simp add: changeStateSvcMap_def)

interpretation forced: svc_store getSvcInfo "updateSvcMap_entry True"
  by unfold_locales (rule getSvcInfo_forced)

text \<open>The unforced update of the layer stores the record only when it is valid there.\<close>

lemma layerInfo_layerUpdate:
  "layerInfo (layerUpdate i force s) u =
     (if u = svc_uuid i then
        (case layerInfo s u of
           None \<Rightarrow> Some i
         | Some c \<Rightarrow> Some (if force \<or> isIncomingUpdateValid i c False then i else c))
      else layerInfo s u)"
  by (auto simp: layerInfo_def layerUpdate_def updateSvcMap_def updateSvcMap_entry_def
      updateSvcHandle_def getSvcInfo_def split: option.splits)

lemma layerInfo_forced: "layerInfo (layerUpdate i True s) u = (if u = svc_uuid i then Some i else layerInfo s u)"
  using forced.lookup_store by (simp add: layerInfo_def layerUpdate_def updateSvcMap_def)

lemma configDB_layerUpdate [simp]: "configDB (layerUpdate i force s) = configDB s"
  by (simp add: layerUpdate_def)

lemma layerInfo_changeState [simp]: "layerInfo (changeStateSvcMap i s) u = layerInfo s u"
  by (simp add: changeStateSvcMap_def layerInfo_def)

lemma layerInfo_broadcasts [simp]: "layerInfo (s\<lparr>broadcasts := n\<rparr>) u = layerInfo s u"
  by (simp add: layerInfo_def)

lemma configDB_changeState: "configDB (changeStateSvcMap i s) u = (if u = svc_uuid i then Some i else configDB s u)"
  by (rule db.lookup_store)

lemma areRecordsSame_refl [simp]: "areRecordsSame i i"
  by (simp add: areRecordsSame_def)

lemmas om_maps_reads = layerInfo_layerUpdate layerInfo_forced configDB_changeState

section \<open>What the handler establishes\<close>

text \<open>The records stored under a key name that service.\<close>

definition keyed :: "om_maps \<Rightarrow> bool" where
  "keyed s \<longleftrightarrow> (\<forall>u i. (configDB s u = Some i \<or> layerInfo s u = Some i) \<longrightarrow> svc_uuid i = u)"

lemma keyedD:
  "keyed s \<Longrightarrow> configDB s u = Some i \<Longrightarrow> svc_uuid i = u"
  "keyed s \<Longrightarrow> layerInfo s u = Some i \<Longrightarrow> svc_uuid i = u"
  by (auto simp: keyed_def)

lemma keyed_maps: "configDB s = configDB t \<Longrightarrow> svcLayer s = svcLayer t \<Longrightarrow> keyed s = keyed t"
  by (simp add: keyed_def layerInfo_def)

lemma keyed_changeState [wf_intros]: "keyed s \<Longrightarrow> keyed (changeStateSvcMap i s)"
  by (auto simp: keyed_def configDB_changeState split: if_splits)

lemma keyed_layerUpdate [wf_intros]: "keyed s \<Longrightarrow> keyed (layerUpdate i force s)"
  by (auto simp: keyed_def layerInfo_layerUpdate split: if_splits option.splits)

lemma keyed_broadcasts [wf_intros]: "keyed s \<Longrightarrow> keyed (s\<lparr>broadcasts := n\<rparr>)"
  by (simp add: keyed_def)

lemma keyed_both_found: "keyed s \<Longrightarrow> keyed (fst (update_both_found i l d add ping s))"
  by (auto simp: update_both_found_def Let_def intro!: wf_intros)

lemma keyed_one_found:
  assumes "keyed s"
  shows "keyed (update_none_found i add s)" "keyed (update_db_found i d add ping s)"
    "keyed (update_layer_found i l ping s)"
  using assms
  by (auto simp: update_none_found_def update_db_found_def update_layer_found_def intro!: wf_intros)

text \<open>The branch the handler takes, without the broadcast it may end with.\<close>

definition handler_core :: "om_maps \<Rightarrow> u64 \<Rightarrow> ServiceStatus \<Rightarrow> SvcInfo \<Rightarrow> bool \<Rightarrow> om_maps" where
  "handler_core s u status i ping =
     (case (layerInfo s u, configDB s u) of
        (None, None) \<Rightarrow> update_none_found i (is_addition status) s
      | (None, Some d) \<Rightarrow> update_db_found i d (is_addition status) ping s
      | (Some l, None) \<Rightarrow> update_layer_found i l ping s
      | (Some l, Some d) \<Rightarrow> fst (update_both_found i l d (is_addition status) ping s))"

definition handler_ignores :: "om_maps \<Rightarrow> u64 \<Rightarrow> ServiceStatus \<Rightarrow> SvcInfo \<Rightarrow> bool" where
  "handler_ignores s u status i \<longleftrightarrow> \<not> is_addition status
     \<and> incarnationNo (case layerInfo s u of Some l \<Rightarrow> l | None \<Rightarrow> i) = 0
     \<and> incarnationNo (case configDB s u of Some d \<Rightarrow> d | None \<Rightarrow> i) = 0"

lemma handler_eq:
  assumes "svcType \<noteq> FDSP_CONSOLE"
  shows "configDB (updateSvcMaps_handler s u status svcType i ping) =
           configDB (if handler_ignores s u status i then s else handler_core s u status i ping)"
    and "svcLayer (updateSvcMaps_handler s u status svcType i ping) =
           svcLayer (if handler_ignores s u status i then s else handler_core s u status i ping)"
  using assms unfolding updateSvcMaps_handler_def handler_core_def handler_ignores_def Let_def
  by (cases "layerInfo s u"; cases "configDB s u"; simp add: case_prod_beta)+

lemma handler_state:
  assumes "svcType \<noteq> FDSP_CONSOLE" "\<not> handler_ignores s u status i"
  shows "configDB (updateSvcMaps_handler s u status svcType i ping) = configDB (handler_core s u status i ping)"
    and "layerInfo (updateSvcMaps_handler s u status svcType i ping) v = layerInfo (handler_core s u status i ping) v"
  using handler_eq[OF assms(1), of s u status i ping] assms(2) by (simp_all add: layerInfo_def)

lemma handler_ignored:
  "svcType \<noteq> FDSP_CONSOLE \<Longrightarrow> handler_ignores s u status i \<Longrightarrow>
   updateSvcMaps_handler s u status svcType i ping = s"
  by (simp add: updateSvcMaps_handler_def handler_ignores_def Let_def)

lemma keyed_core: "keyed s \<Longrightarrow> keyed (handler_core s u status i ping)"
  by (cases "layerInfo s u"; cases "configDB s u")
    (simp_all add: handler_core_def keyed_both_found keyed_one_found)

lemma keyed_handler [wf_intros]:
  assumes "keyed s"
  shows "keyed (updateSvcMaps_handler s u status svcType i ping)"
proof (cases "svcType = FDSP_CONSOLE")
  case True
  then show ?thesis
    using assms by (simp add: updateSvcMaps_handler_def keyed_layerUpdate keyed_changeState)
next
  case False
  then show ?thesis
    using keyed_maps[OF handler_eq[OF False, of s u status i ping]] assms keyed_core[OF assms]
    by simp
qed

lemma dbRecordNeedsUpdate_mono:
  "dbRecordNeedsUpdate l d \<Longrightarrow> 0 \<le> incarnationNo l \<Longrightarrow> incarnationNo d < incarnationNo l"
  by (auto simp: dbRecordNeedsUpdate_def Let_def split: if_splits)

text \<open>Both maps know the service: afterwards they hold records that agree.\<close>

lemma both_found_agree:
  assumes "layerInfo s u = Some l" "configDB s u = Some d"
    and "svc_uuid l = u" "svc_uuid d = u" "svc_uuid i = u"
  shows "\<exists>l' d'. layerInfo (fst (update_both_found i l d add False s)) u = Some l'
     \<and> configDB (fst (update_both_found i l d add False s)) u = Some d' \<and> areRecordsSame l' d'"
  using assms
  by (cases "isIncomingUpdateValid i l False"; cases "dbRecordNeedsUpdate l d";
      cases "areRecordsSame l d"; cases "isIncomingUpdateValid i d False")
    (simp_all add: update_both_found_def Let_def om_maps_reads)

lemma both_found_incarnation:
  assumes "configDB s u = Some d" "layerInfo s u = Some l" "0 \<le> incarnationNo l"
    and "svc_uuid l = u" "svc_uuid i = u"
  shows "\<exists>d'. configDB (fst (update_both_found i l d add ping s)) u = Some d'
     \<and> incarnationNo d \<le> incarnationNo d'"
  using assms valid_update_incarnation[of i l ping] valid_update_incarnation[of i d ping]
    dbRecordNeedsUpdate_mono[of l d]
  by (cases "isIncomingUpdateValid i l ping"; cases "dbRecordNeedsUpdate l d";
      cases "areRecordsSame l d"; cases "isIncomingUpdateValid i d ping")
    (simp_all add: update_both_found_def Let_def om_maps_reads areRecordsSame_def)

lemma db_found_incarnation:
  assumes "configDB s u = Some d" "svc_uuid i = u"
  shows "\<exists>d'. configDB (update_db_found i d add ping s) u = Some d'
     \<and> incarnationNo d \<le> incarnationNo d'"
  using assms valid_update_incarnation[of i d ping]
  by (cases "isIncomingUpdateValid i d ping") (simp_all add: update_db_found_def om_maps_reads)

text \<open>Writing the record of one service leaves the records of the others.\<close>

lemma layerUpdate_other: "svc_uuid i \<noteq> v \<Longrightarrow> layerInfo (layerUpdate i force s) v = layerInfo s v"
  by (auto simp: layerInfo_layerUpdate)

lemma changeState_other: "svc_uuid i \<noteq> v \<Longrightarrow> configDB (changeStateSvcMap i s) v = configDB s v"
  by (rule db.lookup_store_other)

lemmas store_others = layerUpdate_other changeState_other

lemma both_found_other:
  assumes "svc_uuid i \<noteq> v" "svc_uuid l \<noteq> v" "svc_uuid d \<noteq> v"
  shows "configDB (fst (update_both_found i l d add ping s)) v = configDB s v"
    and "layerInfo (fst (update_both_found i l d add ping s)) v = layerInfo s v"
  using assms by (simp_all add: update_both_found_def Let_def store_others)

lemma none_found_other:
  assumes "svc_uuid i \<noteq> v"
  shows "configDB (update_none_found i add s) v = configDB s v"
    and "layerInfo (update_none_found i add s) v = layerInfo s v"
  using assms by (simp_all add: update_none_found_def store_others)

lemma one_found_other:
  assumes "svc_uuid i \<noteq> v" "svc_uuid r \<noteq> v"
  shows "configDB (update_db_found i r add ping s) v = configDB s v"
    and "layerInfo (update_db_found i r add ping s) v = layerInfo s v"
    and "configDB (update_layer_found i r ping s) v = configDB s v"
    and "layerInfo (update_layer_found i r ping s) v = layerInfo s v"
  using assms
  by (simp_all add: update_db_found_def update_layer_found_def store_others)

lemma core_frame:
  assumes "keyed s" "svc_uuid i = u" "v \<noteq> u"
  shows "configDB (handler_core s u status i ping) v = configDB s v"
    and "layerInfo (handler_core s u status i ping) v = layerInfo s v"
proof -
  have "svc_uuid i \<noteq> v" "\<And>l. layerInfo s u = Some l \<Longrightarrow> svc_uuid l \<noteq> v"
    "\<And>d. configDB s u = Some d \<Longrightarrow> svc_uuid d \<noteq> v"
    using assms keyedD[OF assms(1), of u] by blast+
  then show "configDB (handler_core s u status i ping) v = configDB s v"
    "layerInfo (handler_core s u status i ping) v = layerInfo s v"
    by (cases "layerInfo s u"; cases "configDB s u";
        simp add: handler_core_def both_found_other none_found_other one_found_other)+
qed

section \<open>A handle of the service layer over time\<close>

text \<open>
  What happens to one handle on the orchestration manager: unforced map updates, and the
  service being found unreachable while the manager accepts requests or not.
\<close>

inductive om_handle_step :: "u64 \<Rightarrow> SvcHandle \<Rightarrow> SvcHandle \<Rightarrow> bool" for om where
  update: "om_handle_step om h (updateSvcHandle h i False None)"
| down: "om_handle_step om h (fst (markSvcDown om om acceptRequests h))"

inductive_cases om_handle_stepE: "om_handle_step om h h'"

definition status_succ :: "ServiceStatus \<Rightarrow> ServiceStatus \<Rightarrow> bool" where
  "status_succ st st' \<longleftrightarrow> st' \<in> set (allowedStateTransitions ! status_code st)"

abbreviation handle_status :: "SvcHandle \<Rightarrow> ServiceStatus" where
  "handle_status h \<equiv> svc_status (h_svcInfo h)"

abbreviation handle_incarnation :: "SvcHandle \<Rightarrow> int" where
  "handle_incarnation h \<equiv> incarnationNo (h_svcInfo h)"

lemma om_step_incarnation: "om_handle_step om h h' \<Longrightarrow> handle_incarnation h \<le> handle_incarnation h'"
  by (auto elim!: om_handle_stepE simp: updateSvcHandle_def markSvcDown_def Let_def
      dest: valid_update_incarnation)

lemma om_step_status:
  "om_handle_step om h h' \<Longrightarrow> handle_status h' \<noteq> handle_status h \<Longrightarrow>
   status_succ (handle_status h) (handle_status h')"
  by (auto elim!: om_handle_stepE
      simp: updateSvcHandle_def markSvcDown_def Let_def status_succ_def isTransitionAllowed_def
      dest: valid_update_status split: if_splits)

lemma om_reach_incarnation:
  "(om_handle_step om)\<^sup>*\<^sup>* h h' \<Longrightarrow> handle_incarnation h \<le> handle_incarnation h'"
  by (induction rule: rtranclp_induct) (auto dest: om_step_incarnation)

lemma om_reach_status:
  "(om_handle_step om)\<^sup>*\<^sup>* h h' \<Longrightarrow> status_succ\<^sup>*\<^sup>* (handle_status h) (handle_status h')"
proof (induction rule: rtranclp_induct)
  case base
  then show ?case by simp
next
  case (step y z)
  then show ?case
    using om_step_status[OF step.hyps(2)] by (cases "handle_status z = handle_status y") auto
qed

lemma status_succ_not_INVALID: "status_succ\<^sup>*\<^sup>* st st' \<Longrightarrow> st' = SVC_STATUS_INVALID \<Longrightarrow> st = SVC_STATUS_INVALID"
  by (induction rule: rtranclp_induct) (auto simp: status_succ_def INVALID_not_allowed)

lemma status_succ_from_REMOVED:
  "status_succ SVC_STATUS_REMOVED st \<longleftrightarrow> st = SVC_STATUS_DISCOVERED"
  "status_succ SVC_STATUS_DISCOVERED st \<longleftrightarrow> st = SVC_STATUS_ACTIVE"
  by (auto simp: status_succ_def)

lemma status_succ_leaves_REMOVED:
  assumes "status_succ\<^sup>*\<^sup>* SVC_STATUS_REMOVED st" "st \<noteq> SVC_STATUS_REMOVED"
  shows "status_succ\<^sup>*\<^sup>* SVC_STATUS_DISCOVERED st"
  using converse_rtranclpE[OF assms(1)] assms(2) status_succ_from_REMOVED(1) by metis

section \<open>Properties\<close>


definition wit_svc :: "int \<Rightarrow> ServiceStatus \<Rightarrow> SvcInfo" where
  "wit_svc inc st = SvcInfo_default\<lparr>svc_uuid := 7, svc_type := FDSP_DATA_MGR, incarnationNo := inc,
                                    svc_status := st\<rparr>"

definition wit_maps :: "SvcInfo \<Rightarrow> SvcInfo \<Rightarrow> om_maps" where
  "wit_maps l d = \<lparr>configDB = [7 \<mapsto> d], svcLayer = [7 \<mapsto> \<lparr>h_svcInfo = l, h_svcClient = None\<rparr>],
                   broadcasts = 0\<rparr>"

lemma wit_maps_reads [simp]:
  "configDB (wit_maps l d) u = (if u = 7 then Some d else None)"
  "layerInfo (wit_maps l d) u = (if u = 7 then Some l else None)"
  by (simp_all add: wit_maps_def layerInfo_def getSvcInfo_def)

lemma wit_keyed [simp]: "keyed (wit_maps (wit_svc a b) (wit_svc c e))"
  by (auto simp: keyed_def wit_svc_def)


text \<open>
  C19. Handler updates never take the database back to an earlier incarnation of a service:
  if the database has a record of a service that is not a console, then after any update
  through the handler it still has one, and its incarnation number is at least the old one.
\<close>

theorem handler_db_incarnation_mono:
  assumes "keyed s" "svc_uuid i = u" "svcType \<noteq> FDSP_CONSOLE" "configDB s u = Some d"
    and "\<forall>l. layerInfo s u = Some l \<longrightarrow> 0 \<le> incarnationNo l"
  shows "\<exists>d'. configDB (updateSvcMaps_handler s u status svcType i ping) u = Some d'
     \<and> incarnationNo d \<le> incarnationNo d'"
proof (cases "handler_ignores s u status i")
  case True
  then show ?thesis
    using handler_ignored[OF assms(3) True] assms(4) by simp
next
  case False
  show ?thesis
  proof (cases "layerInfo s u")
    case None
    then show ?thesis
      using db_found_incarnation[OF assms(4,2)] assms(4) handler_state(1)[OF assms(3) False]
      by (simp add: handler_core_def)
  next
    case (Some l)
    then show ?thesis
      using both_found_incarnation[OF assms(4) Some _ _ assms(2)] keyedD(2)[OF assms(1) Some]
        assms(4,5) handler_state(1)[OF assms(3) False]
      by (simp add: handler_core_def)
  qed
qed

theorem handler_db_incarnation_mono_witness:
  "\<exists>d'. configDB (updateSvcMaps_handler (wit_maps (wit_svc 5 SVC_STATUS_ACTIVE) (wit_svc 3 SVC_STATUS_STARTED))
        7 SVC_STATUS_ACTIVE FDSP_DATA_MGR (wit_svc 4 SVC_STATUS_ACTIVE) True) 7 = Some d' \<and>
     incarnationNo (wit_svc 3 SVC_STATUS_STARTED) \<le> incarnationNo d'"
  by (rule handler_db_incarnation_mono) (simp_all add: wit_svc_def wit_keyed[unfolded wit_svc_def])

text \<open>
  An update of one service is invisible to the others: on every path of the handler
  the records that both maps hold for another service stay as they are.
\<close>

theorem handler_other_services:
  assumes "keyed s" "svc_uuid i = u" "v \<noteq> u"
  shows "configDB (updateSvcMaps_handler s u status svcType i ping) v = configDB s v
     \<and> layerInfo (updateSvcMaps_handler s u status svcType i ping) v = layerInfo s v"
proof (cases "svcType = FDSP_CONSOLE")
  case True
  then show ?thesis
    using assms(2,3) by (simp add: updateSvcMaps_handler_def store_others)
next
  case False
  then show ?thesis
    using handler_eq[OF False, of s u status i ping] core_frame[OF assms]
    by (simp add: layerInfo_def)
qed

theorem handler_other_services_witness:
  "configDB (updateSvcMaps_handler (wit_maps (wit_svc 5 SVC_STATUS_ACTIVE) (wit_svc 3 SVC_STATUS_STARTED))
     7 SVC_STATUS_ACTIVE FDSP_DATA_MGR (wit_svc 6 SVC_STATUS_STARTED) False) 8 = None"
  using handler_other_services[of "wit_maps (wit_svc 5 SVC_STATUS_ACTIVE) (wit_svc 3 SVC_STATUS_STARTED)"
      "wit_svc 6 SVC_STATUS_STARTED" 7 8 SVC_STATUS_ACTIVE FDSP_DATA_MGR False]
  by (simp add: wit_svc_def wit_keyed[unfolded wit_svc_def])

lemma allowed_valid:
  assumes "isTransitionAllowed st (svc_status d) True False False (svc_type d) False" "areRecordsSame l d"
  shows "isIncomingUpdateValid (d\<lparr>svc_status := st\<rparr>) l False"
  using assms by (auto simp: isIncomingUpdateValid_iff areRecordsSame_def isTransitionAllowed_def)





end
