(* ===== verification/Serialize.thy ===== *)
theory Serialize
  imports Prelude
begin

text \<open>
  \<^verbatim>\<open>lib/misc/serialize.cpp\<close> and \<^verbatim>\<open>include/serialize.h\<close>. A \<^verbatim>\<open>Serializer\<close> forwards every
  call to thrift's \<^verbatim>\<open>TBinaryProtocol\<close> over a buffer, and a \<^verbatim>\<open>Deserializer\<close> to the reading
  half; thrift is not part of the repository, so the protocol is a parameter: the bytes each
  write appends and the value and remaining input each read takes. What the callers rely
  on is the predicate \<open>tprotocol_ok\<close>: a read takes off exactly what a write of the same
  type appended. Writing is a function to the bytes appended (the counts the calls return
  are their lengths), reading a function on the remaining input.
\<close>

named_theorems reads_intros "what a reader takes off the bytes a writer appended"

section \<open>The protocol\<close>

record tprotocol =
  writeByte :: "u8 \<Rightarrow> u8 list"
  writeI16 :: "u16 \<Rightarrow> u8 list"
  writeI32 :: "u32 \<Rightarrow> u8 list"
  writeI64 :: "u64 \<Rightarrow> u8 list"
  readByte :: "u8 list \<Rightarrow> (u8 \<times> u8 list) option"
  readI16 :: "u8 list \<Rightarrow> (u16 \<times> u8 list) option"
  readI32 :: "u8 list \<Rightarrow> (u32 \<times> u8 list) option"
  readI64 :: "u8 list \<Rightarrow> (u64 \<times> u8 list) option"

definition tprotocol_ok :: "'p tprotocol_scheme \<Rightarrow> bool" where
  "tprotocol_ok P \<longleftrightarrow>
     (\<forall>v rest. readByte P (writeByte P v @ rest) = Some (v, rest)) \<and>
     (\<forall>v rest. readI16 P (writeI16 P v @ rest) = Some (v, rest)) \<and>
     (\<forall>v rest. readI32 P (writeI32 P v @ rest) = Some (v, rest)) \<and>
     (\<forall>v rest. readI64 P (writeI64 P v @ rest) = Some (v, rest)) \<and>
     (\<forall>v. length (writeI64 P v) = 8)"

text \<open>Strings and flags, for the objects that hold them; a string has fewer than \<open>2 ^ 31\<close> bytes on the wire.\<close>

record sprotocol = tprotocol +
  writeString :: "u8 list \<Rightarrow> u8 list"
  writeBool :: "bool \<Rightarrow> u8 list"
  readString :: "u8 list \<Rightarrow> (u8 list \<times> u8 list) option"
  readBool :: "u8 list \<Rightarrow> (bool \<times> u8 list) option"

definition sprotocol_ok :: "'p sprotocol_scheme \<Rightarrow> bool" where
  "sprotocol_ok P \<longleftrightarrow> tprotocol_ok P \<and>
     (\<forall>s rest. length s < 2 ^ 31 \<longrightarrow> readString P (writeString P s @ rest) = Some (s, rest)) \<and>
     (\<forall>b rest. readBool P (writeBool P b @ rest) = Some (b, rest))"

text \<open>
  Raw buffers, which \<^verbatim>\<open>writeBuffer\<close> and \<^verbatim>\<open>readBuffer\<close> hand to the transport under the
  protocol; a read may give fewer bytes than asked for.
\<close>

record bprotocol = sprotocol +
  writeBuffer :: "u8 list \<Rightarrow> u8 list"
  readBuffer :: "nat \<Rightarrow> u8 list \<Rightarrow> (u8 list \<times> u8 list) option"

definition bprotocol_ok :: "'p bprotocol_scheme \<Rightarrow> bool" where
  "bprotocol_ok P \<longleftrightarrow> sprotocol_ok P \<and>
     (\<forall>buf rest. readBuffer P (length buf) (writeBuffer P buf @ rest) = Some (buf, rest))"

section \<open>Readers\<close>

type_synonym 'a reader = "u8 list \<Rightarrow> ('a \<times> u8 list) res"

definition rd :: "(u8 list \<Rightarrow> ('a \<times> u8 list) option) \<Rightarrow> 'a reader" where
  "rd f bs = (case f bs of None \<Rightarrow> Inl Exn | Some r \<Rightarrow> Inr r)"

definition rbind :: "'a reader \<Rightarrow> ('a \<Rightarrow> 'b reader) \<Rightarrow> 'b reader" where
  "rbind r f bs = bindR (r bs) (\<lambda>(v, rest). f v rest)"

definition rlift :: "'a res \<Rightarrow> 'a reader" where
  "rlift m bs = bindR m (\<lambda>v. Inr (v, bs))"

fun rtimes :: "nat \<Rightarrow> 'a reader \<Rightarrow> 'a list reader" where
  "rtimes 0 r = rlift (Inr [])"
| "rtimes (Suc n) r = rbind r (\<lambda>v. rbind (rtimes n r) (\<lambda>vs. rlift (Inr (v # vs))))"

definition reads :: "'a reader \<Rightarrow> u8 list \<Rightarrow> 'a \<Rightarrow> bool" where
  "reads r bs v \<longleftrightarrow> (\<forall>rest. r (bs @ rest) = Inr (v, rest))"

lemma reads_rlift [reads_intros]: "reads (rlift (Inr v)) [] v"
  by (simp add: reads_def rlift_def)

lemma reads_rbind: "reads r bs v \<Longrightarrow> reads (f v) cs w \<Longrightarrow> reads (rbind r f) (bs @ cs) w"
  by (simp add: reads_def rbind_def)

lemma reads_rbind_rlift: "reads r bs v \<Longrightarrow> reads (rbind r (\<lambda>v. rlift (Inr (g v)))) bs (g v)"
  by (simp add: reads_def rbind_def rlift_def)

lemma reads_protocol [reads_intros]:
  assumes "tprotocol_ok P"
  shows "reads (rd (readByte P)) (writeByte P b) b"
    and "reads (rd (readI16 P)) (writeI16 P h) h"
    and "reads (rd (readI32 P)) (writeI32 P i) i"
    and "reads (rd (readI64 P)) (writeI64 P l) l"
  using assms by (simp_all add: reads_def rd_def tprotocol_ok_def)

lemma reads_sprotocol [reads_intros]:
  assumes "sprotocol_ok P"
  shows "length s < 2 ^ 31 \<Longrightarrow> reads (rd (readString P)) (writeString P s) s"
    and "reads (rd (readBool P)) (writeBool P f) f"
    and "tprotocol_ok P"
  using assms by (simp_all add: reads_def rd_def sprotocol_ok_def)

lemma reads_bprotocol [reads_intros]:
  assumes "bprotocol_ok P"
  shows "length buf = n \<Longrightarrow> reads (rd (readBuffer P n)) (writeBuffer P buf) buf"
    and "sprotocol_ok P"
  using assms by (auto simp: reads_def rd_def bprotocol_ok_def)

text \<open>Reading field by field: one rule per kind of field, and one for a field at the end.\<close>

lemma reads_then:
  assumes "bprotocol_ok P"
  shows "length s < 2 ^ 31 \<Longrightarrow> reads (fs s) cs w \<Longrightarrow> reads (rbind (rd (readString P)) fs) (writeString P s @ cs) w"
    and "reads (fb b) cs w \<Longrightarrow> reads (rbind (rd (readBool P)) fb) (writeBool P b @ cs) w"
    and "reads (fi i) cs w \<Longrightarrow> reads (rbind (rd (readI32 P)) fi) (writeI32 P i @ cs) w"
    and "reads (fl l) cs w \<Longrightarrow> reads (rbind (rd (readI64 P)) fl) (writeI64 P l @ cs) w"
    and "length buf = n \<Longrightarrow> reads (fr buf) cs w \<Longrightarrow> reads (rbind (rd (readBuffer P n)) fr) (writeBuffer P buf @ cs) w"
  using assms reads_bprotocol[of P] reads_sprotocol[of P] reads_protocol[of P] by (auto intro!: reads_rbind)

lemma reads_last:
  assumes "bprotocol_ok P"
  shows "length s < 2 ^ 31 \<Longrightarrow> reads (rbind (rd (readString P)) (\<lambda>s. rlift (Inr (fs s)))) (writeString P s) (fs s)"
    and "reads (rbind (rd (readI64 P)) (\<lambda>l. rlift (Inr (fl l)))) (writeI64 P l) (fl l)"
  using assms reads_bprotocol[of P] reads_sprotocol[of P] reads_protocol[of P] by (auto intro!: reads_rbind_rlift)

lemma reads_rtimes:
  assumes "\<And>v. v \<in> set vs \<Longrightarrow> reads r (w v) v" "n = length vs"
  shows "reads (rtimes n r) (concat (map w vs)) vs"
  using assms
proof (induction vs arbitrary: n)
  case Nil
  then show ?case by (simp add: reads_rlift)
next
  case (Cons v vs)
  have "reads (rbind (rtimes (length vs) r) (\<lambda>vs. rlift (Inr (v # vs)))) (concat (map w vs)) (v # vs)"
    by (rule reads_rbind_rlift) (use Cons in simp)
  then show ?case
    using Cons.prems by (auto intro!: reads_rbind[where v = v])
qed

text \<open>A count followed by that many elements.\<close>

lemma reads_counted:
  assumes "tprotocol_ok P" "\<And>v. v \<in> set vs \<Longrightarrow> reads r (w v) v" "length vs < 2 ^ 32" "g vs = u"
  shows "reads (rbind (rd (readI32 P)) (\<lambda>n. rbind (rtimes (unat n) r) (\<lambda>vs. rlift (Inr (g vs)))))
     (writeI32 P (of_nat (length vs)) @ concat (map w vs)) u"
proof (rule reads_rbind[OF reads_protocol(3)[OF assms(1)]])
  have "unat (of_nat (length vs) :: u32) = length vs"
    using assms(3) by (intro unat_of_nat_lt) simp
  moreover have "reads (rtimes (length vs) r) (concat (map w vs)) vs"
    using assms(2) by (rule reads_rtimes[OF _ refl])
  ultimately show "reads (rbind (rtimes (unat (of_nat (length vs) :: u32)) r) (\<lambda>vs. rlift (Inr (g vs)))) (concat (map w vs)) u"
    using reads_rbind_rlift[where g = g and v = vs] assms(4) by simp
qed

section \<open>Whole objects\<close>

text \<open>
  A failed \<^verbatim>\<open>fds_verify\<close> stops the process and passes through the handlers; every C++
  exception is caught by \<^verbatim>\<open>catch(...)\<close>.
\<close>

definition caught :: "abort \<Rightarrow> bool" where
  "caught e = (case e of OutOfRange \<Rightarrow> True | Throw _ \<Rightarrow> True | Exn \<Rightarrow> True | _ \<Rightarrow> False)"

definition getSerialized :: "u8 list res \<Rightarrow> u8 list \<Rightarrow> (fds_errno \<times> u8 list) res" where
  "getSerialized written serializedData =
     (case written of
        Inr bs \<Rightarrow> (let bytesWritten = (of_nat (length bs) :: u32)
                   in Inr (if bytesWritten = 0 then ERR_NO_BYTES_WRITTEN else ERR_OK,
                           serializedData @ bs))
      | Inl e \<Rightarrow> (if caught e then Inr (ERR_NO_BYTES_WRITTEN, serializedData) else Inl e))"

text \<open>On an error the half-read object is not described.\<close>

definition loadSerialized :: "'a reader \<Rightarrow> u8 list \<Rightarrow> (fds_errno \<times> 'a option) res" where
  "loadSerialized read serializedData =
     (case read serializedData of
        Inr (v, rest) \<Rightarrow>
          (let bytesRead = (of_nat (length serializedData - length rest) :: u32)
           in Inr (if bytesRead = 0 then ERR_NO_BYTES_READ else ERR_OK, Some v))
      | Inl e \<Rightarrow> (if caught e then Inr (ERR_NO_BYTES_READ, None) else Inl e))"

text \<open>
  No serialization failure is ever reported as such: the count is still zero when an
  exception is caught, so the code set in the handler is overwritten.
\<close>

lemma loadSerialized_no_SERIALIZE_FAILED: "loadSerialized r bs \<noteq> Inr (ERR_SERIALIZE_FAILED, v)"
  by (auto simp: loadSerialized_def Let_def split: sum.splits prod.splits if_splits)

lemma loadSerialized_reads:
  assumes "reads r bs v" "0 < length bs" "length bs < 2 ^ 32"
  shows "loadSerialized r bs = Inr (ERR_OK, Some v)"
proof -
  have "r bs = Inr (v, [])"
    using assms(1)[unfolded reads_def, rule_format, of "[]"] by simp
  moreover have "(of_nat (length bs) :: u32) \<noteq> 0"
    using assms(2,3) unat_of_nat_lt[where 'a = 32, of "length bs"] by (auto simp del: of_nat_eq_0_iff)
  ultimately show ?thesis
    by (simp add: loadSerialized_def)
qed

section \<open>A protocol for the witnesses: big-endian fixed-width integers\<close>

definition be_write :: "nat \<Rightarrow> 'a::len word \<Rightarrow> u8 list" where
  "be_write n v = map (\<lambda>i. ucast (drop_bit (8 * i) v)) (rev [0..<n])"

fun be_value :: "u8 list \<Rightarrow> 'a::len word" where
  "be_value [] = 0"
| "be_value (b # bs) = ucast b * 2 ^ (8 * length bs) + be_value bs"

definition be_read :: "nat \<Rightarrow> u8 list \<Rightarrow> ('a::len word \<times> u8 list) option" where
  "be_read n bs = (if n \<le> length bs then Some (be_value (take n bs), drop n bs) else None)"

definition be_protocol :: tprotocol where
  "be_protocol = \<lparr>writeByte = be_write 1, writeI16 = be_write 2, writeI32 = be_write 4,
     writeI64 = be_write 8, readByte = be_read 1, readI16 = be_read 2, readI32 = be_read 4,
     readI64 = be_read 8\<rparr>"

lemma length_be_write [simp]: "length (be_write n v) = n"
  by (simp add: be_write_def)

lemma be_write_Suc: "be_write (Suc n) v = ucast (drop_bit (8 * n) v) # be_write n v"
  by (simp add: be_write_def)

lemma byte_plus_low:
  fixes v :: "'a::len word"
  shows "ucast (ucast (drop_bit m v) :: u8) * 2 ^ m + take_bit m v = take_bit (m + 8) v"
proof -
  have "ucast (ucast (drop_bit m v) :: u8) * 2 ^ m = push_bit m (ucast (ucast (drop_bit m v) :: u8) :: 'a word)"
    by (simp add: push_bit_eq_mult)
  moreover have "push_bit m (ucast (ucast (drop_bit m v) :: u8) :: 'a word) + take_bit m v =
      push_bit m (ucast (ucast (drop_bit m v) :: u8) :: 'a word) OR take_bit m v"
    by (rule disjunctive_add) (auto simp: bit_simps)
  moreover have "push_bit m (ucast (ucast (drop_bit m v) :: u8) :: 'a word) OR take_bit m v = take_bit (m + 8) v"
    by (rule bit_word_eqI) (auto simp: bit_simps)
  ultimately show ?thesis by simp
qed

lemma be_value_write: "be_value (be_write n v) = take_bit (8 * n) v"
proof (induction n)
  case 0
  then show ?case by (simp add: be_write_def)
next
  case (Suc n)
  then show ?case
    using byte_plus_low[of "8 * n" v] by (simp add: be_write_Suc add.commute)
qed

lemma be_read_write:
  fixes v :: "'a::len word"
  assumes "LENGTH('a) = 8 * n"
  shows "be_read n (be_write n v @ rest) = Some (v, rest)"
  using assms be_value_write[of n v] take_bit_length_eq[of v] by (simp add: be_read_def)

lemma be_protocol_ok: "tprotocol_ok be_protocol"
  by (simp add: tprotocol_ok_def be_protocol_def be_read_write)

definition be_sprotocol :: sprotocol where
  "be_sprotocol = tprotocol.extend be_protocol (sprotocol.fields
     (\<lambda>s. be_write 4 (of_nat (length s) :: u32) @ s)
     (\<lambda>b. [if b then 1 else 0])
     (\<lambda>bs. case be_read 4 bs of None \<Rightarrow> None
        | Some (n, rest) \<Rightarrow> if unat (n :: u32) \<le> length rest then Some (take (unat n) rest, drop (unat n) rest) else None)
     (\<lambda>bs. case bs of [] \<Rightarrow> None | b # rest \<Rightarrow> Some (b \<noteq> 0, rest)))"

lemma be_sprotocol_ok: "sprotocol_ok be_sprotocol"
proof -
  have "tprotocol_ok be_sprotocol"
    using be_protocol_ok by (simp add: tprotocol_ok_def be_sprotocol_def tprotocol.defs)
  moreover have "readString be_sprotocol (writeString be_sprotocol s @ rest) = Some (s, rest)" if "length s < 2 ^ 31" for s rest
  proof -
    have "unat (of_nat (length s) :: u32) = length s"
      using that by (intro unat_of_nat_lt) simp
    then show ?thesis
      by (simp add: be_sprotocol_def tprotocol.defs sprotocol.defs be_read_write)
  qed
  ultimately show ?thesis
    by (simp add: sprotocol_ok_def) (simp add: be_sprotocol_def tprotocol.defs sprotocol.defs)
qed

definition be_bprotocol :: bprotocol where
  "be_bprotocol = sprotocol.extend be_sprotocol (bprotocol.fields
     (\<lambda>buf. buf) (\<lambda>n bs. Some (take n bs, drop n bs)))"

lemma be_bprotocol_ok: "bprotocol_ok be_bprotocol"
  using be_sprotocol_ok
  by (simp add: bprotocol_ok_def sprotocol_ok_def tprotocol_ok_def be_bprotocol_def sprotocol.defs bprotocol.defs
      del: split_paired_All)

end
