(* ===== verification/Ordered_Map.thy ===== *)
theory Ordered_Map
  imports Prelude
begin

text \<open>
  \<^verbatim>\<open>std::map\<close> as the sources use it: a sequence of bindings in increasing key order, so
  that iteration visits the keys in that order. \<open>omap_update\<close> is the access through
  \<^verbatim>\<open>operator[]\<close> followed by a change of the value found there (or of a new one). The laws
  clients rely on are collected in the locale \<open>std_map\<close>, where the grouping of a sequence
  of pairs by key (\<^verbatim>\<open>m[k].push_back(v)\<close> in a loop) is analysed once.
\<close>

section \<open>The representation\<close>

type_synonym ('k, 'v) omap = "('k \<times> 'v) list"

fun omap_update :: "'k::linorder \<Rightarrow> ('v option \<Rightarrow> 'v) \<Rightarrow> ('k, 'v) omap \<Rightarrow> ('k, 'v) omap" where
  "omap_update k f [] = [(k, f None)]"
| "omap_update k f ((k', v) # m) =
     (if k < k' then (k, f None) # (k', v) # m
      else if k = k' then (k, f (Some v)) # m
      else (k', v) # omap_update k f m)"

definition omap_put :: "'k::linorder \<Rightarrow> 'v \<Rightarrow> ('k, 'v) omap \<Rightarrow> ('k, 'v) omap" where
  "omap_put k v = omap_update k (\<lambda>_. v)"

text \<open>\<^verbatim>\<open>insert\<close> leaves a key that is already bound alone.\<close>

definition omap_insert :: "'k::linorder \<Rightarrow> 'v \<Rightarrow> ('k, 'v) omap \<Rightarrow> ('k, 'v) omap" where
  "omap_insert k v = omap_update k (\<lambda>old. case old of None \<Rightarrow> v | Some w \<Rightarrow> w)"

definition omap_erase :: "'k \<Rightarrow> ('k, 'v) omap \<Rightarrow> ('k, 'v) omap" where
  "omap_erase k m = filter (\<lambda>b. fst b \<noteq> k) m"

definition omap_push :: "('k::linorder \<times> 'a) \<Rightarrow> ('k, 'a list) omap \<Rightarrow> ('k, 'a list) omap" where
  "omap_push kv m = omap_update (fst kv)
     (\<lambda>old. case old of None \<Rightarrow> [snd kv] | Some vs \<Rightarrow> vs @ [snd kv]) m"

definition omap_ok :: "('k::linorder, 'v) omap \<Rightarrow> bool" where
  "omap_ok m \<longleftrightarrow> sorted_wrt (<) (map fst m)"

lemma omap_ok_Nil [simp]: "omap_ok []"
  by (simp add: omap_ok_def)

lemma omap_ok_Cons: "omap_ok ((k, v) # m) \<longleftrightarrow> (\<forall>k'\<in>fst ` set m. k < k') \<and> omap_ok m"
  by (auto simp: omap_ok_def)

lemma omap_ok_distinct: "omap_ok m \<Longrightarrow> distinct (map fst m)"
  by (simp add: omap_ok_def strict_sorted_iff)

lemma keys_omap_update: "fst ` set (omap_update k f m) = insert k (fst ` set m)"
  by (induction k f m rule: omap_update.induct) (simp_all add: insert_commute)

lemma omap_ok_update: "omap_ok m \<Longrightarrow> omap_ok (omap_update k f m)"
proof (induction k f m rule: omap_update.induct)
  case (2 k f k' v m)
  then show ?case
    by (cases k k' rule: linorder_cases) (auto simp: omap_ok_Cons keys_omap_update dest: less_trans)
qed (simp add: omap_ok_def)

lemma map_of_not_key: "(\<forall>k'\<in>fst ` set m. k < k') \<Longrightarrow> map_of m (k::'k::linorder) = None"
  by (force simp: map_of_eq_None_iff)

lemma map_of_omap_update:
  "omap_ok m \<Longrightarrow> map_of (omap_update k f m) k' = (if k' = k then Some (f (map_of m k)) else map_of m k')"
proof (induction m)
  case Nil
  then show ?case by simp
next
  case (Cons b m)
  obtain k1 v1 where b: "b = (k1, v1)"
    by (cases b)
  have "map_of m k = None" if "k < k1"
    using Cons.prems that by (intro map_of_not_key) (auto simp: b omap_ok_Cons)
  then show ?case
    using Cons by (auto simp: b omap_ok_Cons)
qed

lemma length_omap_update:
  "omap_ok m \<Longrightarrow> length (omap_update k f m) = (if map_of m k = None then Suc (length m) else length m)"
proof (induction k f m rule: omap_update.induct)
  case (2 k f k' v m)
  have "map_of m k = None" if "k < k'"
    using 2(2) that by (intro map_of_not_key) (auto simp: omap_ok_Cons)
  then show ?case
    using 2 by (auto simp: omap_ok_Cons)
qed simp

lemma omap_ok_erase: "omap_ok m \<Longrightarrow> omap_ok (omap_erase k m)"
  by (induction m) (auto simp: omap_ok_Cons omap_erase_def)

lemma map_of_omap_erase: "map_of (omap_erase k m) k' = (if k' = k then None else map_of m k')"
  by (induction m) (auto simp: omap_erase_def)

section \<open>The interface\<close>

locale std_map =
  fixes lookup :: "'m \<Rightarrow> 'k \<Rightarrow> 'v option"
    and update :: "'k \<Rightarrow> ('v option \<Rightarrow> 'v) \<Rightarrow> 'm \<Rightarrow> 'm"
    and invar :: "'m \<Rightarrow> bool"
  assumes invar_update: "invar m \<Longrightarrow> invar (update k f m)"
    and lookup_update:
      "invar m \<Longrightarrow> lookup (update k f m) k' = (if k' = k then Some (f (lookup m k)) else lookup m k')"
begin

text \<open>Accumulating values under their keys: \<open>add\<close> is what one visit does to the old value.\<close>

lemma invar_fold: "invar m \<Longrightarrow> invar (fold (\<lambda>(k, v). update k (add v)) kvs m)"
  by (induction kvs arbitrary: m) (auto simp: invar_update)

lemma lookup_fold:
  "invar m \<Longrightarrow> lookup (fold (\<lambda>(k, v). update k (add v)) kvs m) k =
     fold (\<lambda>v old. Some (add v old)) [snd kv. kv \<leftarrow> kvs, fst kv = k] (lookup m k)"
  by (induction kvs arbitrary: m) (auto simp: invar_update lookup_update)

end

interpretation om: std_map map_of omap_update omap_ok
  by unfold_locales (simp_all add: omap_ok_update map_of_omap_update)

lemma map_of_omap_put: "omap_ok m \<Longrightarrow> map_of (omap_put k v m) k' = (if k' = k then Some v else map_of m k')"
  by (simp add: omap_put_def om.lookup_update)

lemma omap_ok_put: "omap_ok m \<Longrightarrow> omap_ok (omap_put k v m)"
  by (simp add: omap_put_def om.invar_update)

lemma map_of_omap_insert:
  "omap_ok m \<Longrightarrow> map_of (omap_insert k v m) k' = (if k' = k \<and> map_of m k = None then Some v else map_of m k')"
  by (auto simp: omap_insert_def om.lookup_update split: option.splits)

lemma omap_ok_insert: "omap_ok m \<Longrightarrow> omap_ok (omap_insert k v m)"
  by (simp add: omap_insert_def om.invar_update)

text \<open>Putting or inserting a sequence of bindings: the last or the first one of each key stays.\<close>

definition omap_puts :: "('k::linorder \<times> 'v) list \<Rightarrow> ('k, 'v) omap \<Rightarrow> ('k, 'v) omap" where
  "omap_puts kvs m = fold (\<lambda>(k, v). omap_put k v) kvs m"

definition omap_inserts :: "('k::linorder \<times> 'v) list \<Rightarrow> ('k, 'v) omap \<Rightarrow> ('k, 'v) omap" where
  "omap_inserts kvs m = fold (\<lambda>(k, v). omap_insert k v) kvs m"

lemma omap_puts_lookup:
  "omap_ok m \<Longrightarrow> omap_ok (omap_puts kvs m) \<and> map_of (omap_puts kvs m) = map_of m ++ map_of (rev kvs)"
proof (induction kvs arbitrary: m)
  case (Cons kv kvs)
  then show ?case
    using Cons.IH[OF omap_ok_put[OF Cons.prems]]
    by (cases kv) (auto simp: omap_puts_def fun_eq_iff map_of_omap_put map_add_def split: option.splits)
qed (simp add: omap_puts_def)

lemma omap_inserts_lookup:
  "omap_ok m \<Longrightarrow> omap_ok (omap_inserts kvs m) \<and> map_of (omap_inserts kvs m) = map_of kvs ++ map_of m"
proof (induction kvs arbitrary: m)
  case (Cons kv kvs)
  then show ?case
    using Cons.IH[OF omap_ok_insert[OF Cons.prems]]
    by (cases kv) (auto simp: omap_inserts_def fun_eq_iff map_of_omap_insert map_add_def split: option.splits)
qed (simp add: omap_inserts_def)

lemma omap_update_last:
  "(\<forall>k'\<in>fst ` set m. k' < k) \<Longrightarrow> omap_update k f m = m @ [(k, f None)]"
proof (induction m)
  case (Cons b m)
  then show ?case by (cases b) force
qed simp

lemma omap_ok_snoc: "omap_ok (m @ [(k, v)]) \<longleftrightarrow> omap_ok m \<and> (\<forall>k'\<in>fst ` set m. k' < k)"
  by (auto simp: omap_ok_def sorted_wrt_append)

lemma omap_rebuild:
  assumes "omap_ok m"
  shows "omap_puts m [] = m" "omap_inserts m [] = m"
  using assms
proof (induction m rule: rev_induct)
  case (snoc b m)
  {
    case 1
    then show ?case
      using snoc.IH by (cases b) (simp add: omap_puts_def omap_put_def omap_ok_snoc omap_update_last)
  next
    case 2
    then show ?case
      using snoc.IH by (cases b) (simp add: omap_inserts_def omap_insert_def omap_ok_snoc omap_update_last)
  }
qed (simp_all add: omap_puts_def omap_inserts_def)

lemma length_omap_put:
  "omap_ok m \<Longrightarrow> length (omap_put k v m) = (if map_of m k = None then Suc (length m) else length m)"
  by (simp add: omap_put_def length_omap_update)

lemma length_omap_erase: "length (omap_erase k m) \<le> length m"
  by (simp add: omap_erase_def)

section \<open>Grouping by key\<close>

definition omap_group :: "('k::linorder \<times> 'a) list \<Rightarrow> ('k, 'a list) omap" where
  "omap_group kvs = fold omap_push kvs []"

definition values_of :: "'k \<Rightarrow> ('k \<times> 'a) list \<Rightarrow> 'a list" where
  "values_of k kvs = [snd kv. kv \<leftarrow> kvs, fst kv = k]"

lemma values_of_simps [simp]:
  "values_of k [] = []"
  "values_of k (kv # kvs) = (if fst kv = k then snd kv # values_of k kvs else values_of k kvs)"
  "values_of k (xs @ ys) = values_of k xs @ values_of k ys"
  by (simp_all add: values_of_def)

lemma set_values_of: "set (values_of k kvs) = {v. (k, v) \<in> set kvs}"
proof (induction kvs)
  case (Cons kv kvs)
  then show ?case by (cases kv) (auto split: if_splits)
qed simp

lemma omap_push_eq:
  "omap_push = (\<lambda>(k, v). omap_update k ((\<lambda>v old. case old of None \<Rightarrow> [v] | Some vs \<Rightarrow> vs @ [v]) v))"
  by (rule ext)+ (simp add: omap_push_def case_prod_beta)

lemma fold_push_Some:
  "fold (\<lambda>v old. Some (case old of None \<Rightarrow> [v] | Some vs \<Rightarrow> vs @ [v])) us (Some ws) = Some (ws @ us)"
  by (induction us arbitrary: ws) auto

lemma map_of_fold_push:
  "omap_ok m \<Longrightarrow> map_of (fold omap_push kvs m) k =
     (case map_of m k of
        Some ws \<Rightarrow> Some (ws @ values_of k kvs)
      | None \<Rightarrow> (if values_of k kvs = [] then None else Some (values_of k kvs)))"
  unfolding omap_push_eq om.lookup_fold values_of_def[symmetric]
  by (cases "values_of k kvs"; cases "map_of m k") (auto simp: fold_push_Some)

lemma omap_ok_group: "omap_ok (omap_group kvs)"
  unfolding omap_group_def omap_push_eq by (rule om.invar_fold) simp

lemma map_of_group:
  "map_of (omap_group kvs) k = (if values_of k kvs = [] then None else Some (values_of k kvs))"
  by (simp add: omap_group_def map_of_fold_push)

lemma keys_group: "fst ` set (omap_group kvs) = fst ` set kvs"
proof -
  have "k \<in> fst ` set (omap_group kvs) \<longleftrightarrow> values_of k kvs \<noteq> []" for k
    using map_of_group[of kvs k] map_of_eq_None_iff[of "omap_group kvs" k] by auto
  moreover have "values_of k kvs \<noteq> [] \<longleftrightarrow> k \<in> fst ` set kvs" for k
    by (induction kvs) auto
  ultimately show ?thesis by blast
qed

end
