(* ===== verification/Placement_Table.thy ===== *)
theory Placement_Table
  imports Prelude
begin

text \<open>
  The base of the data placement tables: \<^verbatim>\<open>FDS_Table\<close> of \<^verbatim>\<open>include/fds_table.h\<close> (dimensions,
  version, count of outstanding requests and the callback that waits for them) and
  \<^verbatim>\<open>TableColumn\<close> of \<^verbatim>\<open>include/fds_placement_table.h\<close> (the node group of one column). A
  column is the list of its cells; the row counts and indices are natural numbers, with
  the check of the source where it has one.
\<close>

section \<open>The table base class\<close>

text \<open>A callback is known by a number; calling it is recorded in the result of the operation.\<close>

type_synonym callback = nat

record fds_table =
  depth :: nat
  width :: nat
  columns :: nat
  version :: u64
  outstanding_io :: u64
  cb :: "callback option"

definition FDS_Table_init :: "nat \<Rightarrow> nat \<Rightarrow> u64 \<Rightarrow> fds_table" where
  "FDS_Table_init w d v = \<lparr>depth = d, width = w, columns = 2 ^ w, version = v,
                           outstanding_io = 0, cb = None\<rparr>"

definition setCallback :: "callback \<Rightarrow> 'a fds_table_scheme \<Rightarrow> 'a fds_table_scheme \<times> fds_errno" where
  "setCallback c t = (if 0 < outstanding_io t then (t\<lparr>cb := Some c\<rparr>, ERR_IO_PENDING) else (t, ERR_OK))"

definition incRefcnt :: "'a fds_table_scheme \<Rightarrow> 'a fds_table_scheme \<times> u64" where
  "incRefcnt t = (t\<lparr>outstanding_io := outstanding_io t + 1\<rparr>, outstanding_io t + 1)"

definition decRefcnt :: "'a fds_table_scheme \<Rightarrow> 'a fds_table_scheme \<times> u64 \<times> callback list" where
  "decRefcnt t =
     (let ref = outstanding_io t - 1; t' = t\<lparr>outstanding_io := ref\<rparr> in
      case cb t of
        Some c \<Rightarrow> (if ref = 0 then (t'\<lparr>cb := None\<rparr>, ref, [c]) else (t', ref, []))
      | None \<Rightarrow> (t', ref, []))"

text \<open>A run of \<open>n\<close> requests completing, with the callbacks called on the way.\<close>

fun decRefcnt_times :: "nat \<Rightarrow> 'a fds_table_scheme \<Rightarrow> 'a fds_table_scheme \<times> callback list" where
  "decRefcnt_times 0 t = (t, [])"
| "decRefcnt_times (Suc n) t =
     (let (t', _, fired) = decRefcnt t; (t'', fired') = decRefcnt_times n t' in (t'', fired @ fired'))"

section \<open>Columns\<close>

type_synonym NodeUuid = u64
type_synonym TableColumn = "NodeUuid list"

definition TableColumn_init :: "nat \<Rightarrow> TableColumn" where
  "TableColumn_init len = replicate len 0"

definition col_set :: "TableColumn \<Rightarrow> nat \<Rightarrow> NodeUuid \<Rightarrow> TableColumn res" where
  "col_set p index uid = fds_verify (index < length p) (Inr (p[index := uid]))"

definition col_get :: "TableColumn \<Rightarrow> nat \<Rightarrow> NodeUuid res" where
  "col_get p index = fds_verify (index < length p) (Inr (p ! index))"

fun col_eq_from :: "TableColumn \<Rightarrow> TableColumn \<Rightarrow> bool" where
  "col_eq_from (a # p) (b # q) = (if a \<noteq> b then False else col_eq_from p q)"
| "col_eq_from _ _ = True"

definition col_eq :: "TableColumn \<Rightarrow> TableColumn \<Rightarrow> bool" where
  "col_eq p rhs = (if length p \<noteq> length rhs then False else col_eq_from p rhs)"

fun col_find_from :: "nat \<Rightarrow> TableColumn \<Rightarrow> NodeUuid \<Rightarrow> int" where
  "col_find_from i [] uid = -1"
| "col_find_from i (x # p) uid = (if x = uid then int i else col_find_from (Suc i) p uid)"

definition col_find :: "TableColumn \<Rightarrow> NodeUuid \<Rightarrow> int" where
  "col_find p uid = col_find_from 0 p uid"

definition getIntersection :: "TableColumn \<Rightarrow> TableColumn \<Rightarrow> NodeUuid set" where
  "getIntersection p col =
     fold (\<lambda>uuid retSet. if col_find col uuid \<ge> 0 then insert uuid retSet else retSet) p {}"

definition getUuids :: "TableColumn \<Rightarrow> nat \<Rightarrow> NodeUuid set" where
  "getUuids p maxDepth =
     (let d = (if maxDepth > length p then length p else maxDepth)
      in fold (\<lambda>j retSet. insert (p ! j) retSet) [0..<d] {})"

definition getNewAndNewPrimaryUuids :: "TableColumn \<Rightarrow> TableColumn \<Rightarrow> nat \<Rightarrow> NodeUuid set" where
  "getNewAndNewPrimaryUuids p oldColumn numPrimRows =
     fold (\<lambda>j retSet.
             let uuid = p ! j; index = col_find oldColumn uuid
             in if index < 0 \<or> (j < numPrimRows \<and> index \<ge> int numPrimRows)
                then insert uuid retSet else retSet)
       [0..<length p] {}"

section \<open>Lemmas\<close>

lemma col_get_in [simp]: "i < length p \<Longrightarrow> col_get p i = Inr (p ! i)"
  by (simp add: col_get_def)

lemma col_get_eq_Inr [res_simps]: "col_get p i = Inr x \<longleftrightarrow> i < length p \<and> x = p ! i"
  by (auto simp: col_get_def res_simps)

lemma col_set_in [simp]: "i < length p \<Longrightarrow> col_set p i x = Inr (p[i := x])"
  by (simp add: col_set_def)

lemma col_set_eq_Inr [res_simps]: "col_set p i x = Inr q \<longleftrightarrow> i < length p \<and> q = p[i := x]"
  by (auto simp: col_set_def res_simps)

lemma col_eq_iff [simp]: "col_eq p q \<longleftrightarrow> p = q"
proof -
  have "length p = length q \<Longrightarrow> col_eq_from p q \<longleftrightarrow> p = q"
    by (induction p q rule: col_eq_from.induct) auto
  then show ?thesis by (auto simp: col_eq_def)
qed

lemma col_find_from_cases:
  "(uid \<notin> set p \<and> col_find_from i p uid = -1) \<or>
   (\<exists>k < length p. col_find_from i p uid = int (i + k) \<and> p ! k = uid \<and> uid \<notin> set (take k p))"
proof (induction p arbitrary: i)
  case Nil
  then show ?case by simp
next
  case (Cons x p)
  show ?case
  proof (cases "x = uid")
    case True
    then show ?thesis by (intro disjI2 exI[of _ 0]) simp
  next
    case False
    from Cons[of "Suc i"] show ?thesis
    proof
      assume "uid \<notin> set p \<and> col_find_from (Suc i) p uid = -1"
      with False show ?thesis by simp
    next
      assume "\<exists>k<length p. col_find_from (Suc i) p uid = int (Suc i + k) \<and> p ! k = uid \<and> uid \<notin> set (take k p)"
      then obtain k where "k < length p" "col_find_from (Suc i) p uid = int (Suc i + k)" "p ! k = uid"
        "uid \<notin> set (take k p)" by blast
      with False show ?thesis by (intro disjI2 exI[of _ "Suc k"]) auto
    qed
  qed
qed

lemma col_find_cases:
  obtains (absent) "uid \<notin> set p" "col_find p uid = -1"
  | (found) k where "k < length p" "col_find p uid = int k" "p ! k = uid" "uid \<notin> set (take k p)"
  using col_find_from_cases[of uid p 0] by (auto simp: col_find_def)

lemma col_find_nonneg [simp]: "0 \<le> col_find p uid \<longleftrightarrow> uid \<in> set p"
  by (rule col_find_cases[of uid p]) auto

lemma col_find_neg [simp]: "col_find p uid < 0 \<longleftrightarrow> uid \<notin> set p"
  using col_find_nonneg[of p uid] by linarith

lemma col_find_ge: "0 < n \<Longrightarrow> int n \<le> col_find p uid \<longleftrightarrow> uid \<in> set p \<and> uid \<notin> set (take n p)"
proof (rule col_find_cases[of uid p])
  assume "0 < n" "uid \<notin> set p" "col_find p uid = -1"
  then show ?thesis by simp
next
  fix k
  assume k: "k < length p" "col_find p uid = int k" "p ! k = uid" "uid \<notin> set (take k p)"
  have "uid \<in> set (take n p)" if "k < n"
    using k that by (metis in_set_conv_nth length_take min_less_iff_conj nth_take)
  moreover have "uid \<notin> set (take n p)" if "n \<le> k"
    using k(4) set_take_subset_set_take[OF that, of p] by blast
  ultimately show ?thesis
    using k nth_mem[OF k(1)] by (cases "k < n") simp_all
qed

lemma fold_insert_if:
  "fold (\<lambda>j s. if P j then insert (f j) s else s) js s0 = s0 \<union> f ` {j \<in> set js. P j}"
  by (induction js arbitrary: s0) auto

lemma nth_image:
  "(!) p ` {j. j < length p \<and> Q (p ! j)} = {x \<in> set p. Q x}"
  "(!) p ` {j. j < length p \<and> j < n \<and> Q (p ! j)} = {x \<in> set (take n p). Q x}"
proof -
  show *: "(!) p ` {j. j < length p \<and> Q (p ! j)} = {x \<in> set p. Q x}" for p
    by (auto simp: in_set_conv_nth)
  have "{j. j < length (take n p) \<and> Q (take n p ! j)} = {j. j < length p \<and> j < n \<and> Q (p ! j)}"
    by auto
  moreover have "(!) p ` {j. j < length p \<and> j < n \<and> Q (p ! j)} =
      (!) (take n p) ` {j. j < length p \<and> j < n \<and> Q (p ! j)}"
    by (rule image_cong) auto
  ultimately show "(!) p ` {j. j < length p \<and> j < n \<and> Q (p ! j)} = {x \<in> set (take n p). Q x}"
    using *[of "take n p"] by simp
qed

lemma set_getIntersection: "getIntersection p col = set p \<inter> set col"
  using fold_insert_if[of "\<lambda>u. col_find col u \<ge> 0" "\<lambda>u. u" p "{}"] by (auto simp: getIntersection_def)

lemma set_getUuids: "getUuids p n = set (take n p)"
proof -
  have "fold (\<lambda>j s. insert (p ! j) s) [0..<d] {} = (!) p ` {j. j < d}" for d
    using fold_insert_if[of "\<lambda>_. True" "(!) p" "[0..<d]" "{}"] by (simp add: conj_commute)
  then have "getUuids p n = (!) p ` {j. j < length p \<and> j < n \<and> True}"
    by (auto simp: getUuids_def Let_def intro!: arg_cong[of _ _ "(`) ((!) p)"])
  then show ?thesis
    using nth_image(2)[of p n "\<lambda>_. True"] by simp
qed

lemma set_getNewAndNewPrimaryUuids:
  "getNewAndNewPrimaryUuids p old n =
     (set p - set old) \<union> (set (take n p) \<inter> (set old - set (take n old)))"
proof -
  let ?P = "\<lambda>j. col_find old (p ! j) < 0 \<or> (j < n \<and> col_find old (p ! j) \<ge> int n)"
  have "getNewAndNewPrimaryUuids p old n = (!) p ` {j \<in> set [0..<length p]. ?P j}"
    using fold_insert_if[of ?P "(!) p" "[0..<length p]" "{}"]
    by (simp add: getNewAndNewPrimaryUuids_def Let_def)
  also have "{j \<in> set [0..<length p]. ?P j} = {j. j < length p \<and> p ! j \<notin> set old}
      \<union> {j. j < length p \<and> j < n \<and> (p ! j \<in> set old \<and> p ! j \<notin> set (take n old))}"
    by (cases "n = 0") (auto simp: col_find_ge)
  also have "(!) p ` \<dots> = (set p - set old) \<union> (set (take n p) \<inter> (set old - set (take n old)))"
    unfolding image_Un nth_image(1)[of p "\<lambda>x. x \<notin> set old"]
      nth_image(2)[of p n "\<lambda>x. x \<in> set old \<and> x \<notin> set (take n old)"]
    by blast
  finally show ?thesis .
qed

section \<open>Draining a table\<close>

lemma decRefcnt_step:
  assumes "outstanding_io t = of_nat (Suc n)" "Suc n < 2 ^ 64"
  shows "decRefcnt t =
     (case cb t of
        Some c \<Rightarrow> (if n = 0 then (t\<lparr>outstanding_io := 0, cb := None\<rparr>, 0, [c])
                   else (t\<lparr>outstanding_io := of_nat n\<rparr>, of_nat n, []))
      | None \<Rightarrow> (t\<lparr>outstanding_io := of_nat n\<rparr>, of_nat n, []))"
proof -
  have "(of_nat n :: u64) = 0 \<longleftrightarrow> n = 0"
    using assms(2) unat_of_nat_lt[where 'a = 64, of n] by (auto simp del: of_nat_eq_0_iff)
  then show ?thesis
    using assms(1) by (auto simp: decRefcnt_def Let_def split: option.splits)
qed

lemma drain_before:
  "outstanding_io t = of_nat n \<Longrightarrow> n < 2 ^ 64 \<Longrightarrow> k < n \<Longrightarrow>
   decRefcnt_times k t = (t\<lparr>outstanding_io := of_nat (n - k)\<rparr>, [])"
proof (induction k arbitrary: n t)
  case (Suc k)
  then obtain m where m: "n = Suc m" by (cases n) auto
  show ?case
    using Suc.prems Suc.IH[of "t\<lparr>outstanding_io := of_nat m\<rparr>" m] decRefcnt_step[of t m]
    by (auto simp: m split: option.splits)
qed simp

lemma decRefcnt_times_add:
  "decRefcnt_times (j + k) t =
     (let (t1, f1) = decRefcnt_times j t; (t2, f2) = decRefcnt_times k t1 in (t2, f1 @ f2))"
  by (induction j arbitrary: t) (simp_all add: Let_def case_prod_beta)

lemma drain_last:
  assumes "outstanding_io t = of_nat n" "n < 2 ^ 64" "0 < n" "cb t = Some c"
  shows "decRefcnt_times n t = (t\<lparr>outstanding_io := 0, cb := None\<rparr>, [c])"
proof -
  obtain m where m: "n = Suc m"
    using assms(3) by (cases n) auto
  have "decRefcnt_times m t = (t\<lparr>outstanding_io := of_nat (Suc 0)\<rparr>, [])"
    using drain_before[OF assms(1,2), of m] by (simp add: m)
  moreover have "decRefcnt (t\<lparr>outstanding_io := of_nat (Suc 0)\<rparr>) =
      (t\<lparr>outstanding_io := 0, cb := None\<rparr>, 0, [c])"
    using decRefcnt_step[of "t\<lparr>outstanding_io := of_nat (Suc 0)\<rparr>" 0] assms(4) by simp
  ultimately show ?thesis
    using decRefcnt_times_add[of m 1 t] by (simp add: m)
qed

section \<open>Tables as an interface\<close>

text \<open>
  What both placement tables offer their builders: a grid of cells that can be read and
  written one at a time. Writing a sequence of cells gives a table that holds, in every
  cell, the last value written there.
\<close>

locale cell_table =
  fixes rows :: "'t \<Rightarrow> nat"
    and cols :: "'t \<Rightarrow> nat"
    and get :: "'t \<Rightarrow> nat \<Rightarrow> nat \<Rightarrow> NodeUuid res"
    and put :: "'t \<Rightarrow> nat \<Rightarrow> nat \<Rightarrow> NodeUuid \<Rightarrow> 't res"
    and invar :: "'t \<Rightarrow> bool"
  assumes put_in: "invar t \<Longrightarrow> c < cols t \<Longrightarrow> r < rows t \<Longrightarrow>
      \<exists>t'. put t c r u = Inr t' \<and> invar t' \<and> rows t' = rows t \<and> cols t' = cols t"
    and get_put: "invar t \<Longrightarrow> put t c r u = Inr t' \<Longrightarrow>
      get t' c' r' = (if c' = c \<and> r' = r then Inr u else get t c' r')"
begin

fun put_all :: "'t \<Rightarrow> (nat \<times> nat \<times> NodeUuid) list \<Rightarrow> 't res" where
  "put_all t [] = Inr t"
| "put_all t ((c, r, u) # cells) = bindR (put t c r u) (\<lambda>t'. put_all t' cells)"

lemma put_all_in:
  "invar t \<Longrightarrow> (\<forall>(c, r, u)\<in>set cells. c < cols t \<and> r < rows t) \<Longrightarrow>
   \<exists>t'. put_all t cells = Inr t' \<and> invar t' \<and> rows t' = rows t \<and> cols t' = cols t
     \<and> (\<forall>c r. get t' c r =
           (case find (\<lambda>(c', r', u). c' = c \<and> r' = r) (rev cells) of
              Some (_, _, u) \<Rightarrow> Inr u | None \<Rightarrow> get t c r))"
proof (induction cells arbitrary: t)
  case Nil
  then show ?case by simp
next
  case (Cons cell cells)
  obtain c r u where cell: "cell = (c, r, u)"
    by (metis prod_cases3)
  obtain t1 where t1: "put t c r u = Inr t1" "invar t1" "rows t1 = rows t" "cols t1 = cols t"
    using put_in[OF Cons.prems(1), of c r u] Cons.prems(2) by (auto simp: cell)
  obtain t' where t': "put_all t1 cells = Inr t'" "invar t'" "rows t' = rows t" "cols t' = cols t"
    and reads: "\<And>c r. get t' c r =
           (case find (\<lambda>(c', r', u). c' = c \<and> r' = r) (rev cells) of
              Some (_, _, u) \<Rightarrow> Inr u | None \<Rightarrow> get t1 c r)"
    using Cons.IH[OF t1(2)] Cons.prems(2) t1(3,4) by auto
  have "get t' c1 r1 =
      (case find (\<lambda>(c', r', u). c' = c1 \<and> r' = r1) (rev cells @ [cell]) of
         Some (_, _, u) \<Rightarrow> Inr u | None \<Rightarrow> get t c1 r1)" for c1 r1
    using reads[of c1 r1] get_put[OF Cons.prems(1) t1(1), of c1 r1]
    by (auto simp: cell find_append split: option.splits)
  then show ?case
    using t' by (simp add: cell t1(1))
qed

end

section \<open>Properties\<close>

text \<open>
  C21. The callback registered on a busy table is called exactly once, by the request that
  completes last: with \<open>n\<close> requests outstanding and none starting, no earlier completion
  calls anything, and the \<open>n\<close>-th calls the callback and clears it. Registering on an idle
  table reports success and registers nothing.
\<close>

theorem callback_on_last_completion:
  fixes t :: "'a fds_table_scheme"
  assumes "unat (outstanding_io t) = n" "setCallback c t = (t', err)"
  shows "(n = 0 \<longrightarrow> err = ERR_OK \<and> t' = t)
     \<and> (0 < n \<longrightarrow> err = ERR_IO_PENDING
          \<and> (\<forall>k<n. snd (decRefcnt_times k t') = [])
          \<and> decRefcnt_times n t' = (t'\<lparr>outstanding_io := 0, cb := None\<rparr>, [c]))"
proof (cases "n = 0")
  case True
  then have "outstanding_io t = 0"
    using assms(1) by (simp add: unat_eq_0)
  then show ?thesis
    using True assms(2) by (simp add: setCallback_def)
next
  case False
  then have pos: "0 < outstanding_io t" and lt: "n < 2 ^ 64"
    using assms(1) unsigned_less[of "outstanding_io t"] by (auto simp: word_gt_0)
  then have t': "t' = t\<lparr>cb := Some c\<rparr>" "err = ERR_IO_PENDING"
    using assms(2) by (auto simp: setCallback_def)
  have out: "outstanding_io t' = of_nat n"
    using assms(1) by (auto simp: t'(1))
  show ?thesis
    using False drain_before[OF out lt] drain_last[OF out lt] t' by simp
qed

theorem callback_on_last_completion_witness:
  "decRefcnt_times 2 ((FDS_Table_init 3 2 1)\<lparr>outstanding_io := 2, cb := Some 5\<rparr>)
     = ((FDS_Table_init 3 2 1)\<lparr>outstanding_io := 0, cb := None\<rparr>, [5])"
  using callback_on_last_completion[of "(FDS_Table_init 3 2 1)\<lparr>outstanding_io := 2\<rparr>" 2 5
      "(FDS_Table_init 3 2 1)\<lparr>outstanding_io := 2, cb := Some 5\<rparr>" ERR_IO_PENDING]
  by (simp add: setCallback_def)

text \<open>
  C26. \<^verbatim>\<open>getNewAndNewPrimaryUuids\<close> returns exactly the nodes that have to synchronise when
  a column replaces an old one: those that are not in the old column, and those that are in
  its secondary rows only and now stand in a primary row.
\<close>

theorem new_primaries_exact:
  "getNewAndNewPrimaryUuids p old n =
     {u \<in> set p. u \<notin> set old \<or> (u \<in> set (take n p) \<and> u \<notin> set (take n old))}"
  using set_getNewAndNewPrimaryUuids[of p old n] set_take_subset[of n p] by auto

theorem new_primaries_exact_witness:
  "1 \<in> getNewAndNewPrimaryUuids [1, 2, 3] [3, 1, 4] 1 \<and> 3 \<notin> getNewAndNewPrimaryUuids [1, 2, 3] [3, 1, 4] 1"
  unfolding new_primaries_exact[of "[1, 2, 3]" "[3, 1, 4]" 1] by simp

end
