(* ===== verification/Dlt.thy ===== *)
theory Dlt
  imports Object_Id Svc_State Ordered_Map Serialize Placement_Table
begin

text \<open>
  The data lookup table: \<^verbatim>\<open>DLT\<close> and \<^verbatim>\<open>DLTDiff\<close> of \<^verbatim>\<open>lib/misc/dlt.cpp\<close> and \<^verbatim>\<open>include/dlt.h\<close>.
  The table maps each token to the group of storage managers that hold its objects. The
  columns are the contents of the shared token groups; \<open>mapNodeTokens\<close> is the cached
  reverse map and \<open>mapInitialized\<close> the flag of \<^verbatim>\<open>std::call_once\<close>.
\<close>

section \<open>The table\<close>

record DLT = fds_table +
  distList :: "TableColumn list"
  mapNodeTokens :: "(NodeUuid, nat list) omap"
  mapInitialized :: bool
  timestamp :: u64
  closed :: bool

definition INVALID_RESOURCE_UUID :: NodeUuid where
  "INVALID_RESOURCE_UUID = 0"

text \<open>\<open>now\<close> is the clock that the constructor reads.\<close>

definition DLT_init :: "nat \<Rightarrow> nat \<Rightarrow> u64 \<Rightarrow> bool \<Rightarrow> u64 \<Rightarrow> DLT" where
  "DLT_init w d v fInit now =
     \<lparr>depth = d, width = w, columns = 2 ^ w, version = v, outstanding_io = 0, cb = None,
      distList = (if fInit then replicate (2 ^ w) (TableColumn_init d) else []),
      mapNodeTokens = [], mapInitialized = False, timestamp = now, closed = False\<rparr>"

text \<open>The copy constructor; the count of outstanding requests and the callback start afresh.\<close>

definition DLT_copy :: "DLT \<Rightarrow> DLT" where
  "DLT_copy dlt =
     \<lparr>depth = depth dlt, width = width dlt, columns = 2 ^ width dlt, version = version dlt,
      outstanding_io = 0, cb = None, distList = distList dlt, mapNodeTokens = mapNodeTokens dlt,
      mapInitialized = False, timestamp = timestamp dlt, closed = False\<rparr>"

definition DLT_clone :: "DLT \<Rightarrow> DLT res" where
  "DLT_clone dlt =
     foldR (\<lambda>(i, j) p.
         bindR (vec_at (distList dlt) i) (\<lambda>src. bindR (col_get src j) (\<lambda>u.
         bindR (vec_at (distList p) i) (\<lambda>dst. bindR (col_set dst j u) (\<lambda>dst'.
         Inr (p\<lparr>distList := (distList p)[i := dst']\<rparr>))))))
       (List.product [0..<columns dlt] [0..<depth dlt])
       ((DLT_init (width dlt) (depth dlt) (version dlt) True 0)\<lparr>timestamp := timestamp dlt\<rparr>)"

definition DLT_getToken :: "DLT \<Rightarrow> ObjectID \<Rightarrow> nat res" where
  "DLT_getToken dlt objId = getToken objId (width dlt)"

definition DLT_getNodes :: "DLT \<Rightarrow> nat \<Rightarrow> TableColumn res" where
  "DLT_getNodes dlt token = fds_verify (token < columns dlt) (vec_at (distList dlt) token)"

definition DLT_getNodes_obj :: "DLT \<Rightarrow> ObjectID \<Rightarrow> TableColumn res" where
  "DLT_getNodes_obj dlt objId =
     bindR (DLT_getToken dlt objId) (\<lambda>token. fds_verify (token < columns dlt) (vec_at (distList dlt) token))"

definition DLT_getPrimary :: "DLT \<Rightarrow> nat \<Rightarrow> NodeUuid res" where
  "DLT_getPrimary dlt token =
     fds_verify (token < columns dlt) (bindR (DLT_getNodes dlt token) (\<lambda>g. col_get g 0))"

definition DLT_getPrimary_obj :: "DLT \<Rightarrow> ObjectID \<Rightarrow> NodeUuid res" where
  "DLT_getPrimary_obj dlt objId = bindR (DLT_getNodes_obj dlt objId) (\<lambda>g. col_get g 0)"

definition DLT_getNode :: "DLT \<Rightarrow> nat \<Rightarrow> nat \<Rightarrow> NodeUuid res" where
  "DLT_getNode dlt token index =
     fds_verify (token < columns dlt) (bindR (DLT_getNodes dlt token) (\<lambda>g. col_get g index))"

definition DLT_getNode_obj :: "DLT \<Rightarrow> ObjectID \<Rightarrow> nat \<Rightarrow> NodeUuid res" where
  "DLT_getNode_obj dlt objId index = bindR (DLT_getNodes_obj dlt objId) (\<lambda>g. col_get g index)"

definition DLT_getIndex :: "DLT \<Rightarrow> nat \<Rightarrow> NodeUuid \<Rightarrow> int res" where
  "DLT_getIndex dlt token nodeUuid = bindR (DLT_getNodes dlt token) (\<lambda>g. Inr (col_find g nodeUuid))"

definition DLT_setNode :: "DLT \<Rightarrow> nat \<Rightarrow> nat \<Rightarrow> NodeUuid \<Rightarrow> DLT res" where
  "DLT_setNode dlt token index nodeuuid =
     fds_verify (index < depth dlt) (fds_verify (token < columns dlt)
       (bindR (vec_at (distList dlt) token) (\<lambda>g.
        bindR (col_set g index nodeuuid) (\<lambda>g'.
        Inr (dlt\<lparr>distList := (distList dlt)[token := g']\<rparr>)))))"

definition DLT_setNodes :: "DLT \<Rightarrow> nat \<Rightarrow> TableColumn \<Rightarrow> DLT res" where
  "DLT_setNodes dlt token nodes =
     fds_verify (length nodes = depth dlt)
       (foldR (\<lambda>i d.
           bindR (vec_at (distList d) token) (\<lambda>g. bindR (col_get nodes i) (\<lambda>u.
           bindR (col_set g i u) (\<lambda>g'. Inr (d\<lparr>distList := (distList d)[token := g']\<rparr>)))))
         [0..<depth dlt] dlt)"

definition DLT_setClosed :: "DLT \<Rightarrow> DLT" where
  "DLT_setClosed dlt = dlt\<lparr>closed := True\<rparr>"

section \<open>The reverse map\<close>

definition generateNodeTokenMap :: "DLT \<Rightarrow> DLT res" where
  "generateNodeTokenMap dlt =
     bindR (foldR (\<lambda>(token, nodeList).
              foldR (\<lambda>i m. bindR (col_get nodeList i) (\<lambda>u. Inr (omap_push (u, token) m)))
                [0..<depth dlt])
            (zip [0..<length (distList dlt)] (distList dlt)) [])
       (\<lambda>m. Inr (dlt\<lparr>mapNodeTokens := m\<rparr>))"

definition DLT_getTokens :: "DLT \<Rightarrow> NodeUuid \<Rightarrow> nat list" where
  "DLT_getTokens dlt uid = (case map_of (mapNodeTokens dlt) uid of Some tlist \<Rightarrow> tlist | None \<Rightarrow> [])"

definition DLT_getTokens_index :: "DLT \<Rightarrow> NodeUuid \<Rightarrow> nat \<Rightarrow> nat list res" where
  "DLT_getTokens_index dlt uid index =
     (case map_of (mapNodeTokens dlt) uid of
        Some tlist \<Rightarrow>
          foldR (\<lambda>token tokenList.
              bindR (vec_at (distList dlt) token) (\<lambda>g. bindR (col_get g index) (\<lambda>curNode.
              Inr (if curNode = uid then tokenList @ [token] else tokenList))))
            tlist []
      | None \<Rightarrow> Inr [])"

definition DLT_getAllNodes :: "DLT \<Rightarrow> NodeUuid list" where
  "DLT_getAllNodes dlt = map fst (mapNodeTokens dlt)"

definition token_diff :: "NodeUuid \<Rightarrow> DLT \<Rightarrow> DLT option \<Rightarrow> nat set" where
  "token_diff uid new_dlt old_dlt =
     (case old_dlt of
        None \<Rightarrow> set (DLT_getTokens new_dlt uid)
      | Some old \<Rightarrow> set (DLT_getTokens new_dlt uid) - set (DLT_getTokens old uid))"

section \<open>Sources for token migration\<close>

definition getSourceNodeForToken :: "DLT \<Rightarrow> NodeUuid \<Rightarrow> nat \<Rightarrow> NodeUuid res" where
  "getSourceNodeForToken dlt destNodeUuid tokenId =
     bindR (DLT_getNodes dlt tokenId) (\<lambda>tokenNodeGroup.
       Inr (case find (\<lambda>u. destNodeUuid \<noteq> u) tokenNodeGroup of
              Some u \<Rightarrow> u | None \<Rightarrow> INVALID_RESOURCE_UUID))"

definition getSourceForAllNodeTokens ::
  "DLT \<Rightarrow> NodeUuid \<Rightarrow> (NodeUuid, nat list) omap \<Rightarrow> (NodeUuid, nat list) omap res" where
  "getSourceForAllNodeTokens dlt nodeUuid srcNodeTokenMap =
     (if nodeUuid = INVALID_RESOURCE_UUID then Inr srcNodeTokenMap
      else foldR (\<lambda>token m. bindR (getSourceNodeForToken dlt nodeUuid token)
                    (\<lambda>src. Inr (omap_push (src, token) m)))
             (DLT_getTokens dlt nodeUuid) srcNodeTokenMap)"

text \<open>
  The inner loop of \<^verbatim>\<open>getNewSourceSMs\<close>: \<open>None\<close> is a loop that does not end. The indices are
  unsigned bytes, as in the source.
\<close>

partial_function (option) newSource ::
  "DLT \<Rightarrow> nat \<Rightarrow> u8 \<Rightarrow> NodeUuid \<Rightarrow> u8 \<Rightarrow> NodeUuid res option" where
  "newSource dlt token curSrcIdx curDestSM newSrcIdx =
     (case DLT_getNode dlt token (unat newSrcIdx) of
        Inl e \<Rightarrow> Some (Inl e)
      | Inr newSrcSmId \<Rightarrow>
          (if newSrcIdx \<noteq> curSrcIdx \<and> newSrcSmId \<noteq> curDestSM then Some (Inr newSrcSmId)
           else newSource dlt token curSrcIdx curDestSM (of_nat (unat (newSrcIdx + 1) mod depth dlt))))"

declare newSource.simps [code]

definition newSourceForToken :: "DLT \<Rightarrow> NodeUuid \<Rightarrow> u8 \<Rightarrow> NodeUuid \<Rightarrow> nat \<Rightarrow> NodeUuid res option" where
  "newSourceForToken dlt curSrcSM retryCount curDestSM token =
     (case DLT_getIndex dlt token curSrcSM of
        Inl e \<Rightarrow> Some (Inl e)
      | Inr index \<Rightarrow>
          (let curSrcIdx = (of_int index :: u8) in
           if depth dlt = 0 then Some (Inl Undefined)
           else newSource dlt token curSrcIdx curDestSM
                  (of_nat ((unat curSrcIdx + unat retryCount) mod depth dlt))))"

text \<open>The tokens are visited in the order of the set they come in.\<close>

fun getNewSourceSMs ::
  "DLT \<Rightarrow> NodeUuid \<Rightarrow> u8 \<Rightarrow> NodeUuid \<Rightarrow> nat list \<Rightarrow> (NodeUuid, nat list) omap \<Rightarrow>
   (NodeUuid, nat list) omap res option" where
  "getNewSourceSMs dlt curSrcSM retryCount curDestSM [] newTokenGroups = Some (Inr newTokenGroups)"
| "getNewSourceSMs dlt curSrcSM retryCount curDestSM (token # tokens) newTokenGroups =
     (case newSourceForToken dlt curSrcSM retryCount curDestSM token of
        None \<Rightarrow> None
      | Some (Inl e) \<Rightarrow> Some (Inl e)
      | Some (Inr src) \<Rightarrow>
          getNewSourceSMs dlt curSrcSM retryCount curDestSM tokens (omap_push (src, token) newTokenGroups))"

section \<open>Comparing and checking tables\<close>

fun DLT_eq_from :: "DLT \<Rightarrow> DLT \<Rightarrow> nat list \<Rightarrow> bool res" where
  "DLT_eq_from dlt rhs [] = Inr True"
| "DLT_eq_from dlt rhs (i # is) =
     bindR (DLT_getNodes dlt i) (\<lambda>myCol. bindR (DLT_getNodes rhs i) (\<lambda>col.
       if \<not> col_eq myCol col then Inr False else DLT_eq_from dlt rhs is))"

definition DLT_eq :: "DLT \<Rightarrow> DLT \<Rightarrow> bool res" where
  "DLT_eq dlt rhs =
     (if depth dlt \<noteq> depth rhs \<or> columns dlt \<noteq> columns rhs then Inr False
      else DLT_eq_from dlt rhs [0..<columns dlt])"

text \<open>The rows of a column: an unexpected node ends the check, otherwise the set of nodes seen.\<close>

fun DLT_verify_rows ::
  "om_ext \<Rightarrow> NodeUuid set \<Rightarrow> TableColumn \<Rightarrow> nat list \<Rightarrow> NodeUuid set \<Rightarrow> (fds_errno + NodeUuid set) res" where
  "DLT_verify_rows ext expectedUuidSet column [] colSet = Inr (Inr colSet)"
| "DLT_verify_rows ext expectedUuidSet column (j # js) colSet =
     bindR (col_get column j) (\<lambda>uuid.
       if (uuid = 0 \<or> uuid \<notin> expectedUuidSet) \<and> \<not> isMarkedForRemoval ext uuid
       then Inr (Inl ERR_INVALID_DLT)
       else DLT_verify_rows ext expectedUuidSet column js (insert uuid colSet))"

fun DLT_verify_cols :: "om_ext \<Rightarrow> NodeUuid set \<Rightarrow> DLT \<Rightarrow> nat list \<Rightarrow> fds_errno res" where
  "DLT_verify_cols ext expectedUuidSet dlt [] = Inr ERR_OK"
| "DLT_verify_cols ext expectedUuidSet dlt (i # is) =
     bindR (DLT_getNodes dlt i) (\<lambda>column.
     bindR (DLT_verify_rows ext expectedUuidSet column [0..<depth dlt] {}) (\<lambda>r.
       case r of
         Inl err \<Rightarrow> Inr err
       | Inr colSet \<Rightarrow>
           (if card colSet < depth dlt then Inr ERR_INVALID_DLT
            else DLT_verify_cols ext expectedUuidSet dlt is)))"

definition DLT_verify :: "om_ext \<Rightarrow> DLT \<Rightarrow> NodeUuid set \<Rightarrow> fds_errno res" where
  "DLT_verify ext dlt expectedUuidSet =
     (if depth dlt > card expectedUuidSet + getPendingNodeRemoves ext FDSP_STOR_MGR
      then Inr ERR_INVALID_DLT
      else DLT_verify_cols ext expectedUuidSet dlt [0..<columns dlt])"

section \<open>Serialization\<close>

definition DLT_once :: "DLT \<Rightarrow> DLT res" where
  "DLT_once dlt =
     (if mapInitialized dlt then Inr dlt
      else if mapNodeTokens dlt = []
        then bindR (generateNodeTokenMap dlt) (\<lambda>d. Inr (d\<lparr>mapInitialized := True\<rparr>))
      else Inr (dlt\<lparr>mapInitialized := True\<rparr>))"

definition lookupid :: "NodeUuid list \<Rightarrow> NodeUuid \<Rightarrow> nat" where
  "lookupid uuidList uuid =
     (case map_of (zip uuidList [0..<length uuidList]) uuid of Some i \<Rightarrow> i | None \<Rightarrow> 0)"

definition DLT_write_cells :: "tprotocol \<Rightarrow> NodeUuid list \<Rightarrow> DLT \<Rightarrow> u8 list res" where
  "DLT_write_cells P uuidList dlt =
     (let fByte = (length uuidList \<le> 256) in
      foldR (\<lambda>nodeList.
          foldR (\<lambda>i b. bindR (col_get nodeList i) (\<lambda>uuid.
              let id = lookupid uuidList uuid
              in Inr (b @ (if fByte then writeByte P (of_nat id) else writeI16 P (of_nat id)))))
            [0..<depth dlt])
        (distList dlt) [])"

definition DLT_write :: "tprotocol \<Rightarrow> DLT \<Rightarrow> (u8 list \<times> DLT) res" where
  "DLT_write P dlt0 =
     bindR (DLT_once dlt0) (\<lambda>dlt.
       let uuidList = map fst (mapNodeTokens dlt);
           head = writeI64 P (version dlt) @ writeI64 P (timestamp dlt)
                  @ writeI32 P (of_nat (width dlt)) @ writeI32 P (of_nat (depth dlt))
                  @ writeI32 P (of_nat (columns dlt));
           nodes = writeI32 P (of_nat (length uuidList)) @ concat (map (writeI64 P) uuidList)
       in bindR (DLT_write_cells P uuidList dlt) (\<lambda>cells. Inr (head @ nodes @ cells, dlt)))"

definition DLT_read_cell :: "tprotocol \<Rightarrow> NodeUuid list \<Rightarrow> bool \<Rightarrow> NodeUuid reader" where
  "DLT_read_cell P uuidList fByte =
     (if fByte then rbind (rd (readByte P)) (\<lambda>i8. rlift (vec_at uuidList (unat i8)))
      else rbind (rd (readI16 P)) (\<lambda>i16. rlift (vec_at uuidList (unat i16))))"

definition DLT_read :: "tprotocol \<Rightarrow> DLT \<Rightarrow> DLT reader" where
  "DLT_read P dlt =
     rbind (rd (readI64 P)) (\<lambda>v.
     rbind (rd (readI64 P)) (\<lambda>ts.
     rbind (rd (readI32 P)) (\<lambda>w.
     rbind (rd (readI32 P)) (\<lambda>d.
     rbind (rd (readI32 P)) (\<lambda>c.
     rbind (rd (readI32 P)) (\<lambda>count.
     rbind (rtimes (unat count) (rd (readI64 P))) (\<lambda>uuidList.
     rbind (rtimes (unat c) (rtimes (unat d) (DLT_read_cell P uuidList (unat count \<le> 256)))) (\<lambda>groups.
     rlift (Inr (dlt\<lparr>version := v, timestamp := ts, width := unat w, depth := unat d,
                     columns := unat c, distList := groups\<rparr>))))))))))"

section \<open>Differences to a base table\<close>

record DLTDiff =
  baseDlt :: DLT
  baseVersion :: u64
  diffVersion :: u64
  mapTokenNodes :: "(nat, TableColumn) omap"

definition DLTDiff_init :: "DLT option \<Rightarrow> u64 \<Rightarrow> DLTDiff res" where
  "DLTDiff_init base v =
     (case base of
        None \<Rightarrow> Inl Panic
      | Some b \<Rightarrow> Inr \<lparr>baseDlt = b, baseVersion = version b,
                      diffVersion = (if v > 0 then v else version b + 1), mapTokenNodes = []\<rparr>)"

definition DLTDiff_getNodes :: "DLTDiff \<Rightarrow> nat \<Rightarrow> TableColumn res" where
  "DLTDiff_getNodes diff token =
     (case map_of (mapTokenNodes diff) token of
        Some g \<Rightarrow> Inr g
      | None \<Rightarrow> DLT_getNodes (baseDlt diff) token)"

definition DLTDiff_getNodes_obj :: "DLTDiff \<Rightarrow> ObjectID \<Rightarrow> TableColumn res" where
  "DLTDiff_getNodes_obj diff objId =
     bindR (DLT_getToken (baseDlt diff) objId) (\<lambda>token. DLTDiff_getNodes diff token)"

definition DLTDiff_getPrimary :: "DLTDiff \<Rightarrow> nat \<Rightarrow> NodeUuid res" where
  "DLTDiff_getPrimary diff token = bindR (DLTDiff_getNodes diff token) (\<lambda>g. col_get g 0)"

definition DLTDiff_setNode :: "DLTDiff \<Rightarrow> nat \<Rightarrow> nat \<Rightarrow> NodeUuid \<Rightarrow> DLTDiff res" where
  "DLTDiff_setNode diff token index nodeuuid =
     (case map_of (mapTokenNodes diff) token of
        Some g \<Rightarrow> bindR (col_set g index nodeuuid)
                    (\<lambda>g'. Inr (diff\<lparr>mapTokenNodes := omap_put token g' (mapTokenNodes diff)\<rparr>))
      | None \<Rightarrow> bindR (col_set (TableColumn_init (depth (baseDlt diff))) index nodeuuid)
                    (\<lambda>g'. Inr (diff\<lparr>mapTokenNodes := omap_put token g' (mapTokenNodes diff)\<rparr>)))"

section \<open>Well-formed tables\<close>

definition DLT_wf :: "DLT \<Rightarrow> bool" where
  "DLT_wf dlt \<longleftrightarrow> columns dlt = 2 ^ width dlt \<and> length (distList dlt) = columns dlt
     \<and> (\<forall>g\<in>set (distList dlt). length g = depth dlt)"

lemma DLT_wf_length [simp]: "DLT_wf d \<Longrightarrow> length (distList d) = columns d"
  by (simp add: DLT_wf_def)

lemma DLT_wf_column [simp]: "DLT_wf d \<Longrightarrow> t < columns d \<Longrightarrow> length (distList d ! t) = depth d"
  by (simp add: DLT_wf_def)

lemma DLT_wf_init [wf_intros]: "DLT_wf (DLT_init w d v True now)"
  by (simp add: DLT_wf_def DLT_init_def TableColumn_init_def)

lemma DLT_wf_copy [wf_intros]: "DLT_wf d \<Longrightarrow> DLT_wf (DLT_copy d)"
  by (simp add: DLT_wf_def DLT_copy_def)

lemma DLT_getNodes_wf [table_simps]: "DLT_wf d \<Longrightarrow> t < columns d \<Longrightarrow> DLT_getNodes d t = Inr (distList d ! t)"
  by (simp add: DLT_getNodes_def)

lemma DLT_getNode_wf [table_simps]:
  "DLT_wf d \<Longrightarrow> t < columns d \<Longrightarrow> i < depth d \<Longrightarrow> DLT_getNode d t i = Inr (distList d ! t ! i)"
  by (simp add: DLT_getNode_def table_simps)

lemma DLT_getPrimary_wf [table_simps]:
  "DLT_wf d \<Longrightarrow> t < columns d \<Longrightarrow> 0 < depth d \<Longrightarrow> DLT_getPrimary d t = Inr (distList d ! t ! 0)"
  by (simp add: DLT_getPrimary_def table_simps)

lemma DLT_setNode_wf [table_simps]:
  "DLT_wf d \<Longrightarrow> t < columns d \<Longrightarrow> i < depth d \<Longrightarrow>
   DLT_setNode d t i u = Inr (d\<lparr>distList := (distList d)[t := (distList d ! t)[i := u]]\<rparr>)"
  by (simp add: DLT_setNode_def)

lemma DLT_wf_update [wf_intros]:
  "DLT_wf d \<Longrightarrow> length g = depth d \<Longrightarrow> DLT_wf (d\<lparr>distList := (distList d)[t := g]\<rparr>)"
  by (auto simp: DLT_wf_def dest!: set_update_subset_insert[THEN subsetD])

interpretation dlt: cell_table depth columns DLT_getNode DLT_setNode DLT_wf
proof unfold_locales
  fix d :: DLT and t i u
  assume "DLT_wf d" "t < columns d" "i < depth d"
  then show "\<exists>d'. DLT_setNode d t i u = Inr d' \<and> DLT_wf d' \<and> depth d' = depth d \<and> columns d' = columns d"
    by (auto simp: table_simps intro!: DLT_wf_update)
next
  fix d :: DLT and t i u d' t' i'
  assume wf: "DLT_wf d" and "DLT_setNode d t i u = Inr d'"
  then have d': "t < columns d" "i < depth d" "d' = d\<lparr>distList := (distList d)[t := (distList d ! t)[i := u]]\<rparr>"
    by (auto simp: DLT_setNode_def res_simps)
  then show "DLT_getNode d' t' i' = (if t' = t \<and> i' = i then Inr u else DLT_getNode d t' i')"
    using wf by (auto simp: DLT_getNode_def DLT_getNodes_def col_get_def fds_verify_def nth_list_update)
qed

subsection \<open>Loops over the cells\<close>

definition DLT_cells :: "DLT \<Rightarrow> (NodeUuid \<times> nat) list" where
  "DLT_cells dlt = concat (map (\<lambda>t. map (\<lambda>u. (u, t)) (distList dlt ! t)) [0..<columns dlt])"

lemma set_DLT_cells:
  "set (DLT_cells d) = {(u, t). t < columns d \<and> u \<in> set (distList d ! t)}"
  by (auto simp: DLT_cells_def)

lemma fold_rows: "length g = n \<Longrightarrow> fold (\<lambda>i. f (g ! i)) [0..<n] s = fold f g s"
  using fold_map[of f "(!) g" "[0..<length g]"] by (auto simp: map_nth comp_def)

lemma foldR_rows:
  "length g = n \<Longrightarrow> foldR (\<lambda>i s. bindR (col_get g i) (\<lambda>u. Inr (f u s))) [0..<n] s = Inr (fold f g s)"
  using foldR_all_Inr[of "[0..<n]" "\<lambda>i s. bindR (col_get g i) (\<lambda>u. Inr (f u s))" "\<lambda>i. f (g ! i)" s]
  by (simp add: fold_rows)

lemma generate_eq:
  assumes "DLT_wf d"
  shows "generateNodeTokenMap d = Inr (d\<lparr>mapNodeTokens := omap_group (DLT_cells d)\<rparr>)"
proof -
  let ?f = "\<lambda>t. fold (\<lambda>u. omap_push (u, t)) (distList d ! t)"
  have body: "foldR (\<lambda>i m. bindR (col_get g i) (\<lambda>u. Inr (omap_push (u, t) m))) [0..<depth d] m
      = Inr (fold (\<lambda>u. omap_push (u, t)) g m)" if "g \<in> set (distList d)" for g t m
    using foldR_rows[of g "depth d" "\<lambda>u. omap_push (u, t)" m] that assms by (simp add: DLT_wf_def)
  have zip: "zip [0..<columns d] (distList d) = map (\<lambda>t. (t, distList d ! t)) [0..<columns d]"
    using assms by (intro nth_equalityI) auto
  have "foldR (\<lambda>(token, nodeList).
              foldR (\<lambda>i m. bindR (col_get nodeList i) (\<lambda>u. Inr (omap_push (u, token) m)))
                [0..<depth d])
            (zip [0..<columns d] (distList d)) []
      = Inr (fold (\<lambda>(t, g). fold (\<lambda>u. omap_push (u, t)) g) (zip [0..<columns d] (distList d)) [])"
    by (rule foldR_all_Inr) (auto simp: body dest: set_zip_rightD)
  also have "fold (\<lambda>(t, g). fold (\<lambda>u. omap_push (u, t)) g) (zip [0..<columns d] (distList d)) []
      = fold ?f [0..<columns d] []"
    by (simp add: zip fold_map comp_def)
  also have "\<dots> = omap_group (DLT_cells d)"
    by (simp add: omap_group_def DLT_cells_def fold_concat fold_map comp_def)
  finally show ?thesis
    using assms by (simp add: generateNodeTokenMap_def)
qed

text \<open>The reverse map is up to date.\<close>

definition map_fresh :: "DLT \<Rightarrow> bool" where
  "map_fresh d \<longleftrightarrow> mapNodeTokens d = omap_group (DLT_cells d)"

lemma values_of_map_pair: "values_of u (map (\<lambda>v. (v, t)) g) = replicate (count_list g u) t"
  by (induction g) auto

lemma values_of_concat: "values_of u (concat kvss) = concat (map (values_of u) kvss)"
  by (induction kvss) auto

lemma getTokens_fresh:
  "map_fresh d \<Longrightarrow> DLT_getTokens d u = concat (map (\<lambda>t. replicate (count_list (distList d ! t) u) t) [0..<columns d])"
  by (auto simp: DLT_getTokens_def map_fresh_def map_of_group DLT_cells_def values_of_concat
      values_of_map_pair comp_def)

lemma set_getTokens: "map_fresh d \<Longrightarrow> set (DLT_getTokens d u) = {t. t < columns d \<and> u \<in> set (distList d ! t)}"
  by (auto simp: getTokens_fresh count_list_0_iff)

lemma sorted_concat_replicate: "sorted (concat (map (\<lambda>t. replicate (f t) t) [a..<b]))"
proof (induction "b - a" arbitrary: a)
  case (Suc n)
  then show ?case
    by (auto simp: upt_conv_Cons sorted_append)
qed simp

subsection \<open>The cached lists, comparison and validity\<close>

lemma count_list_distinct: "distinct g \<Longrightarrow> count_list g u = (if u \<in> set g then 1 else 0)"
  by (induction g) auto

lemma concat_map_if: "concat (map (\<lambda>t. if P t then [t] else []) ts) = filter P ts"
  by (induction ts) auto

lemma getTokens_distinct:
  assumes "map_fresh d" "\<forall>g\<in>set (distList d). distinct g" "DLT_wf d"
  shows "DLT_getTokens d u = filter (\<lambda>t. u \<in> set (distList d ! t)) [0..<columns d]"
proof -
  have "concat (map (\<lambda>t. replicate (count_list (distList d ! t) u) t) [0..<columns d])
      = concat (map (\<lambda>t. if u \<in> set (distList d ! t) then [t] else []) [0..<columns d])"
    using assms(2,3) by (intro arg_cong[of _ _ concat] map_cong) (auto simp: count_list_distinct)
  then show ?thesis
    using getTokens_fresh[OF assms(1), of u] by (simp add: concat_map_if)
qed

lemma foldR_filter:
  assumes "\<And>t. t \<in> set ts \<Longrightarrow> f t = Inr (g t)"
  shows "foldR (\<lambda>t acc. bindR (f t) (\<lambda>v. Inr (if P v then acc @ [t] else acc))) ts acc
       = Inr (acc @ filter (\<lambda>t. P (g t)) ts)"
  using assms by (induction ts arbitrary: acc) auto

lemma getTokens_index_wf:
  assumes "DLT_wf d" "map_fresh d" "i < depth d"
  shows "DLT_getTokens_index d u i = Inr (filter (\<lambda>t. distList d ! t ! i = u) (DLT_getTokens d u))"
proof -
  have "set (DLT_getTokens d u) \<subseteq> {..<columns d}"
    using set_getTokens[OF assms(2), of u] by auto
  then have "bindR (vec_at (distList d) t) (\<lambda>g. col_get g i) = Inr (distList d ! t ! i)"
    if "t \<in> set (DLT_getTokens d u)" for t
    using that assms(1,3) by auto
  then show ?thesis
    using foldR_filter[of "DLT_getTokens d u" "\<lambda>t. bindR (vec_at (distList d) t) (\<lambda>g. col_get g i)"
        "\<lambda>t. distList d ! t ! i" "\<lambda>v. v = u" "[]"]
    by (auto simp: DLT_getTokens_index_def DLT_getTokens_def bindR_assoc split: option.splits)
qed

lemma DLT_eq_from_wf:
  "DLT_wf d \<Longrightarrow> DLT_wf e \<Longrightarrow> columns d = columns e \<Longrightarrow> set is \<subseteq> {0..<columns d} \<Longrightarrow>
   DLT_eq_from d e is = Inr (\<forall>i\<in>set is. distList d ! i = distList e ! i)"
  by (induction "is") (auto simp: table_simps)

lemma DLT_eq_wf:
  assumes "DLT_wf d" "DLT_wf e"
  shows "DLT_eq d e = Inr (depth d = depth e \<and> distList d = distList e)"
proof -
  have "distList d = distList e \<longleftrightarrow> (\<forall>i\<in>set [0..<columns d]. distList d ! i = distList e ! i)"
    if "columns d = columns e"
    using that assms by (auto simp: list_eq_iff_nth_eq)
  moreover have "distList d \<noteq> distList e" if "columns d \<noteq> columns e"
    using that assms by (metis DLT_wf_length)
  ultimately show ?thesis
    using DLT_eq_from_wf[OF assms, of "[0..<columns d]"] by (auto simp: DLT_eq_def)
qed

lemma verify_rows_wf:
  "set js \<subseteq> {0..<length g} \<Longrightarrow> DLT_verify_rows ext X g js S =
     Inr (if \<exists>j\<in>set js. (g ! j = 0 \<or> g ! j \<notin> X) \<and> \<not> isMarkedForRemoval ext (g ! j)
          then Inl ERR_INVALID_DLT else Inr (S \<union> (!) g ` set js))"
  by (induction js arbitrary: S) auto

definition DLT_column_ok :: "om_ext \<Rightarrow> NodeUuid set \<Rightarrow> TableColumn \<Rightarrow> bool" where
  "DLT_column_ok ext X g \<longleftrightarrow> distinct g \<and> (\<forall>u\<in>set g. u \<noteq> 0 \<and> u \<in> X \<or> isMarkedForRemoval ext u)"

lemma verify_rows_column:
  assumes "length g = n"
  shows "DLT_verify_rows ext X g [0..<n] {} =
     Inr (if \<forall>u\<in>set g. u \<noteq> 0 \<and> u \<in> X \<or> isMarkedForRemoval ext u then Inr (set g) else Inl ERR_INVALID_DLT)"
proof -
  have "(!) g ` set [0..<n] = set g"
    using assms List.nth_image[of n g] by simp
  moreover have "(\<exists>j\<in>set [0..<n]. (g ! j = 0 \<or> g ! j \<notin> X) \<and> \<not> isMarkedForRemoval ext (g ! j))
      \<longleftrightarrow> \<not> (\<forall>u\<in>set g. u \<noteq> 0 \<and> u \<in> X \<or> isMarkedForRemoval ext u)"
    using assms by (auto simp: set_conv_nth)
  ultimately show ?thesis
    using verify_rows_wf[of "[0..<n]" g ext X "{}"] assms by auto
qed

lemma verify_cols_wf:
  "DLT_wf d \<Longrightarrow> set is \<subseteq> {0..<columns d} \<Longrightarrow> DLT_verify_cols ext X d is =
     Inr (if \<forall>i\<in>set is. DLT_column_ok ext X (distList d ! i) then ERR_OK else ERR_INVALID_DLT)"
proof (induction "is")
  case (Cons i js)
  then have len: "length (distList d ! i) = depth d" by simp
  then have "card (set (distList d ! i)) < depth d \<longleftrightarrow> \<not> distinct (distList d ! i)"
    using card_set_lt_length_iff[of "distList d ! i"] by simp
  then show ?case
    using Cons by (auto simp: table_simps verify_rows_column[OF len] DLT_column_ok_def)
qed simp

lemma DLT_verify_wf:
  assumes "DLT_wf d"
  shows "DLT_verify ext d X = Inr (if depth d \<le> card X + getPendingNodeRemoves ext FDSP_STOR_MGR
      \<and> (\<forall>g\<in>set (distList d). DLT_column_ok ext X g) then ERR_OK else ERR_INVALID_DLT)"
  using verify_cols_wf[OF assms, of "[0..<columns d]" ext X] assms
  by (auto simp: DLT_verify_def all_set_conv_all_nth)

subsection \<open>The search for another source\<close>

text \<open>Row \<open>r\<close> can serve: it is not the current source, and does not hold the destination.\<close>

definition eligible :: "DLT \<Rightarrow> nat \<Rightarrow> u8 \<Rightarrow> NodeUuid \<Rightarrow> nat \<Rightarrow> bool" where
  "eligible d t cur dest r \<longleftrightarrow> of_nat r \<noteq> cur \<and> distList d ! t ! r \<noteq> dest"

lemma next_index:
  fixes new :: u8
  assumes "unat new < n" "n \<le> 256"
  shows "unat (of_nat (unat (new + 1) mod n) :: u8) = (unat new + 1) mod n"
proof -
  have "unat (new + 1) mod n = (unat new + 1) mod n"
  proof (cases "unat new = 255")
    case True
    then have "new = 255"
      by (metis of_nat_numeral of_nat_unat_u8)
    then have "new + 1 = 0"
      by simp
    then show ?thesis
      using True assms by (cases "n = 256") simp_all
  next
    case False
    then have "Suc (unat new) < 256"
      using unat_u8_lt[of new] by linarith
    then have "unat (new + 1) = unat new + 1"
      by (simp add: unat_word_ariths)
    then show ?thesis by simp
  qed
  moreover have "(unat new + 1) mod n < 256"
    using assms mod_less_divisor[of n "unat new + 1"] by linarith
  ultimately show ?thesis
    using unat_of_nat_lt[where 'a = 8] by simp
qed

lemma newSource_finds:
  assumes wf: "DLT_wf d" "t < columns d" "depth d \<le> 256"
  shows "unat new < depth d \<Longrightarrow> eligible d t cur dest ((unat new + k) mod depth d) \<Longrightarrow>
   \<forall>j<k. \<not> eligible d t cur dest ((unat new + j) mod depth d) \<Longrightarrow>
   newSource d t cur dest new = Some (Inr (distList d ! t ! ((unat new + k) mod depth d)))"
proof (induction k arbitrary: new)
  case 0
  then show ?case
    using wf by (subst newSource.simps) (simp add: table_simps eligible_def)
next
  case (Suc k)
  let ?new' = "of_nat (unat (new + 1) mod depth d) :: u8"
  have new': "unat ?new' = (unat new + 1) mod depth d"
    using next_index[of new "depth d"] Suc.prems(1) wf(3) by simp
  have shift: "(unat ?new' + j) mod depth d = (unat new + Suc j) mod depth d" for j
    by (simp add: new' mod_add_left_eq)
  have "unat ?new' < depth d"
    using Suc.prems(1) by (simp add: new')
  then have "newSource d t cur dest ?new' = Some (Inr (distList d ! t ! ((unat ?new' + k) mod depth d)))"
    using Suc.prems(2,3) by (intro Suc.IH) (auto simp: shift)
  moreover have "\<not> eligible d t cur dest (unat new)"
    using Suc.prems(1) Suc.prems(3)[rule_format, of 0] by simp
  ultimately show ?case
    using wf Suc.prems(1) by (subst newSource.simps) (auto simp: table_simps eligible_def shift)
qed

lemma newSource_terminates:
  assumes wf: "DLT_wf d" "t < columns d" "depth d \<le> 256" and "unat new < depth d"
    and "r < depth d" "eligible d t cur dest r"
  shows "\<exists>r. r < depth d \<and> eligible d t cur dest r \<and> newSource d t cur dest new = Some (Inr (distList d ! t ! r))"
proof -
  let ?P = "\<lambda>k. eligible d t cur dest ((unat new + k) mod depth d)"
  have "(unat new + (r + depth d - unat new)) mod depth d = r"
    using assms(4,5) by simp
  then have "?P (LEAST k. ?P k)"
    using assms(6) by (intro LeastI[of ?P "r + depth d - unat new"]) simp
  moreover have "\<forall>j<(LEAST k. ?P k). \<not> ?P j"
    by (auto dest: not_less_Least)
  ultimately have "newSource d t cur dest new
      = Some (Inr (distList d ! t ! ((unat new + (LEAST k. ?P k)) mod depth d)))"
    by (intro newSource_finds[OF wf assms(4)])
  then show ?thesis
    using \<open>?P (LEAST k. ?P k)\<close> assms(4) by (intro exI[of _ "(unat new + (LEAST k. ?P k)) mod depth d"]) simp
qed

lemma newSource_result:
  assumes "newSource d t cur dest new = Some res" "DLT_wf d" "t < columns d" "depth d \<le> 256"
    "unat new < depth d"
  shows "\<exists>r. r < depth d \<and> eligible d t cur dest r \<and> res = Inr (distList d ! t ! r)"
proof -
  let ?ok = "\<lambda>d t (new :: u8). DLT_wf d \<and> t < columns d \<and> depth d \<le> 256 \<and> unat new < depth d"
  let ?P = "\<lambda>d t cur dest new res. ?ok d t new \<longrightarrow>
    (\<exists>r. r < depth d \<and> eligible d t cur dest r \<and> res = Inr (distList d ! t ! r))"
  have "?P d t cur dest new res"
  proof (rule newSource.raw_induct[where P = ?P, OF _ assms(1)], intro impI)
    fix f d t cur dest and new :: u8 and res
    assume IH: "\<And>d t cur dest new res. f d t cur dest new = Some res \<Longrightarrow> ?P d t cur dest new res"
      and step: "(case DLT_getNode d t (unat new) of Inl e \<Rightarrow> Some (Inl e)
        | Inr n \<Rightarrow> if new \<noteq> cur \<and> n \<noteq> dest then Some (Inr n)
                   else f d t cur dest (of_nat (unat (new + 1) mod depth d))) = Some res"
      and ok: "?ok d t new"
    show "\<exists>r. r < depth d \<and> eligible d t cur dest r \<and> res = Inr (distList d ! t ! r)"
    proof (cases "eligible d t cur dest (unat new)")
      case True
      then show ?thesis
        using step ok by (intro exI[of _ "unat new"]) (auto simp: table_simps eligible_def)
    next
      case False
      then have "f d t cur dest (of_nat (unat (new + 1) mod depth d)) = Some res"
        using step ok by (auto simp: table_simps eligible_def)
      moreover have "?ok d t (of_nat (unat (new + 1) mod depth d) :: u8)"
        using next_index[of new "depth d"] ok by auto
      ultimately show ?thesis
        using IH by blast
    qed
  qed
  then show ?thesis
    using assms by blast
qed

lemma getIndex_byte:
  assumes "DLT_wf d" "t < columns d" "depth d \<le> 255"
  shows "\<exists>i. DLT_getIndex d t src = Inr i
     \<and> (src \<in> set (distList d ! t) \<longrightarrow> unat (of_int i :: u8) < depth d
          \<and> distList d ! t ! unat (of_int i :: u8) = src)"
proof (rule col_find_cases[of src "distList d ! t"])
  assume "src \<notin> set (distList d ! t)" "col_find (distList d ! t) src = -1"
  then show ?thesis using assms by (simp add: DLT_getIndex_def table_simps)
next
  fix k
  assume k: "k < length (distList d ! t)" "col_find (distList d ! t) src = int k" "distList d ! t ! k = src"
  then have "k < 256" using assms by simp
  then have "unat (of_int (int k) :: u8) = k"
    using unat_of_nat_lt[where 'a = 8, of k] by simp
  then show ?thesis
    using assms k by (simp add: DLT_getIndex_def table_simps)
qed

lemma newSourceForToken_iff:
  assumes wf: "DLT_wf d" "t < columns d" "0 < depth d" "depth d \<le> 255"
    and col: "distinct (distList d ! t)" "src \<in> set (distList d ! t)"
  shows "case newSourceForToken d src retry dest t of
     None \<Rightarrow> set (distList d ! t) \<subseteq> {src, dest}
   | Some res \<Rightarrow> (\<exists>n. res = Inr n \<and> n \<in> set (distList d ! t) \<and> n \<noteq> src \<and> n \<noteq> dest)"
proof -
  obtain i where i: "DLT_getIndex d t src = Inr i" "unat (of_int i :: u8) < depth d"
    "distList d ! t ! unat (of_int i :: u8) = src"
    using getIndex_byte[OF wf(1,2,4)] col(2) by auto
  let ?cur = "of_int i :: u8"
  let ?new = "of_nat ((unat ?cur + unat retry) mod depth d) :: u8"
  have bound: "(unat ?cur + unat retry) mod depth d < depth d"
    using wf(3) by simp
  then have new: "unat ?new < depth d"
    using unat_of_nat_lt[where 'a = 8, of "(unat ?cur + unat retry) mod depth d"] wf(4) by simp
  have elig: "eligible d t ?cur dest r \<longleftrightarrow> distList d ! t ! r \<noteq> src \<and> distList d ! t ! r \<noteq> dest"
    if "r < depth d" for r
  proof -
    have "r < 256" using that wf(4) by simp
    then have "of_nat r = ?cur \<longleftrightarrow> r = unat ?cur"
      using unat_of_nat_lt[where 'a = 8, of r] by auto
    also have "\<dots> \<longleftrightarrow> distList d ! t ! r = src"
      using nth_eq_iff_index_eq[OF col(1), of r "unat ?cur"] that i(2,3) wf(1,2) by simp
    finally show ?thesis by (simp add: eligible_def)
  qed
  have eq: "newSourceForToken d src retry dest t = newSource d t ?cur dest ?new"
    using wf(3) by (simp add: newSourceForToken_def i(1) Let_def)
  show ?thesis
  proof (cases "newSource d t ?cur dest ?new")
    case None
    have "distList d ! t ! r \<in> {src, dest}" if "r < depth d" for r
      using newSource_terminates[OF wf(1,2) _ new that, of ?cur dest] None elig[OF that] wf(4) by auto
    then have "\<forall>g\<in>set (distList d ! t). g \<in> {src, dest}"
      using wf(1,2) by (simp add: all_set_conv_all_nth)
    then show ?thesis
      by (auto simp: eq None)
  next
    case (Some res)
    then show ?thesis
      using newSource_result[OF Some wf(1,2) _ new] wf elig by (auto simp: eq)
  qed
qed

lemma getNewSourceSMs_ok:
  "(\<And>t. t \<in> set tokens \<Longrightarrow> newSourceForToken d src retry dest t = Some (Inr (f t))) \<Longrightarrow>
   getNewSourceSMs d src retry dest tokens m = Some (Inr (fold omap_push (map (\<lambda>t. (f t, t)) tokens) m))"
  by (induction tokens arbitrary: m) auto

lemma getNewSourceSMs_stuck:
  assumes "\<And>t e. t \<in> set tokens \<Longrightarrow> newSourceForToken d src retry dest t \<noteq> Some (Inl e)"
    and "t \<in> set tokens" "newSourceForToken d src retry dest t = None"
  shows "getNewSourceSMs d src retry dest tokens m = None"
  using assms
proof (induction tokens arbitrary: m)
  case (Cons a ts)
  then show ?case
    by (cases "newSourceForToken d src retry dest a" rule: option.exhaust)
      (auto split: sum.splits)
qed simp

lemma group_member: "(u, t) \<in> set kvs \<Longrightarrow> \<exists>ts. map_of (omap_group kvs) u = Some ts \<and> t \<in> set ts"
  using set_values_of[of u kvs] by (auto simp: map_of_group)

subsection \<open>Deep copies\<close>

lemma clone_body:
  assumes "DLT_wf d" "DLT_wf p" "columns p = columns d" "depth p = depth d" "i < columns d" "j < depth d"
  shows "bindR (vec_at (distList d) i) (\<lambda>src. bindR (col_get src j) (\<lambda>u.
         bindR (vec_at (distList p) i) (\<lambda>dst. bindR (col_set dst j u) (\<lambda>dst'.
         Inr (p\<lparr>distList := (distList p)[i := dst']\<rparr>)))))
       = DLT_setNode p i j (distList d ! i ! j)"
  using assms by (simp add: table_simps)

lemma clone_loop:
  assumes wf: "DLT_wf d" and "DLT_wf p" "columns p = columns d" "depth p = depth d"
    and "set ijs \<subseteq> {..<columns d} \<times> {..<depth d}"
  shows "foldR (\<lambda>(i, j) p.
         bindR (vec_at (distList d) i) (\<lambda>src. bindR (col_get src j) (\<lambda>u.
         bindR (vec_at (distList p) i) (\<lambda>dst. bindR (col_set dst j u) (\<lambda>dst'.
         Inr (p\<lparr>distList := (distList p)[i := dst']\<rparr>)))))) ijs p
       = dlt.put_all p (map (\<lambda>(i, j). (i, j, distList d ! i ! j)) ijs)"
  using assms(2-5)
proof (induction ijs arbitrary: p)
  case (Cons ij ijs)
  obtain i j where ij: "ij = (i, j)" "i < columns d" "j < depth d"
    using Cons.prems(4) by (cases ij) auto
  obtain p' where "DLT_setNode p i j (distList d ! i ! j) = Inr p'" "DLT_wf p'"
    "depth p' = depth p" "columns p' = columns p"
    using dlt.put_in[OF Cons.prems(1), of i j "distList d ! i ! j"] ij Cons.prems(2,3) by auto
  then show ?case
    using Cons clone_body[OF wf Cons.prems(1-3) ij(2,3)] by (simp add: ij(1))
qed simp

lemma DLT_clone_wf:
  assumes "DLT_wf d"
  shows "\<exists>p. DLT_clone d = Inr p \<and> DLT_wf p \<and> depth p = depth d \<and> columns p = columns d
     \<and> distList p = distList d"
proof -
  let ?p = "(DLT_init (width d) (depth d) (version d) True 0)\<lparr>timestamp := timestamp d\<rparr>"
  let ?ijs = "List.product [0..<columns d] [0..<depth d]"
  let ?cells = "map (\<lambda>(i, j). (i, j, distList d ! i ! j)) ?ijs"
  have p: "DLT_wf ?p" "columns ?p = columns d" "depth ?p = depth d"
    using assms by (simp_all add: DLT_wf_def DLT_init_def TableColumn_init_def)
  have "\<forall>(c, r, u)\<in>set ?cells. c < columns ?p \<and> r < depth ?p"
    by (auto simp: p)
  from dlt.put_all_in[OF p(1) this]
  obtain q where q: "dlt.put_all ?p ?cells = Inr q" "DLT_wf q" "depth q = depth d" "columns q = columns d"
    and get: "\<And>c r. DLT_getNode q c r = (case find (\<lambda>(c', r', u). c' = c \<and> r' = r) (rev ?cells) of
              Some (_, _, u) \<Rightarrow> Inr u | None \<Rightarrow> DLT_getNode ?p c r)"
    unfolding p by blast
  have cell: "DLT_getNode q c r = Inr (distList d ! c ! r)" if "c < columns d" "r < depth d" for c r
  proof (cases "find (\<lambda>(c', r', u). c' = c \<and> r' = r) (rev ?cells)")
    case None
    then show ?thesis
      using that by (auto simp: find_None_iff)
  next
    case (Some x)
    then have "x = (c, r, distList d ! c ! r)"
      using find_SomeD[OF Some] by auto
    then show ?thesis
      unfolding get[of c r] Some by simp
  qed
  have "distList q ! c = distList d ! c" if "c < columns d" for c
    using cell[OF that] that q assms by (intro nth_equalityI) (auto simp: table_simps)
  then have "distList q = distList d"
    using q assms by (intro nth_equalityI) auto
  moreover have "DLT_clone d = Inr q"
    unfolding DLT_clone_def q(1)[symmetric] by (rule clone_loop[OF assms p]) auto
  ultimately show ?thesis
    using q by blast
qed


subsection \<open>Writing and reading back\<close>

lemma map_of_zip_index:
  "distinct xs \<Longrightarrow> i < length xs \<Longrightarrow> map_of (zip xs [0..<length xs]) (xs ! i) = Some i"
  by (subst map_of_zip_nth) simp_all

lemma lookupid_in:
  assumes "distinct us" "u \<in> set us"
  shows "lookupid us u < length us \<and> us ! lookupid us u = u"
proof -
  obtain i where "i < length us" "us ! i = u"
    using assms(2) by (auto simp: in_set_conv_nth)
  then show ?thesis
    using map_of_zip_index[OF assms(1), of i] by (auto simp: lookupid_def)
qed

lemma foldR_append_cells:
  assumes "\<And>x. x \<in> set xs \<Longrightarrow> f x = Inr (g x)"
  shows "foldR (\<lambda>x b. bindR (f x) (\<lambda>u. Inr (b @ w u))) xs b = Inr (b @ concat (map (\<lambda>x. w (g x)) xs))"
  using assms by (induction xs arbitrary: b) auto

definition cell_bytes :: "tprotocol \<Rightarrow> NodeUuid list \<Rightarrow> NodeUuid \<Rightarrow> u8 list" where
  "cell_bytes P us u = (if length us \<le> 256 then writeByte P (of_nat (lookupid us u))
                        else writeI16 P (of_nat (lookupid us u)))"

lemma write_column:
  assumes "length g = n"
  shows "foldR (\<lambda>i b. bindR (col_get g i) (\<lambda>u. Inr (b @ cell_bytes P us u))) [0..<n] b
       = Inr (b @ concat (map (cell_bytes P us) g))"
proof -
  have "map (cell_bytes P us) g = map (\<lambda>i. cell_bytes P us (g ! i)) [0..<n]"
    using assms by (intro nth_equalityI) auto
  then show ?thesis
    using foldR_append_cells[of "[0..<n]" "col_get g" "(!) g" "cell_bytes P us" b] assms by simp
qed

lemma write_cells_wf:
  assumes "DLT_wf d"
  shows "DLT_write_cells P us d = Inr (concat (map (\<lambda>g. concat (map (cell_bytes P us) g)) (distList d)))"
proof -
  have "foldR (\<lambda>g. foldR (\<lambda>i b. bindR (col_get g i) (\<lambda>u. Inr (b @ cell_bytes P us u))) [0..<depth d]) gs b
      = Inr (b @ concat (map (\<lambda>g. concat (map (cell_bytes P us) g)) gs))"
    if "set gs \<subseteq> set (distList d)" for gs b
    using that assms by (induction gs arbitrary: b) (auto simp: write_column DLT_wf_def)
  from this[of "distList d" "[]"] show ?thesis
    by (simp add: DLT_write_cells_def cell_bytes_def Let_def)
qed

lemma reads_cell:
  assumes "tprotocol_ok P" "distinct us" "u \<in> set us" "length us \<le> 65536"
  shows "reads (DLT_read_cell P us (length us \<le> 256)) (cell_bytes P us u) u"
proof (cases "length us \<le> 256")
  case True
  have "lookupid us u < 256"
    using True lookupid_in[OF assms(2,3)] by simp
  then have "reads (rlift (vec_at us (unat (of_nat (lookupid us u) :: u8)))) [] u"
    using unat_of_nat_lt[where 'a = 8, of "lookupid us u"] lookupid_in[OF assms(2,3)]
    by (simp add: reads_rlift)
  from reads_rbind[where f = "\<lambda>i8. rlift (vec_at us (unat i8))", OF reads_protocol(1)[OF assms(1)] this]
  show ?thesis
    using True by (simp add: DLT_read_cell_def cell_bytes_def)
next
  case False
  have "lookupid us u < 65536"
    using assms(4) lookupid_in[OF assms(2,3)] by simp
  then have "reads (rlift (vec_at us (unat (of_nat (lookupid us u) :: u16)))) [] u"
    using unat_of_nat_lt[where 'a = 16, of "lookupid us u"] lookupid_in[OF assms(2,3)]
    by (simp add: reads_rlift)
  from reads_rbind[where f = "\<lambda>i16. rlift (vec_at us (unat i16))", OF reads_protocol(2)[OF assms(1)] this]
  show ?thesis
    using False by (simp add: DLT_read_cell_def cell_bytes_def)
qed

lemma reads_cells:
  assumes "tprotocol_ok P" "distinct us" "length us \<le> 65536" "\<forall>g\<in>set gs. set g \<subseteq> set us \<and> length g = n"
  shows "reads (rtimes (length gs) (rtimes n (DLT_read_cell P us (length us \<le> 256))))
     (concat (map (\<lambda>g. concat (map (cell_bytes P us) g)) gs)) gs"
proof (rule reads_rtimes[OF _ refl])
  fix g assume "g \<in> set gs"
  then show "reads (rtimes n (DLT_read_cell P us (length us \<le> 256))) (concat (map (cell_bytes P us) g)) g"
    using assms by (intro reads_rtimes) (auto intro!: reads_cell)
qed

definition DLT_loaded :: "DLT \<Rightarrow> DLT \<Rightarrow> DLT" where
  "DLT_loaded d0 d = d0\<lparr>version := version d, timestamp := timestamp d, width := width d,
     depth := depth d, columns := columns d, distList := distList d\<rparr>"

lemma DLT_round_trip:
  assumes P: "tprotocol_ok P" and wf: "DLT_wf d" and fresh: "map_fresh d"
    and small: "columns d < 2 ^ 32" "depth d < 2 ^ 32" "length (mapNodeTokens d) \<le> 65536"
  defines "us \<equiv> map fst (mapNodeTokens d)"
  shows "reads (DLT_read P d0)
     (writeI64 P (version d) @ writeI64 P (timestamp d) @ writeI32 P (of_nat (width d))
      @ writeI32 P (of_nat (depth d)) @ writeI32 P (of_nat (columns d))
      @ writeI32 P (of_nat (length us)) @ concat (map (writeI64 P) us)
      @ concat (map (\<lambda>g. concat (map (cell_bytes P us) g)) (distList d)))
     (DLT_loaded d0 d)"
proof -
  have w: "width d < 2 ^ 32"
    using wf small(1) less_exp[of "width d"] unfolding DLT_wf_def by linarith
  have unats: "unat (of_nat (width d) :: u32) = width d" "unat (of_nat (depth d) :: u32) = depth d"
    "unat (of_nat (columns d) :: u32) = columns d" "unat (of_nat (length us) :: u32) = length us"
    using unat_of_nat_lt[where 'a = 32] w small by (simp_all add: us_def)
  have us: "distinct us" "set us = fst ` set (DLT_cells d)"
    using fresh omap_ok_distinct[OF omap_ok_group] keys_group[of "DLT_cells d"]
    by (simp_all add: us_def map_fresh_def)
  have "\<forall>g\<in>set (distList d). set g \<subseteq> set us \<and> length g = depth d"
  proof (intro ballI conjI subsetI)
    fix g u assume g: "g \<in> set (distList d)"
    then show "length g = depth d"
      using wf by (simp add: DLT_wf_def)
    obtain t where "t < columns d" "distList d ! t = g"
      using g wf by (auto simp: in_set_conv_nth)
    then show "u \<in> set us" if "u \<in> set g"
      using that set_DLT_cells[of d] by (force simp: us(2))
  qed
  then have cells: "reads (rtimes (columns d) (rtimes (depth d) (DLT_read_cell P us (length us \<le> 256))))
     (concat (map (\<lambda>g. concat (map (cell_bytes P us) g)) (distList d))) (distList d)"
    using reads_cells[OF P us(1), of "distList d" "depth d"] small(3) wf by (simp add: us_def)
  have uuids: "reads (rtimes (length us) (rd (readI64 P))) (concat (map (writeI64 P) us)) us"
    by (rule reads_rtimes) (auto intro: reads_protocol[OF P])
  show ?thesis
    unfolding DLT_read_def
    apply (rule reads_rbind, rule reads_protocol[OF P])+
    apply (rule reads_rbind)
     apply (simp only: unats, rule uuids)
    apply (simp only: unats DLT_loaded_def)
    apply (rule reads_rbind_rlift[OF cells])
    done
qed

lemma DLT_write_readable:
  assumes "tprotocol_ok P" "DLT_wf d" "columns d < 2 ^ 32" "depth d < 2 ^ 32"
    and "card (fst ` set (DLT_cells d)) \<le> 65536"
    and "map_fresh d \<or> (mapNodeTokens d = [] \<and> \<not> mapInitialized d)"
  shows "\<exists>bs d'. DLT_write P d = Inr (bs, d') \<and> distList d' = distList d
     \<and> (\<forall>d0. reads (DLT_read P d0) bs (DLT_loaded d0 d))"
proof -
  let ?m = "omap_group (DLT_cells d)"
  let ?d = "d\<lparr>mapNodeTokens := ?m, mapInitialized := True\<rparr>"
  have d: "DLT_once d = Inr ?d"
    using assms(6) generate_eq[OF assms(2)] by (auto simp: DLT_once_def map_fresh_def)
  have cells: "DLT_cells ?d = DLT_cells d" "DLT_wf ?d"
    using assms(2) by (simp_all add: DLT_cells_def DLT_wf_def)
  have "length ?m = card (fst ` set (DLT_cells d))"
    using distinct_card[OF omap_ok_distinct[OF omap_ok_group[of "DLT_cells d"]]]
    by (simp add: keys_group)
  then have reads: "reads (DLT_read P d0) (writeI64 P (version ?d) @ writeI64 P (timestamp ?d)
      @ writeI32 P (of_nat (width ?d)) @ writeI32 P (of_nat (depth ?d)) @ writeI32 P (of_nat (columns ?d))
      @ writeI32 P (of_nat (length (map fst ?m))) @ concat (map (writeI64 P) (map fst ?m))
      @ concat (map (\<lambda>g. concat (map (cell_bytes P (map fst ?m)) g)) (distList ?d))) (DLT_loaded d0 ?d)"
    for d0
    using DLT_round_trip[OF assms(1) cells(2), of d0] assms(3-5) cells(1) by (simp add: map_fresh_def)
  show ?thesis
    using reads write_cells_wf[OF cells(2), of P "map fst ?m"]
    by (auto simp: DLT_write_def d Let_def reads_def DLT_loaded_def)
qed

section \<open>Properties\<close>

text \<open>
  C18. The reverse map that \<^verbatim>\<open>generateNodeTokenMap\<close> builds is exact: for a table whose
  columns hold distinct nodes, the tokens listed for a node are the columns that hold it, in
  increasing order, and those listed for a row are the columns that hold it in that row.
\<close>

theorem reverse_map_exact:
  assumes "DLT_wf d" "\<forall>g\<in>set (distList d). distinct g"
  shows "\<exists>d'. generateNodeTokenMap d = Inr d' \<and> distList d' = distList d
     \<and> (\<forall>u. DLT_getTokens d' u = filter (\<lambda>t. u \<in> set (distList d ! t)) [0..<columns d])
     \<and> (\<forall>u i. i < depth d \<longrightarrow>
          DLT_getTokens_index d' u i = Inr (filter (\<lambda>t. distList d ! t ! i = u) [0..<columns d]))"
proof -
  let ?d = "d\<lparr>mapNodeTokens := omap_group (DLT_cells d)\<rparr>"
  have d': "DLT_wf ?d" "map_fresh ?d"
    using assms(1) by (simp_all add: DLT_wf_def map_fresh_def DLT_cells_def)
  have tokens: "DLT_getTokens ?d u = filter (\<lambda>t. u \<in> set (distList d ! t)) [0..<columns d]" for u
    using getTokens_distinct[OF d'(2) _ d'(1)] assms(2) by simp
  have "DLT_getTokens_index ?d u i = Inr (filter (\<lambda>t. distList d ! t ! i = u) [0..<columns d])"
    if "i < depth d" for u i
    using getTokens_index_wf[OF d', of i u] that assms(1)
    by (auto simp: tokens intro!: filter_cong)
  then show ?thesis
    using generate_eq[OF assms(1)] tokens by auto
qed

definition wit_dlt :: DLT where
  "wit_dlt = (DLT_init 1 2 7 True 99)\<lparr>distList := [[1, 2], [2, 3]]\<rparr>"

lemma wit_dlt_wf [simp]: "DLT_wf wit_dlt"
  by (simp add: wit_dlt_def DLT_wf_def DLT_init_def)

lemma wit_dlt_fields [simp]:
  "columns wit_dlt = 2" "depth wit_dlt = 2" "distList wit_dlt = [[1, 2], [2, 3]]" "width wit_dlt = 1"
  "mapNodeTokens wit_dlt = []" "mapInitialized wit_dlt = False"
  by (simp_all add: wit_dlt_def DLT_init_def)

theorem reverse_map_exact_witness:
  "\<exists>d'. generateNodeTokenMap wit_dlt = Inr d' \<and> DLT_getTokens d' 2 = [0, 1]
     \<and> DLT_getTokens_index d' 2 1 = Inr [0]"
  using reverse_map_exact[of wit_dlt] by (auto simp: upt_rec)

text \<open>
  C22. \<^verbatim>\<open>DLT::verify\<close> accepts a table exactly if it has no more rows than there are
  expected nodes and pending removals, and every column holds distinct nodes each of which
  is an expected node other than 0 or is marked for removal.
\<close>

theorem DLT_verify_exact:
  assumes "DLT_wf d"
  shows "DLT_verify ext d X = Inr ERR_OK \<longleftrightarrow>
     depth d \<le> card X + getPendingNodeRemoves ext FDSP_STOR_MGR \<and>
     (\<forall>g\<in>set (distList d). distinct g \<and> (\<forall>u\<in>set g. u \<noteq> 0 \<and> u \<in> X \<or> isMarkedForRemoval ext u))"
  using DLT_verify_wf[OF assms, of ext X] by (simp add: DLT_column_ok_def)

theorem DLT_verify_exact_witness: "DLT_verify OmExtUtilApi_init wit_dlt {1, 2, 3} = Inr ERR_OK"
  using DLT_verify_exact[of wit_dlt OmExtUtilApi_init "{1, 2, 3}"] by simp

text \<open>
  C10. The search for new migration sources: for tokens whose columns hold distinct nodes,
  the current source among them, \<^verbatim>\<open>getNewSourceSMs\<close> returns exactly if every token has a
  replica other than the current source and the destination; it then files every token
  under such a replica of it. If one token has none, the loop never ends, although the
  interface promises to list that token under the invalid node.
\<close>

theorem getNewSourceSMs_returns_iff:
  assumes "DLT_wf d" "0 < depth d" "depth d \<le> 255" "set tokens \<subseteq> {..<columns d}"
    and "\<forall>t\<in>set tokens. distinct (distList d ! t) \<and> src \<in> set (distList d ! t)"
  shows "if \<exists>t\<in>set tokens. set (distList d ! t) \<subseteq> {src, dest}
     then getNewSourceSMs d src retry dest tokens [] = None
     else \<exists>m. getNewSourceSMs d src retry dest tokens [] = Some (Inr m)
       \<and> (\<forall>t\<in>set tokens. \<exists>n ts. map_of m n = Some ts \<and> t \<in> set ts
            \<and> n \<in> set (distList d ! t) \<and> n \<noteq> src \<and> n \<noteq> dest)"
proof -
  let ?r = "newSourceForToken d src retry dest"
  have tok: "case ?r t of None \<Rightarrow> set (distList d ! t) \<subseteq> {src, dest}
      | Some res \<Rightarrow> (\<exists>n. res = Inr n \<and> n \<in> set (distList d ! t) \<and> n \<noteq> src \<and> n \<noteq> dest)"
    if "t \<in> set tokens" for t
    using newSourceForToken_iff[OF assms(1) _ assms(2,3), where t = t and src = src and retry = retry and dest = dest] that assms(4,5) by auto
  show ?thesis
  proof (cases "\<exists>t\<in>set tokens. set (distList d ! t) \<subseteq> {src, dest}")
    case True
    then obtain t where t: "t \<in> set tokens" "set (distList d ! t) \<subseteq> {src, dest}" by blast
    have "?r t = None"
      using tok[OF t(1)] t(2) by (auto split: option.splits)
    moreover have "?r t' \<noteq> Some (Inl e)" if "t' \<in> set tokens" for t' e
      using tok[OF that] by auto
    ultimately show ?thesis
      using True getNewSourceSMs_stuck[of tokens d src retry dest t "[]"] t(1) by auto
  next
    case False
    define f where "f t = projr (the (?r t))" for t
    have f: "?r t = Some (Inr (f t)) \<and> f t \<in> set (distList d ! t) \<and> f t \<noteq> src \<and> f t \<noteq> dest"
      if "t \<in> set tokens" for t
      using tok[OF that] False that by (auto simp: f_def split: option.splits)
    have "\<exists>n ts. map_of (omap_group (map (\<lambda>t. (f t, t)) tokens)) n = Some ts \<and> t \<in> set ts
        \<and> n \<in> set (distList d ! t) \<and> n \<noteq> src \<and> n \<noteq> dest" if "t \<in> set tokens" for t
      using group_member[of "f t" t "map (\<lambda>t. (f t, t)) tokens"] f[OF that] that by auto
    then show ?thesis
      using False getNewSourceSMs_ok[of tokens d src retry dest f "[]"] f
      by (auto simp: omap_group_def)
  qed
qed

theorem getNewSourceSMs_returns_iff_witness:
  "getNewSourceSMs wit_dlt 2 1 1 [0] [] = None
   \<and> (\<exists>m. getNewSourceSMs wit_dlt 2 1 1 [1] [] = Some (Inr m))"
  using getNewSourceSMs_returns_iff[where d = wit_dlt and tokens = "[0]" and src = 2 and retry = 1 and dest = 1]
    getNewSourceSMs_returns_iff[where d = wit_dlt and tokens = "[1]" and src = 2 and retry = 1 and dest = 1]
  by auto

text \<open>
  C6. What \<^verbatim>\<open>DLT::write\<close> sends, \<^verbatim>\<open>DLT::read\<close> takes in again: for a protocol whose reads undo
  its writes, a well-formed table with at most 65536 distinct nodes whose reverse map is
  empty (it is then built) or up to date is written without error, and reading the bytes
  into any table object gives the same version, time, dimensions and columns and leaves
  what follows in the stream.
\<close>

theorem DLT_write_read:
  assumes "tprotocol_ok P" "DLT_wf d" "columns d < 2 ^ 32" "depth d < 2 ^ 32"
    and "card (fst ` set (DLT_cells d)) \<le> 65536"
    and "map_fresh d \<or> (mapNodeTokens d = [] \<and> \<not> mapInitialized d)"
  shows "\<exists>bs d'. DLT_write P d = Inr (bs, d') \<and> distList d' = distList d
     \<and> (\<forall>d0 rest. DLT_read P d0 (bs @ rest) = Inr (DLT_loaded d0 d, rest))"
  using DLT_write_readable[OF assms] by (simp add: reads_def)

theorem DLT_write_read_witness:
  "\<exists>bs d'. DLT_write be_protocol wit_dlt = Inr (bs, d') \<and> distList d' = distList wit_dlt
     \<and> (\<forall>d0 rest. DLT_read be_protocol d0 (bs @ rest) = Inr (DLT_loaded d0 wit_dlt, rest))"
proof (rule DLT_write_read)
  show "card (fst ` set (DLT_cells wit_dlt)) \<le> 65536"
    by (simp add: DLT_cells_def upt_rec card_insert_if)
qed (simp_all add: be_protocol_ok)

text \<open>
  \<^verbatim>\<open>getSourceNodeForToken\<close> on a column of distinct nodes: the source is the primary
  unless the destination is the primary itself, and then the node in row 1; only a
  destination that is the single replica gets the invalid node.
\<close>

theorem source_for_token:
  assumes "DLT_wf d" "t < columns d" "distinct (distList d ! t)" "dest \<in> set (distList d ! t)"
  shows "getSourceNodeForToken d dest t = Inr
     (if distList d ! t ! 0 \<noteq> dest then distList d ! t ! 0
      else if 1 < depth d then distList d ! t ! 1 else INVALID_RESOURCE_UUID)"
proof -
  obtain a g where g: "distList d ! t = a # g"
    using assms(4) by (cases "distList d ! t") auto
  have "depth d = Suc (length g)"
    using DLT_wf_column[OF assms(1,2)] by (simp add: g)
  then show ?thesis
    using assms by (cases g) (auto simp: getSourceNodeForToken_def table_simps g)
qed

theorem source_for_token_witness: "getSourceNodeForToken wit_dlt 2 1 = Inr 3"
  using source_for_token[of wit_dlt 1 2] by simp

end
