(* ===== verification/Dlt_Manager.thy ===== *)
theory Dlt_Manager
  imports Dlt
begin

text \<open>
  \<^verbatim>\<open>DLTManager\<close> of \<^verbatim>\<open>lib/misc/dlt.cpp\<close>: the tables a service knows, the current one among
  them, and the counting of the requests that run under a table. \<^verbatim>\<open>curPtr\<close> points to a table
  of the list, to nothing, or (after \<^verbatim>\<open>read\<close> has cleared the list) to a table that is in no
  list any more. The tables of the list are values: that \<^verbatim>\<open>add\<close> makes equal columns of the
  new and the current table the same object is visible only as the assignment of equal
  contents.
\<close>

section \<open>The manager\<close>

datatype cur_ptr = Null | At nat | Detached DLT

record DLTManager =
  curPtr :: cur_ptr
  dltList :: "DLT list"
  maxDlts :: u8

definition DLTManager_init :: "u8 \<Rightarrow> DLTManager" where
  "DLTManager_init n = \<lparr>curPtr = Null, dltList = [], maxDlts = n\<rparr>"

definition curDlt :: "DLTManager \<Rightarrow> DLT res" where
  "curDlt m = (case curPtr m of
     Null \<Rightarrow> Inl NullDeref
   | At i \<Rightarrow> (if i < length (dltList m) then Inr (dltList m ! i) else Inl NullDeref)
   | Detached d \<Rightarrow> Inr d)"

definition setCur :: "DLTManager \<Rightarrow> DLT \<Rightarrow> DLTManager" where
  "setCur m d = (case curPtr m of
     Null \<Rightarrow> m
   | At i \<Rightarrow> m\<lparr>dltList := (dltList m)[i := d]\<rparr>
   | Detached _ \<Rightarrow> m\<lparr>curPtr := Detached d\<rparr>)"

text \<open>\<^verbatim>\<open>checkSize\<close>, which nothing calls.\<close>

definition checkSize :: "DLTManager \<Rightarrow> DLTManager" where
  "checkSize m =
     (if length (dltList m) > unat (maxDlts m) then
        (if curPtr m \<noteq> At 0
         then m\<lparr>dltList := tl (dltList m),
                curPtr := (case curPtr m of At i \<Rightarrow> At (i - 1) | p \<Rightarrow> p)\<rparr>
         else m)
      else m)"

subsection \<open>Adding a table\<close>

fun rows_same :: "TableColumn \<Rightarrow> TableColumn \<Rightarrow> nat list \<Rightarrow> bool res" where
  "rows_same a b [] = Inr True"
| "rows_same a b (j # js) =
     bindR (col_get a j) (\<lambda>x. bindR (col_get b j) (\<lambda>y.
       if x \<noteq> y then Inr False else rows_same a b js))"

definition share_column :: "DLT \<Rightarrow> nat \<Rightarrow> DLT \<Rightarrow> DLT res" where
  "share_column current i newDlt =
     bindR (vec_at (distList current) i) (\<lambda>c. bindR (vec_at (distList newDlt) i) (\<lambda>g.
       if depth current = depth newDlt then
         bindR (rows_same c g [0..<depth newDlt]) (\<lambda>fSame.
           Inr (if fSame then newDlt\<lparr>distList := (distList newDlt)[i := c]\<rparr> else newDlt))
       else Inr newDlt))"

definition DLTManager_add :: "DLTManager \<Rightarrow> DLT \<Rightarrow> callback option \<Rightarrow> (DLTManager \<times> fds_errno) res" where
  "DLTManager_add m dlt c =
     (let newDlt = DLT_copy dlt in
      if \<exists>d\<in>set (dltList m). version d = version newDlt then Inr (m, ERR_DUPLICATE)
      else
        bindR (case (curPtr m, c) of
                 (Null, _) \<Rightarrow> Inr (m, ERR_OK)
               | (_, None) \<Rightarrow> Inr (m, ERR_OK)
               | (_, Some k) \<Rightarrow> bindR (curDlt m) (\<lambda>cur.
                   let (cur', err) = setCallback k cur in Inr (setCur m cur', err)))
          (\<lambda>(m1, err).
             if dltList m1 = [] then Inr (m1\<lparr>dltList := [newDlt], curPtr := At 0\<rparr>, err)
             else
               bindR (curDlt m1) (\<lambda>current.
               bindR (foldR (share_column current) [0..<columns newDlt] newDlt) (\<lambda>newDlt'.
                 Inr (m1\<lparr>dltList := dltList m1 @ [newDlt'], curPtr := At (length (dltList m1))\<rparr>, err)))))"

definition addSerializedDLT ::
  "tprotocol \<Rightarrow> DLTManager \<Rightarrow> u8 list \<Rightarrow> callback option \<Rightarrow> u64 \<Rightarrow> (DLTManager \<times> fds_errno) res" where
  "addSerializedDLT P m serializedData c now =
     bindR (loadSerialized (DLT_read P (DLT_init 0 0 0 False now)) serializedData) (\<lambda>(err, d).
       case d of
         Some dlt \<Rightarrow> (if err = ERR_OK
                      then bindR (generateNodeTokenMap dlt) (\<lambda>dlt'. DLTManager_add m dlt' c)
                      else Inr (m, err))
       | None \<Rightarrow> Inr (m, err))"

text \<open>Adding a difference appends the table it describes and leaves the current one.\<close>

definition diff_column :: "DLT \<Rightarrow> DLTDiff \<Rightarrow> nat \<Rightarrow> TableColumn res" where
  "diff_column current diff i =
     bindR (vec_at (distList (baseDlt diff)) i) (\<lambda>base.
       let ptr = (case map_of (mapTokenNodes diff) i of Some g \<Rightarrow> g | None \<Rightarrow> base) in
       bindR (vec_at (distList current) i) (\<lambda>c.
       bindR (rows_same c ptr [0..<depth (baseDlt diff)]) (\<lambda>fSame.
         Inr (if fSame then c else ptr))))"

definition DLTManager_add_diff :: "DLTManager \<Rightarrow> DLTDiff \<Rightarrow> u64 \<Rightarrow> (DLTManager \<times> bool) res" where
  "DLTManager_add_diff m diff now =
     (let base = baseDlt diff;
          dlt = DLT_init (width base) (depth base) (diffVersion diff) False now
      in bindR (mapR (\<lambda>i. bindR (curDlt m) (\<lambda>current. diff_column current diff i)) [0..<columns dlt])
           (\<lambda>groups. Inr (m\<lparr>dltList := dltList m @ [dlt\<lparr>distList := groups\<rparr>]\<rparr>, True)))"

subsection \<open>Versions and the current table\<close>

definition DLTManager_getDLT :: "DLTManager \<Rightarrow> u64 \<Rightarrow> DLT option" where
  "DLTManager_getDLT m v =
     (if v = 0 then (case curDlt m of Inr d \<Rightarrow> Some d | Inl _ \<Rightarrow> None)
      else find (\<lambda>d. v = version d) (dltList m))"

definition DLTManager_getAndLockCurrentVersion :: "DLTManager \<Rightarrow> DLTManager \<times> DLT option" where
  "DLTManager_getAndLockCurrentVersion m =
     (case curDlt m of
        Inr d \<Rightarrow> (let (d', refcnt) = incRefcnt d in (setCur m d', Some d'))
      | Inl _ \<Rightarrow> (m, None))"

text \<open>The first table of that version, by its index.\<close>

fun find_index :: "('a \<Rightarrow> bool) \<Rightarrow> 'a list \<Rightarrow> nat option" where
  "find_index P [] = None"
| "find_index P (x # xs) = (if P x then Some 0 else map_option Suc (find_index P xs))"

definition DLTManager_releaseVersion :: "DLTManager \<Rightarrow> u64 \<Rightarrow> DLTManager \<times> fds_errno \<times> callback list" where
  "DLTManager_releaseVersion m v =
     (if v = 0 then (m, ERR_INVALID_ARG, [])
      else case find_index (\<lambda>d. v = version d) (dltList m) of
        Some i \<Rightarrow> (let (d', refcnt, fired) = decRefcnt (dltList m ! i)
                   in (m\<lparr>dltList := (dltList m)[i := d']\<rparr>, ERR_OK, fired))
      | None \<Rightarrow> (m, ERR_NOT_FOUND, []))"

definition getDltVersions :: "DLTManager \<Rightarrow> u64 list" where
  "getDltVersions m = map version (dltList m)"

definition DLTManager_setCurrent :: "DLTManager \<Rightarrow> u64 \<Rightarrow> DLTManager \<times> fds_errno" where
  "DLTManager_setCurrent m v =
     (if v = 0 then (m, ERR_OK)
      else case find_index (\<lambda>d. v = version d) (dltList m) of
        Some i \<Rightarrow> (m\<lparr>curPtr := At i\<rparr>, ERR_OK)
      | None \<Rightarrow> (m, ERR_NOT_FOUND))"

definition setCurrentDltClosed :: "DLTManager \<Rightarrow> DLTManager \<times> fds_errno" where
  "setCurrentDltClosed m =
     (case curDlt m of
        Inl _ \<Rightarrow> (m, ERR_NOT_FOUND)
      | Inr cur \<Rightarrow>
          (case find_index (\<lambda>d. version cur = version d) (dltList m) of
             Some i \<Rightarrow> (fst (DLTManager_setCurrent
                               (m\<lparr>dltList := (dltList m)[i := DLT_setClosed (dltList m ! i)]\<rparr>)
                               (version cur)), ERR_OK)
           | None \<Rightarrow> (m, ERR_OK)))"

definition DLTManager_getNodes :: "DLTManager \<Rightarrow> nat \<Rightarrow> TableColumn res" where
  "DLTManager_getNodes m token = bindR (curDlt m) (\<lambda>d. DLT_getNodes d token)"

definition DLTManager_getNodes_obj :: "DLTManager \<Rightarrow> ObjectID \<Rightarrow> TableColumn res" where
  "DLTManager_getNodes_obj m objId = bindR (curDlt m) (\<lambda>d. DLT_getNodes_obj d objId)"

definition DLTManager_getPrimary :: "DLTManager \<Rightarrow> nat \<Rightarrow> NodeUuid res" where
  "DLTManager_getPrimary m token = bindR (curDlt m) (\<lambda>d. DLT_getPrimary d token)"

text \<open>The overload for objects calls itself with the same argument; \<open>None\<close> is no result.\<close>

partial_function (option) DLTManager_getPrimary_obj :: "DLTManager \<Rightarrow> ObjectID \<Rightarrow> NodeUuid res option" where
  "DLTManager_getPrimary_obj m objId = DLTManager_getPrimary_obj m objId"

subsection \<open>Saving and restoring the manager\<close>

fun write_dlts :: "tprotocol \<Rightarrow> DLT list \<Rightarrow> (u8 list \<times> DLT list) res" where
  "write_dlts P [] = Inr ([], [])"
| "write_dlts P (d # ds) =
     bindR (DLT_write P d) (\<lambda>(bs, d'). bindR (write_dlts P ds) (\<lambda>(cs, ds'). Inr (bs @ cs, d' # ds')))"

definition DLTManager_write :: "tprotocol \<Rightarrow> DLTManager \<Rightarrow> (u8 list \<times> DLTManager) res" where
  "DLTManager_write P m =
     bindR (curDlt m) (\<lambda>cur.
     bindR (write_dlts P (dltList m)) (\<lambda>(bs, ds).
       Inr (writeI64 P (version cur) @ writeByte P (maxDlts m)
            @ writeByte P (of_nat (length (dltList m))) @ bs, m\<lparr>dltList := ds\<rparr>)))"

fun read_dlts :: "tprotocol \<Rightarrow> u64 \<Rightarrow> nat \<Rightarrow> DLTManager \<Rightarrow> DLTManager reader" where
  "read_dlts P now 0 m = rlift (Inr m)"
| "read_dlts P now (Suc n) m =
     rbind (DLT_read P (DLT_init 0 0 0 False now)) (\<lambda>dlt.
     rbind (rlift (DLTManager_add m dlt None)) (\<lambda>(m', _). read_dlts P now n m'))"

definition DLTManager_read :: "tprotocol \<Rightarrow> u64 \<Rightarrow> DLTManager \<Rightarrow> DLTManager reader" where
  "DLTManager_read P now m =
     rbind (rd (readI64 P)) (\<lambda>v.
     rbind (rd (readByte P)) (\<lambda>mx.
     rbind (rd (readByte P)) (\<lambda>numDlts.
     rbind (rlift (Inr (m\<lparr>maxDlts := mx, dltList := [],
                          curPtr := (case curDlt m of Inr d \<Rightarrow> Detached d | Inl _ \<Rightarrow> Null)\<rparr>))) (\<lambda>m0.
     rbind (read_dlts P now (unat numDlts) m0) (\<lambda>m1.
     rlift (Inr (fst (DLTManager_setCurrent m1 v))))))))"

section \<open>Lemmas\<close>

lemma find_index_Some:
  "find_index P xs = Some i \<Longrightarrow> i < length xs \<and> P (xs ! i) \<and> (\<forall>j<i. \<not> P (xs ! j))"
proof (induction xs arbitrary: i)
  case (Cons x xs)
  then show ?case by (cases i) (auto split: if_splits simp: less_Suc_eq_0_disj)
qed simp

lemma find_index_None: "find_index P xs = None \<longleftrightarrow> (\<forall>x\<in>set xs. \<not> P x)"
  by (induction xs) auto

lemma find_index_distinct:
  assumes "distinct (map f xs)" "i < length xs"
  shows "find_index (\<lambda>x. f (xs ! i) = f x) xs = Some i"
proof (cases "find_index (\<lambda>x. f (xs ! i) = f x) xs")
  case None
  then show ?thesis using assms(2) by (auto simp: find_index_None)
next
  case (Some j)
  then have "j < length xs" "f (xs ! j) = f (xs ! i)"
    using find_index_Some[OF Some] by auto
  then show ?thesis
    using assms Some nth_eq_iff_index_eq[OF assms(1), of i j] by auto
qed

lemma rows_same_from:
  "set js \<subseteq> {0..<n} \<Longrightarrow> length a = n \<Longrightarrow> length b = n \<Longrightarrow>
   rows_same a b js = Inr (\<forall>j\<in>set js. a ! j = b ! j)"
  by (induction js) auto

lemma rows_same_iff:
  assumes "length a = n" "length b = n"
  shows "rows_same a b [0..<n] = Inr (a = b)"
proof -
  have "(\<forall>j\<in>set [0..<n]. a ! j = b ! j) \<longleftrightarrow> a = b"
    unfolding list_eq_iff_nth_eq[of a b] using assms by (simp add: Ball_def)
  then show ?thesis
    using rows_same_from[of "[0..<n]" n a b, OF _ assms] by simp
qed

text \<open>Sharing columns with the current table does not change the contents of the new one.\<close>

lemma share_column_id:
  assumes "DLT_wf cur" "DLT_wf new" "i < columns cur" "i < columns new"
  shows "share_column cur i new = Inr new"
proof (cases "depth cur = depth new")
  case True
  have "new\<lparr>distList := (distList new)[i := distList new ! i]\<rparr> = new"
    using assms(2,4) by simp
  then show ?thesis
    using True assms rows_same_iff[of "distList cur ! i" "depth new" "distList new ! i"]
    by (auto simp: share_column_def)
qed (use assms in \<open>simp add: share_column_def\<close>)

lemma share_columns_id:
  assumes "DLT_wf cur" "DLT_wf new" "columns new \<le> columns cur"
  shows "foldR (share_column cur) [0..<columns new] new = Inr new"
proof -
  have "foldR (share_column cur) is new = Inr new" if "set is \<subseteq> {0..<columns new}" for "is"
    using that assms by (induction "is") (auto simp: share_column_id)
  then show ?thesis by simp
qed

lemma DLT_copy_fields [simp]:
  "version (DLT_copy d) = version d" "distList (DLT_copy d) = distList d" "depth (DLT_copy d) = depth d"
  "width (DLT_copy d) = width d" "outstanding_io (DLT_copy d) = 0" "cb (DLT_copy d) = None"
  "columns (DLT_copy d) = 2 ^ width d"
  by (simp_all add: DLT_copy_def)

lemma DLT_wf_columns: "DLT_wf d \<Longrightarrow> columns d = 2 ^ width d"
  by (simp add: DLT_wf_def)

section \<open>The invariant of the manager\<close>

definition mgr_ok :: "DLTManager \<Rightarrow> bool" where
  "mgr_ok m \<longleftrightarrow> distinct (getDltVersions m) \<and> (\<forall>d\<in>set (dltList m). DLT_wf d) \<and>
     (if dltList m = [] then curPtr m = Null else \<exists>i<length (dltList m). curPtr m = At i)"

lemma mgr_ok_init [wf_intros]: "mgr_ok (DLTManager_init n)"
  by (simp add: mgr_ok_def DLTManager_init_def getDltVersions_def)

lemma mgr_ok_cur:
  assumes "mgr_ok m" "dltList m \<noteq> []"
  obtains i where "i < length (dltList m)" "curPtr m = At i" "curDlt m = Inr (dltList m ! i)"
  using assms by (auto simp: mgr_ok_def curDlt_def)

text \<open>Replacing a table by one of the same version and contents keeps the invariant.\<close>

lemma mgr_ok_upd:
  assumes "mgr_ok m" "i < length (dltList m)" "version d = version (dltList m ! i)" "DLT_wf d"
  shows "mgr_ok (m\<lparr>dltList := (dltList m)[i := d]\<rparr>)"
proof -
  have "map version ((dltList m)[i := d]) = map version (dltList m)"
    using assms(2,3) by (simp add: map_update list_update_same_conv)
  then show ?thesis
    using assms by (auto simp: mgr_ok_def getDltVersions_def
        dest!: set_update_subset_insert[THEN subsetD])
qed

lemma DLT_wf_io [simp]:
  "DLT_wf (d\<lparr>outstanding_io := n\<rparr>) = DLT_wf d" "DLT_wf (d\<lparr>cb := c\<rparr>) = DLT_wf d"
  "DLT_wf (d\<lparr>closed := b\<rparr>) = DLT_wf d"
  by (simp_all add: DLT_wf_def)

text \<open>What registering the callback does to the current table.\<close>

definition with_callback :: "callback option \<Rightarrow> DLT \<Rightarrow> DLT \<times> fds_errno" where
  "with_callback c d = (case c of None \<Rightarrow> (d, ERR_OK) | Some k \<Rightarrow> setCallback k d)"

lemma with_callback_fields:
  "version (fst (with_callback c d)) = version d" "DLT_wf (fst (with_callback c d)) = DLT_wf d"
  "outstanding_io (fst (with_callback c d)) = outstanding_io d" "columns (fst (with_callback c d)) = columns d"
  by (auto simp: with_callback_def setCallback_def split: option.splits)

lemma add_first:
  "mgr_ok m \<Longrightarrow> dltList m = [] \<Longrightarrow> DLTManager_add m d c = Inr (m\<lparr>dltList := [DLT_copy d], curPtr := At 0\<rparr>, ERR_OK)"
  by (simp add: DLTManager_add_def mgr_ok_def)

lemma add_next:
  assumes ok: "mgr_ok m" and i: "i < length (dltList m)" "curPtr m = At i" and wf: "DLT_wf d"
    and fresh: "version d \<notin> set (getDltVersions m)" and cols: "columns d \<le> columns (dltList m ! i)"
  shows "DLTManager_add m d c =
     Inr (m\<lparr>dltList := (dltList m)[i := fst (with_callback c (dltList m ! i))] @ [DLT_copy d],
           curPtr := At (length (dltList m))\<rparr>, snd (with_callback c (dltList m ! i)))"
proof -
  let ?cur = "fst (with_callback c (dltList m ! i))"
  have wfs: "DLT_wf ?cur" "DLT_wf (DLT_copy d)" "columns (DLT_copy d) \<le> columns ?cur"
    using ok i wf cols DLT_wf_columns[OF wf]
    by (auto simp: with_callback_fields mgr_ok_def intro!: DLT_wf_copy)
  have nodup: "\<not> (\<exists>e\<in>set (dltList m). version e = version d)"
    using fresh by (auto simp: getDltVersions_def image_iff)
  let ?m1 = "m\<lparr>dltList := (dltList m)[i := ?cur]\<rparr>"
  have registered: "(case (curPtr m, c) of
                 (Null, _) \<Rightarrow> Inr (m, ERR_OK)
               | (_, None) \<Rightarrow> Inr (m, ERR_OK)
               | (_, Some k) \<Rightarrow> bindR (curDlt m) (\<lambda>cur.
                   case setCallback k cur of (cur', err) \<Rightarrow> Inr (setCur m cur', err)))
      = Inr (?m1, snd (with_callback c (dltList m ! i)))"
    using i by (cases c) (simp_all add: with_callback_def curDlt_def setCur_def case_prod_beta)
  have cur1: "curDlt ?m1 = Inr ?cur" "dltList ?m1 \<noteq> []"
    using i by (auto simp: curDlt_def)
  have share: "foldR (share_column ?cur) [0..<columns (DLT_copy d)] (DLT_copy d) = Inr (DLT_copy d)"
    by (rule share_columns_id[OF wfs])
  show ?thesis
    unfolding DLTManager_add_def Let_def registered
    using nodup cur1 share by (simp del: DLT_copy_fields(7))
qed

lemma add_duplicate:
  "version d \<in> set (getDltVersions m) \<Longrightarrow> DLTManager_add m d c = Inr (m, ERR_DUPLICATE)"
  by (auto simp: DLTManager_add_def Let_def getDltVersions_def)

section \<open>Requests running under a table\<close>

text \<open>
  A run of the manager together with the number of requests that have locked each version
  and not released it: tables arrive, requests lock the current table and release the
  version they locked, and the current table is switched. A request locks only while the
  64-bit count has room.
\<close>

type_synonym run_state = "DLTManager \<times> (u64 \<Rightarrow> nat)"

inductive dlt_step :: "run_state \<Rightarrow> run_state \<Rightarrow> bool" where
  add: "DLTManager_add m d c = Inr (m', err) \<Longrightarrow> DLT_wf d \<Longrightarrow>
     (\<forall>cur. curDlt m = Inr cur \<longrightarrow> columns d \<le> columns cur) \<Longrightarrow> dlt_step (m, held) (m', held)"
| lock: "DLTManager_getAndLockCurrentVersion m = (m', Some d) \<Longrightarrow> held (version d) + 1 < 2 ^ 64 \<Longrightarrow>
     dlt_step (m, held) (m', held(version d := held (version d) + 1))"
| release: "DLTManager_releaseVersion m v = (m', ERR_OK, fired) \<Longrightarrow> 0 < held v \<Longrightarrow>
     dlt_step (m, held) (m', held(v := held v - 1))"
| current: "DLTManager_setCurrent m v = (m', err) \<Longrightarrow> dlt_step (m, held) (m', held)"

definition run_ok :: "run_state \<Rightarrow> bool" where
  "run_ok r \<longleftrightarrow> mgr_ok (fst r)
     \<and> (\<forall>d\<in>set (dltList (fst r)). unat (outstanding_io d) = snd r (version d))
     \<and> (\<forall>v. v \<notin> set (getDltVersions (fst r)) \<longrightarrow> snd r v = 0)"

lemma run_okD:
  assumes "run_ok (m, held)"
  shows "mgr_ok m" "d \<in> set (dltList m) \<Longrightarrow> unat (outstanding_io d) = held (version d)"
    "v \<notin> set (getDltVersions m) \<Longrightarrow> held v = 0"
  using assms by (auto simp: run_ok_def)

text \<open>One table of the list changes its count of requests.\<close>

lemma run_ok_upd:
  assumes ok: "run_ok (m, held)" and i: "i < length (dltList m)"
    and d: "version d = version (dltList m ! i)" "DLT_wf d" "unat (outstanding_io d) = n"
  shows "run_ok (m\<lparr>dltList := (dltList m)[i := d]\<rparr>, held(version d := n))"
proof -
  have vs: "map version ((dltList m)[i := d]) = map version (dltList m)"
    using i d(1) by (simp add: map_update list_update_same_conv)
  have dist: "distinct (map version (dltList m))"
    using run_okD(1)[OF ok] by (simp add: mgr_ok_def getDltVersions_def)
  have "unat (outstanding_io e) = (held(version d := n)) (version e)"
    if e: "e \<in> set ((dltList m)[i := d])" for e
  proof -
    obtain j where j: "j < length (dltList m)" "e = (dltList m)[i := d] ! j"
      using e unfolding in_set_conv_nth by auto
    show ?thesis
    proof (cases "j = i")
      case True
      then show ?thesis using j d(3) by simp
    next
      case False
      then have "version (dltList m ! j) \<noteq> version d"
        using nth_eq_iff_index_eq[OF dist, of i j] i j(1) d(1) by simp
      then show ?thesis
        using False j run_okD(2)[OF ok nth_mem[OF j(1)]] by simp
    qed
  qed
  moreover have "version d \<in> set (map version (dltList m))"
    using i d(1) by simp
  ultimately show ?thesis
    using mgr_ok_upd[OF run_okD(1)[OF ok] i d(1,2)] run_okD(3)[OF ok] vs
    by (auto simp: run_ok_def getDltVersions_def)
qed

lemma run_ok_cb:
  assumes "run_ok (m, held)" "i < length (dltList m)"
  shows "run_ok (m\<lparr>dltList := (dltList m)[i := fst (with_callback c (dltList m ! i))]\<rparr>, held)"
proof -
  have "dltList m ! i \<in> set (dltList m)" using assms(2) by simp
  then show ?thesis
    using run_ok_upd[OF assms, of "fst (with_callback c (dltList m ! i))"]
      run_okD(1,2)[OF assms(1)] by (simp add: with_callback_fields mgr_ok_def)
qed

lemma run_ok_append:
  assumes ok: "run_ok (m, held)" and d: "DLT_wf d" "outstanding_io d = 0"
    "version d \<notin> set (getDltVersions m)"
  shows "run_ok (m\<lparr>dltList := dltList m @ [d], curPtr := At (length (dltList m))\<rparr>, held)"
  using assms run_okD[OF ok] by (auto simp: run_ok_def mgr_ok_def getDltVersions_def)

lemma add_preserves:
  assumes ok: "run_ok (m, held)" and add: "DLTManager_add m d c = Inr (m', err)" and wf: "DLT_wf d"
    and cols: "\<forall>cur. curDlt m = Inr cur \<longrightarrow> columns d \<le> columns cur"
  shows "run_ok (m', held)"
proof (cases "version d \<in> set (getDltVersions m)")
  case True
  then show ?thesis using add_duplicate[OF True, of c] add ok by simp
next
  case fresh: False
  show ?thesis
  proof (cases "dltList m = []")
    case True
    then show ?thesis
      using add_first[OF run_okD(1)[OF ok] True, of d c] add run_ok_append[OF ok, of "DLT_copy d"]
        fresh wf by (auto intro: DLT_wf_copy)
  next
    case False
    obtain i where i: "i < length (dltList m)" "curPtr m = At i" "curDlt m = Inr (dltList m ! i)"
      using mgr_ok_cur[OF run_okD(1)[OF ok] False] .
    let ?cur = "fst (with_callback c (dltList m ! i))"
    have vs: "getDltVersions (m\<lparr>dltList := (dltList m)[i := ?cur]\<rparr>) = getDltVersions m"
      using i(1) by (simp add: getDltVersions_def map_update list_update_same_conv with_callback_fields)
    have "m' = m\<lparr>dltList := (dltList m)[i := ?cur] @ [DLT_copy d], curPtr := At (length (dltList m))\<rparr>"
      using add_next[OF run_okD(1)[OF ok] i(1,2) wf fresh, of c] cols i(3) add by auto
    then show ?thesis
      using run_ok_append[OF run_ok_cb[OF ok i(1)], of "DLT_copy d" c] vs fresh wf
      by (simp add: DLT_wf_copy)
  qed
qed

lemma lock_preserves:
  assumes ok: "run_ok (m, held)" and lock: "DLTManager_getAndLockCurrentVersion m = (m', Some d)"
    and room: "held (version d) + 1 < 2 ^ 64"
  shows "run_ok (m', held(version d := held (version d) + 1))"
proof -
  have ne: "dltList m \<noteq> []"
    using lock run_okD(1)[OF ok]
    by (auto simp: DLTManager_getAndLockCurrentVersion_def curDlt_def mgr_ok_def)
  obtain i where i: "i < length (dltList m)" "curPtr m = At i" "curDlt m = Inr (dltList m ! i)"
    using mgr_ok_cur[OF run_okD(1)[OF ok] ne] .
  let ?e = "dltList m ! i"
  have e: "?e \<in> set (dltList m)" using i(1) by simp
  have d: "d = ?e\<lparr>outstanding_io := outstanding_io ?e + 1\<rparr>" "m' = m\<lparr>dltList := (dltList m)[i := d]\<rparr>"
    using lock i by (auto simp: DLTManager_getAndLockCurrentVersion_def incRefcnt_def setCur_def)
  have "unat (outstanding_io ?e + 1) = held (version ?e) + 1"
    using run_okD(2)[OF ok e] room d(1) by (simp add: unat_word_ariths)
  then show ?thesis
    using run_ok_upd[OF ok i(1), of d] run_okD(1)[OF ok] e d by (simp add: mgr_ok_def)
qed

text \<open>Releasing a version on which requests are counted.\<close>

lemma release_eq:
  assumes ok: "run_ok (m, held)" and held: "0 < held v" and v: "v \<noteq> 0"
  obtains i where "i < length (dltList m)" "version (dltList m ! i) = v"
    "DLTManager_releaseVersion m v =
       (m\<lparr>dltList := (dltList m)[i := fst (decRefcnt (dltList m ! i))]\<rparr>, ERR_OK,
        snd (snd (decRefcnt (dltList m ! i))))"
    "outstanding_io (dltList m ! i) = of_nat (held v)" "held v < 2 ^ 64"
proof -
  have "v \<in> set (getDltVersions m)"
    using run_okD(3)[OF ok, of v] held by auto
  then obtain i where i: "i < length (dltList m)" "version (dltList m ! i) = v"
    by (auto simp: getDltVersions_def in_set_conv_nth)
  have "distinct (map version (dltList m))"
    using run_okD(1)[OF ok] by (simp add: mgr_ok_def getDltVersions_def)
  from find_index_distinct[OF this i(1)]
  have "find_index (\<lambda>d. v = version d) (dltList m) = Some i"
    by (simp add: i(2))
  moreover have io: "unat (outstanding_io (dltList m ! i)) = held v"
    using run_okD(2)[OF ok nth_mem[OF i(1)]] i(2) by simp
  moreover have "outstanding_io (dltList m ! i) = of_nat (held v)"
    by (simp flip: io)
  moreover have "held v < 2 ^ 64"
    using unsigned_less[where 'a = nat, of "outstanding_io (dltList m ! i)"] io by simp
  ultimately show thesis
    using that i v by (simp add: DLTManager_releaseVersion_def case_prod_beta)
qed

lemma decRefcnt_count:
  assumes "outstanding_io d = of_nat n" "0 < n" "n < 2 ^ 64"
  shows "version (fst (decRefcnt d)) = version d" "DLT_wf (fst (decRefcnt d)) = DLT_wf d"
    "unat (outstanding_io (fst (decRefcnt d))) = n - 1"
    "snd (snd (decRefcnt d)) = (if n = 1 then (case cb d of Some c \<Rightarrow> [c] | None \<Rightarrow> []) else [])"
proof -
  obtain k where k: "n = Suc k" using assms(2) by (cases n) auto
  have u: "unat (of_nat k :: u64) = k"
    using unat_of_nat_lt[where 'a = 64, of k] assms(3) k by simp
  show "version (fst (decRefcnt d)) = version d" "DLT_wf (fst (decRefcnt d)) = DLT_wf d"
    "unat (outstanding_io (fst (decRefcnt d))) = n - 1"
    "snd (snd (decRefcnt d)) = (if n = 1 then (case cb d of Some c \<Rightarrow> [c] | None \<Rightarrow> []) else [])"
    using decRefcnt_step[of d k] assms k u by (auto split: option.splits)
qed

lemma release_preserves:
  assumes ok: "run_ok (m, held)" and rel: "DLTManager_releaseVersion m v = (m', ERR_OK, fired)"
    and held: "0 < held v"
  shows "run_ok (m', held(v := held v - 1))"
proof -
  have v: "v \<noteq> 0"
    using rel by (auto simp: DLTManager_releaseVersion_def)
  obtain i where i: "i < length (dltList m)" "version (dltList m ! i) = v"
    "DLTManager_releaseVersion m v =
       (m\<lparr>dltList := (dltList m)[i := fst (decRefcnt (dltList m ! i))]\<rparr>, ERR_OK,
        snd (snd (decRefcnt (dltList m ! i))))"
    and io: "outstanding_io (dltList m ! i) = of_nat (held v)" "held v < 2 ^ 64"
    using release_eq[OF ok held v] .
  have "DLT_wf (dltList m ! i)"
    using run_okD(1)[OF ok] nth_mem[OF i(1)] by (simp add: mgr_ok_def)
  then show ?thesis
    using run_ok_upd[OF ok i(1), of "fst (decRefcnt (dltList m ! i))" "held v - 1"]
      decRefcnt_count[OF io(1) held io(2)] i rel by simp
qed

lemma setCurrent_preserves:
  assumes ok: "run_ok (m, held)" and "DLTManager_setCurrent m v = (m', err)"
  shows "run_ok (m', held)"
  using assms
  by (auto simp: DLTManager_setCurrent_def run_ok_def mgr_ok_def getDltVersions_def
      dest: find_index_Some split: if_splits option.splits)

lemma dlt_step_ok: "dlt_step r r' \<Longrightarrow> run_ok r \<Longrightarrow> run_ok r'"
  by (induction rule: dlt_step.induct)
    (blast intro: add_preserves lock_preserves release_preserves setCurrent_preserves)+

lemma run_ok_init: "run_ok (DLTManager_init n, \<lambda>_. 0)"
  using mgr_ok_init[of n] by (simp add: run_ok_def DLTManager_init_def)

lemma run_reachable_ok: "dlt_step\<^sup>*\<^sup>* (DLTManager_init n, \<lambda>_. 0) r \<Longrightarrow> run_ok r"
  by (induction rule: rtranclp_induct) (auto intro: run_ok_init dlt_step_ok)

section \<open>Saving and restoring\<close>

definition restored :: "u64 \<Rightarrow> DLT \<Rightarrow> DLT" where
  "restored now d = DLT_copy (DLT_loaded (DLT_init 0 0 0 False now) d)"

lemma restored_fields [simp]:
  "version (restored now d) = version d" "distList (restored now d) = distList d"
  "depth (restored now d) = depth d" "width (restored now d) = width d"
  "columns (restored now d) = 2 ^ width d"
  by (simp_all add: restored_def DLT_loaded_def)

lemma DLT_wf_restored: "DLT_wf d \<Longrightarrow> DLT_wf (restored now d)"
  by (simp add: DLT_wf_def)

definition restoring :: "u64 \<Rightarrow> DLT list \<Rightarrow> DLTManager \<Rightarrow> DLTManager" where
  "restoring now ds m = m\<lparr>dltList := map (restored now) ds,
     curPtr := (if ds = [] then curPtr m else At (length ds - 1))\<rparr>"

text \<open>A table that is read back is added behind the ones before it and becomes current.\<close>

lemma add_restored:
  assumes wf: "\<forall>e\<in>set (ds @ [d]). DLT_wf e \<and> width e = w" and fresh: "version d \<notin> version ` set ds"
  shows "DLTManager_add (restoring now ds m) (DLT_loaded (DLT_init 0 0 0 False now) d) None
       = Inr (restoring now (ds @ [d]) m, ERR_OK)"
proof -
  let ?new = "DLT_copy (DLT_loaded (DLT_init 0 0 0 False now) d)"
  let ?m = "restoring now ds m"
  have nodup: "\<not> (\<exists>e\<in>set (dltList ?m). version e = version ?new)"
    using fresh by (auto simp: restoring_def restored_def[symmetric] image_iff)
  have reg: "(case (curPtr ?m, None) of
                 (Null, _) \<Rightarrow> Inr (?m, ERR_OK)
               | (_, None) \<Rightarrow> Inr (?m, ERR_OK)
               | (_, Some k) \<Rightarrow> bindR (curDlt ?m) (\<lambda>cur.
                   case setCallback k cur of (cur', err) \<Rightarrow> Inr (setCur ?m cur', err)))
       = Inr (?m, ERR_OK)"
    by (simp split: cur_ptr.splits)
  show ?thesis
  proof (cases "ds = []")
    case True
    then show ?thesis
      unfolding DLTManager_add_def Let_def reg using nodup by (simp add: restoring_def restored_def)
  next
    case False
    then have last: "ds ! (length ds - 1) \<in> set ds" by simp
    have cur: "curDlt ?m = Inr (restored now (ds ! (length ds - 1)))" "dltList ?m \<noteq> []"
      using False by (auto simp: curDlt_def restoring_def)
    have "foldR (share_column (restored now (ds ! (length ds - 1)))) [0..<columns ?new] ?new = Inr ?new"
      unfolding restored_def[symmetric]
      using wf last by (intro share_columns_id DLT_wf_restored) auto
    then show ?thesis
      unfolding DLTManager_add_def Let_def reg using nodup cur
      by (simp add: restoring_def restored_def False)
  qed
qed

lemma reads_rlift_bind: "reads (f v) bs w \<Longrightarrow> reads (rbind (rlift (Inr v)) f) bs w"
  by (simp add: reads_def rbind_def rlift_def)

lemma reads_dlts:
  assumes "\<forall>e\<in>set (ds @ es). DLT_wf e \<and> width e = w" "distinct (map version (ds @ es))"
    and "length bss = length es"
    and "\<forall>i<length es. \<forall>d0. reads (DLT_read P d0) (bss ! i) (DLT_loaded d0 (es ! i))"
  shows "reads (read_dlts P now (length es) (restoring now ds m)) (concat bss) (restoring now (ds @ es) m)"
  using assms
proof (induction es arbitrary: ds bss)
  case Nil
  then show ?case by (simp add: reads_rlift)
next
  case (Cons e es)
  then obtain b bs where bss: "bss = b # bs" by (cases bss) auto
  have e: "reads (DLT_read P (DLT_init 0 0 0 False now)) b (DLT_loaded (DLT_init 0 0 0 False now) e)"
    using Cons.prems(4)[rule_format, of 0] by (simp add: bss)
  have "reads (DLT_read P d0) (bs ! i) (DLT_loaded d0 (es ! i))" if "i < length es" for i d0
    using Cons.prems(4)[rule_format, of "Suc i"] that by (simp add: bss)
  then have IH: "reads (read_dlts P now (length es) (restoring now (ds @ [e]) m)) (concat bs)
      (restoring now (ds @ e # es) m)"
    using Cons.IH[of "ds @ [e]" bs] Cons.prems(1-3) by (simp add: bss)
  have "DLTManager_add (restoring now ds m) (DLT_loaded (DLT_init 0 0 0 False now) e) None
       = Inr (restoring now (ds @ [e]) m, ERR_OK)"
    using Cons.prems(1,2) by (intro add_restored[where w = w]) auto
  then show ?case
    using IH by (auto simp: bss intro!: reads_rbind[OF e] reads_rlift_bind)
qed

text \<open>A table that can be written: see the round trip of a single table.\<close>

definition writable :: "DLT \<Rightarrow> bool" where
  "writable d \<longleftrightarrow> DLT_wf d \<and> columns d < 2 ^ 32 \<and> depth d < 2 ^ 32
     \<and> card (fst ` set (DLT_cells d)) \<le> 65536
     \<and> (map_fresh d \<or> (mapNodeTokens d = [] \<and> \<not> mapInitialized d))"

lemma write_readable:
  assumes "tprotocol_ok P" "writable d"
  obtains bs d' where "DLT_write P d = Inr (bs, d')" "distList d' = distList d"
    "\<And>d0. reads (DLT_read P d0) bs (DLT_loaded d0 d)"
  using DLT_write_readable[OF assms(1), of d] assms(2) unfolding writable_def by blast

lemma write_dlts_readable:
  assumes P: "tprotocol_ok P"
  shows "\<forall>d\<in>set ds. writable d \<Longrightarrow>
    \<exists>bss ds'. write_dlts P ds = Inr (concat bss, ds') \<and> length bss = length ds \<and> length ds' = length ds
      \<and> (\<forall>i<length ds. \<forall>d0. reads (DLT_read P d0) (bss ! i) (DLT_loaded d0 (ds ! i)))"
proof (induction ds)
  case Nil
  show ?case by (rule exI[of _ "[]"]) simp
next
  case (Cons d ds)
  obtain bs d' where d: "DLT_write P d = Inr (bs, d')" "\<And>d0. reads (DLT_read P d0) bs (DLT_loaded d0 d)"
    using write_readable[OF P] Cons.prems by (metis list.set_intros(1))
  obtain bss ds' where ds: "write_dlts P ds = Inr (concat bss, ds')" "length bss = length ds" "length ds' = length ds"
    "\<forall>i<length ds. \<forall>d0. reads (DLT_read P d0) (bss ! i) (DLT_loaded d0 (ds ! i))"
    using Cons by auto
  have "\<forall>i<length (d # ds). \<forall>d0. reads (DLT_read P d0) ((bs # bss) ! i) (DLT_loaded d0 ((d # ds) ! i))"
    using d(2) ds(4) by (auto simp: less_Suc_eq_0_disj)
  then show ?case
    using d(1) ds by (intro exI[of _ "bs # bss"] exI[of _ "d' # ds'"]) simp
qed

section \<open>Properties\<close>

lemma find_by_index: "find P xs = map_option ((!) xs) (find_index P xs)"
  by (induction xs) (auto simp: option.map_comp comp_def)

text \<open>
  C2. In every run that starts with an empty manager, the count of a table is the number of
  requests that hold it, and a request that releases the version it holds succeeds; the
  callback registered on that table is called by the release of the last holder and by no
  other.
\<close>

theorem release_in_run:
  assumes "dlt_step\<^sup>*\<^sup>* (DLTManager_init n, \<lambda>_. 0) (m, held)" "0 < held v" "v \<noteq> 0"
  shows "\<exists>d m'. DLTManager_getDLT m v = Some d \<and> unat (outstanding_io d) = held v
     \<and> DLTManager_releaseVersion m v = (m', ERR_OK,
          if held v = 1 then (case cb d of Some c \<Rightarrow> [c] | None \<Rightarrow> []) else [])"
proof -
  have ok: "run_ok (m, held)"
    using run_reachable_ok[OF assms(1)] .
  obtain i where i: "i < length (dltList m)" "version (dltList m ! i) = v"
    "DLTManager_releaseVersion m v =
       (m\<lparr>dltList := (dltList m)[i := fst (decRefcnt (dltList m ! i))]\<rparr>, ERR_OK,
        snd (snd (decRefcnt (dltList m ! i))))"
    and io: "outstanding_io (dltList m ! i) = of_nat (held v)" "held v < 2 ^ 64"
    using release_eq[OF ok assms(2,3)] .
  have "distinct (map version (dltList m))"
    using run_okD(1)[OF ok] by (simp add: mgr_ok_def getDltVersions_def)
  from find_index_distinct[OF this i(1)]
  have "DLTManager_getDLT m v = Some (dltList m ! i)"
    using assms(3) by (simp add: DLTManager_getDLT_def find_by_index i(2))
  then show ?thesis
    using i(3) decRefcnt_count(4)[OF io(1) assms(2) io(2)] run_okD(2)[OF ok nth_mem[OF i(1)]] i(2) by simp
qed

definition wit_mgr :: DLTManager where
  "wit_mgr = \<lparr>curPtr = At 0, dltList = [(DLT_copy wit_dlt)\<lparr>outstanding_io := 1\<rparr>], maxDlts = 2\<rparr>"

lemma wit_run: "dlt_step\<^sup>*\<^sup>* (DLTManager_init 2, \<lambda>_. 0) (wit_mgr, (\<lambda>_. 0)(7 := 1))"
proof -
  let ?m = "\<lparr>curPtr = At 0, dltList = [DLT_copy wit_dlt], maxDlts = 2\<rparr>"
  have v: "version wit_dlt = 7"
    by (simp add: wit_dlt_def DLT_init_def)
  have "DLTManager_add (DLTManager_init 2) wit_dlt None = Inr (?m, ERR_OK)"
    using add_first[OF mgr_ok_init[of 2], of wit_dlt None] by (simp add: DLTManager_init_def)
  from dlt_step.add[OF this wit_dlt_wf]
  have "dlt_step (DLTManager_init 2, \<lambda>_. 0) (?m, \<lambda>_. 0)"
    by (simp add: curDlt_def DLTManager_init_def)
  moreover have "DLTManager_getAndLockCurrentVersion ?m = (wit_mgr, Some ((DLT_copy wit_dlt)\<lparr>outstanding_io := 1\<rparr>))"
    by (simp add: DLTManager_getAndLockCurrentVersion_def curDlt_def incRefcnt_def setCur_def wit_mgr_def)
  from dlt_step.lock[OF this, of "\<lambda>_. 0"]
  have "dlt_step (?m, \<lambda>_. 0) (wit_mgr, (\<lambda>_. 0)(7 := 1))"
    by (simp add: v)
  ultimately show ?thesis
    by (meson rtranclp.rtrancl_into_rtrancl rtranclp.rtrancl_refl)
qed

theorem release_in_run_witness:
  "\<exists>d m'. DLTManager_getDLT wit_mgr 7 = Some d \<and> unat (outstanding_io d) = 1
     \<and> DLTManager_releaseVersion wit_mgr 7 = (m', ERR_OK, case cb d of Some c \<Rightarrow> [c] | None \<Rightarrow> [])"
  using release_in_run[OF wit_run, of 7] by simp

text \<open>
  C11. What the manager saves it restores: for a manager in order whose tables can be
  written, have the same width and number at most 255, with a current version other than 0,
  the bytes it writes are read back by any manager as the same versions with the same
  columns in the same order, with the same table current, and the rest of the stream is
  left.
\<close>

theorem DLTManager_write_read:
  assumes P: "tprotocol_ok P" and ok: "mgr_ok m" and ds: "\<forall>d\<in>set (dltList m). writable d \<and> width d = w"
    and n: "length (dltList m) \<le> 255" and cur: "curDlt m = Inr c" "version c \<noteq> 0"
  shows "\<exists>bs m1. DLTManager_write P m = Inr (bs, m1) \<and> (\<forall>m0 rest. \<exists>m2.
     DLTManager_read P now m0 (bs @ rest) = Inr (m2, rest)
     \<and> getDltVersions m2 = getDltVersions m \<and> map distList (dltList m2) = map distList (dltList m)
     \<and> curPtr m2 = curPtr m \<and> maxDlts m2 = maxDlts m)"
proof -
  obtain bss ds' where w: "write_dlts P (dltList m) = Inr (concat bss, ds')" "length bss = length (dltList m)"
    "\<forall>i<length (dltList m). \<forall>d0. reads (DLT_read P d0) (bss ! i) (DLT_loaded d0 (dltList m ! i))"
    using write_dlts_readable[OF P, of "dltList m"] ds by blast
  have ne: "dltList m \<noteq> []"
    using ok cur(1) by (auto simp: mgr_ok_def curDlt_def)
  obtain i where i: "i < length (dltList m)" "curPtr m = At i" "c = dltList m ! i"
    using mgr_ok_cur[OF ok ne] cur(1) by auto
  let ?bs = "writeI64 P (version c) @ writeByte P (maxDlts m)
      @ writeByte P (of_nat (length (dltList m))) @ concat bss"
  have len: "unat (of_nat (length (dltList m)) :: u8) = length (dltList m)"
    using unat_of_nat_lt[where 'a = 8, of "length (dltList m)"] n by simp
  have dist: "distinct (map version (dltList m))"
    using ok by (simp add: mgr_ok_def getDltVersions_def)
  define m2 where "m2 m0 = (restoring now (dltList m) (m0\<lparr>maxDlts := maxDlts m\<rparr>))\<lparr>curPtr := At i\<rparr>"
    for m0 :: DLTManager
  have "reads (DLTManager_read P now m0) ?bs (m2 m0)" for m0
  proof -
    let ?m0 = "m0\<lparr>maxDlts := maxDlts m, dltList := [],
        curPtr := (case curDlt m0 of Inr d \<Rightarrow> Detached d | Inl _ \<Rightarrow> Null)\<rparr>"
    have r0: "restoring now [] ?m0 = ?m0"
      by (simp add: restoring_def)
    have all: "reads (read_dlts P now (length (dltList m)) ?m0) (concat bss) (restoring now (dltList m) ?m0)"
      using reads_dlts[of "[]" "dltList m" w bss P now ?m0] ds dist w(2,3)
      by (simp add: r0 writable_def)
    have "find_index (\<lambda>d. version c = version d) (map (restored now) (dltList m)) = Some i"
      using find_index_distinct[of version "map (restored now) (dltList m)" i] dist i
      by (simp add: comp_def)
    then have "fst (DLTManager_setCurrent (restoring now (dltList m) ?m0) (version c)) = m2 m0"
      using cur(2) by (simp add: DLTManager_setCurrent_def m2_def restoring_def ne)
    then show ?thesis
      unfolding DLTManager_read_def
      using reads_rbind_rlift[OF all, of "\<lambda>m1. fst (DLTManager_setCurrent m1 (version c))"]
      by (intro reads_rbind[OF reads_protocol(4)[OF P]] reads_rbind[OF reads_protocol(1)[OF P]]
          reads_rlift_bind) (simp add: len)
  qed
  moreover have "DLTManager_write P m = Inr (?bs, m\<lparr>dltList := ds'\<rparr>)"
    using cur(1) w(1) by (simp add: DLTManager_write_def)
  ultimately show ?thesis
    using i by (auto simp: reads_def m2_def restoring_def getDltVersions_def comp_def)
qed

lemma wit_writable: "writable wit_dlt"
  by (simp add: writable_def DLT_cells_def upt_rec card_insert_if)

definition wit_saved :: DLTManager where
  "wit_saved = \<lparr>curPtr = At 0, dltList = [wit_dlt], maxDlts = 2\<rparr>"

theorem DLTManager_write_read_witness:
  "\<exists>bs m1. DLTManager_write be_protocol wit_saved = Inr (bs, m1) \<and> (\<forall>m0 rest. \<exists>m2.
     DLTManager_read be_protocol 0 m0 (bs @ rest) = Inr (m2, rest)
     \<and> getDltVersions m2 = getDltVersions wit_saved
     \<and> map distList (dltList m2) = map distList (dltList wit_saved)
     \<and> curPtr m2 = curPtr wit_saved \<and> maxDlts m2 = maxDlts wit_saved)"
  by (rule DLTManager_write_read[where w = 1 and c = wit_dlt, OF be_protocol_ok])
    (simp_all add: wit_saved_def wit_writable mgr_ok_def getDltVersions_def curDlt_def,
      simp add: wit_dlt_def DLT_init_def)

text \<open>
  Asking the manager for the primary node of an object never returns: the overload
  calls itself with the same argument.
\<close>

theorem getPrimary_obj_diverges: "DLTManager_getPrimary_obj m objId = None"
proof (cases "DLTManager_getPrimary_obj m objId")
  case (Some y)
  then have False
    by (rule DLTManager_getPrimary_obj.raw_induct[rotated]) blast
  then show ?thesis ..
qed

end
