(* ===== verification/Dmt.thy ===== *)
theory Dmt
  imports Svc_State Ordered_Map Serialize Placement_Table
begin

text \<open>
  The data management table: \<^verbatim>\<open>DMT\<close> and \<^verbatim>\<open>DMTManager\<close> of \<^verbatim>\<open>lib/misc/dmt.cpp\<close> and
  \<^verbatim>\<open>include/fds_dmt.h\<close>. The table maps volumes to the data managers responsible for them; the
  manager keeps the committed and the target version and a bounded history.
\<close>

section \<open>The table\<close>

record DMT = fds_table +
  dmt_table :: "TableColumn list"

definition DMT_init :: "nat \<Rightarrow> nat \<Rightarrow> u64 \<Rightarrow> bool \<Rightarrow> DMT" where
  "DMT_init w d v alloc_cols =
     \<lparr>depth = d, width = w, columns = 2 ^ w, version = v, outstanding_io = 0, cb = None,
      dmt_table = (if alloc_cols then replicate (2 ^ w) (TableColumn_init d) else [])\<rparr>"

definition DMT_getNodeGroup :: "DMT \<Rightarrow> nat \<Rightarrow> TableColumn res" where
  "DMT_getNodeGroup dmt col_index = fds_verify (col_index < columns dmt) (vec_at (dmt_table dmt) col_index)"

definition DMT_getNodeGroup_vol :: "DMT \<Rightarrow> u64 \<Rightarrow> TableColumn res" where
  "DMT_getNodeGroup_vol dmt volume_id =
     fds_verify (columns dmt > 0) (vec_at (dmt_table dmt) (unat volume_id mod columns dmt))"

definition getNodeGroupIndex :: "u64 \<Rightarrow> nat \<Rightarrow> nat res" where
  "getNodeGroupIndex volume_id num_columns =
     fds_verify (num_columns > 0) (Inr (unat volume_id mod num_columns))"

definition setNodeGroup :: "DMT \<Rightarrow> nat \<Rightarrow> TableColumn \<Rightarrow> DMT res" where
  "setNodeGroup dmt col_index nodes =
     fds_verify (length nodes = depth dmt)
       (foldR (\<lambda>i d.
           bindR (vec_at (dmt_table d) col_index) (\<lambda>g. bindR (col_get nodes i) (\<lambda>u.
           bindR (col_set g i u) (\<lambda>g'. Inr (d\<lparr>dmt_table := (dmt_table d)[col_index := g']\<rparr>)))))
         [0..<depth dmt] dmt)"

definition DMT_setNode :: "DMT \<Rightarrow> nat \<Rightarrow> nat \<Rightarrow> NodeUuid \<Rightarrow> DMT res" where
  "DMT_setNode dmt col_index row_index uuid =
     fds_verify (col_index < columns dmt) (fds_verify (row_index < depth dmt)
       (bindR (vec_at (dmt_table dmt) col_index) (\<lambda>g.
        bindR (col_set g row_index uuid) (\<lambda>g'.
        Inr (dmt\<lparr>dmt_table := (dmt_table dmt)[col_index := g']\<rparr>)))))"

definition DMT_write :: "tprotocol \<Rightarrow> DMT \<Rightarrow> u8 list res" where
  "DMT_write P dmt =
     foldR (\<lambda>g. foldR (\<lambda>i b. bindR (col_get g i) (\<lambda>uuid. Inr (b @ writeI64 P uuid))) [0..<depth dmt])
       (dmt_table dmt)
       (writeI64 P (version dmt) @ writeI32 P (of_nat (depth dmt)) @ writeI32 P (of_nat (width dmt)))"

definition DMT_read :: "tprotocol \<Rightarrow> DMT \<Rightarrow> DMT reader" where
  "DMT_read P dmt =
     rbind (rd (readI64 P)) (\<lambda>v.
     rbind (rd (readI32 P)) (\<lambda>d.
     rbind (rd (readI32 P)) (\<lambda>w.
     rbind (rtimes (2 ^ unat w) (rtimes (unat d) (rd (readI64 P)))) (\<lambda>groups.
     rlift (Inr (dmt\<lparr>version := v, depth := unat d, width := unat w, columns := 2 ^ unat w,
                     dmt_table := groups\<rparr>))))))"

fun DMT_verify_rows ::
  "om_ext \<Rightarrow> NodeUuid set \<Rightarrow> TableColumn \<Rightarrow> nat list \<Rightarrow> NodeUuid set \<Rightarrow> (fds_errno + NodeUuid set) res" where
  "DMT_verify_rows ext expectedUuidSet column [] colSet = Inr (Inr colSet)"
| "DMT_verify_rows ext expectedUuidSet column (j # js) colSet =
     bindR (col_get column j) (\<lambda>uuid.
       if (uuid = 0 \<or> uuid \<notin> expectedUuidSet) \<and> \<not> isMarkedForRemoval ext uuid
       then Inr (Inl ERR_INVALID_DMT)
       else DMT_verify_rows ext expectedUuidSet column js (insert uuid colSet))"

fun DMT_verify_cols :: "om_ext \<Rightarrow> NodeUuid set \<Rightarrow> DMT \<Rightarrow> nat list \<Rightarrow> fds_errno res" where
  "DMT_verify_cols ext expectedUuidSet dmt [] = Inr ERR_OK"
| "DMT_verify_cols ext expectedUuidSet dmt (i # is) =
     bindR (DMT_getNodeGroup dmt i) (\<lambda>column.
     bindR (DMT_verify_rows ext expectedUuidSet column [0..<depth dmt] {}) (\<lambda>r.
       case r of
         Inl err \<Rightarrow> Inr err
       | Inr colSet \<Rightarrow>
           (if card colSet < depth dmt then Inr ERR_INVALID_DMT
            else DMT_verify_cols ext expectedUuidSet dmt is)))"

definition DMT_verify_expected :: "om_ext \<Rightarrow> DMT \<Rightarrow> NodeUuid set \<Rightarrow> fds_errno res" where
  "DMT_verify_expected ext dmt expectedUuidSet =
     (if depth dmt > card expectedUuidSet + getPendingNodeRemoves ext FDSP_DATA_MGR
      then Inr ERR_INVALID_DMT
      else DMT_verify_cols ext expectedUuidSet dmt [0..<columns dmt])"

fun DMT_verify_nonzero :: "TableColumn \<Rightarrow> nat list \<Rightarrow> NodeUuid set \<Rightarrow> (fds_errno + NodeUuid set) res" where
  "DMT_verify_nonzero column [] nodes = Inr (Inr nodes)"
| "DMT_verify_nonzero column (i # is) nodes =
     bindR (col_get column i) (\<lambda>uuid.
       if uuid = 0 then Inr (Inl ERR_INVALID_DMT)
       else DMT_verify_nonzero column is (insert uuid nodes))"

fun DMT_verify_from :: "nat \<Rightarrow> TableColumn list \<Rightarrow> fds_errno res" where
  "DMT_verify_from d [] = Inr ERR_OK"
| "DMT_verify_from d (g # gs) =
     bindR (DMT_verify_nonzero g [0..<d] {}) (\<lambda>r.
       case r of
         Inl err \<Rightarrow> Inr err
       | Inr nodes \<Rightarrow> (if card nodes \<noteq> d then Inr ERR_INVALID_DMT else DMT_verify_from d gs))"

definition DMT_verify :: "DMT \<Rightarrow> fds_errno res" where
  "DMT_verify dmt = DMT_verify_from (depth dmt) (dmt_table dmt)"

fun DMT_eq_from :: "DMT \<Rightarrow> DMT \<Rightarrow> nat list \<Rightarrow> bool res" where
  "DMT_eq_from dmt rhs [] = Inr True"
| "DMT_eq_from dmt rhs (i # is) =
     bindR (vec_at (dmt_table dmt) i) (\<lambda>myCol. bindR (vec_at (dmt_table rhs) i) (\<lambda>col.
       if \<not> col_eq myCol col then Inr False else DMT_eq_from dmt rhs is))"

definition DMT_eq :: "DMT \<Rightarrow> DMT \<Rightarrow> bool res" where
  "DMT_eq dmt rhs =
     (if depth dmt \<noteq> depth rhs \<or> columns dmt \<noteq> columns rhs then Inr False
      else DMT_eq_from dmt rhs [0..<columns dmt])"

definition getUniqueNodes :: "DMT \<Rightarrow> NodeUuid set res" where
  "getUniqueNodes dmt =
     foldR (\<lambda>g. foldR (\<lambda>i nodes. bindR (col_get g i) (\<lambda>uuid. Inr (insert uuid nodes))) [0..<depth dmt])
       (dmt_table dmt) {}"

definition isVolumeOwnedBySvc :: "DMT \<Rightarrow> u64 \<Rightarrow> NodeUuid \<Rightarrow> bool res" where
  "isVolumeOwnedBySvc dmt volId svcUuid =
     bindR (DMT_getNodeGroup_vol dmt volId) (\<lambda>nodeGroup. Inr (col_find nodeGroup svcUuid \<noteq> -1))"

definition newDMT :: "NodeUuid list \<Rightarrow> DMT res" where
  "newDMT column =
     bindR (foldR (\<lambda>i tc. col_set tc i (column ! i)) [0..<length column] (TableColumn_init (length column)))
       (\<lambda>tc. setNodeGroup (DMT_init 1 (length column) 1 True) 0 tc)"

section \<open>The manager\<close>

datatype DMTType = DMT_COMMITTED | DMT_TARGET | DMT_OLD

definition DMT_VER_INVALID :: u64 where
  "DMT_VER_INVALID = 0"

text \<open>The pointers of the map may be null: \<^verbatim>\<open>operator[]\<close> inserts one for a missing key.\<close>

record DMTManager =
  max_dmts :: nat
  committed_version :: u64
  target_version :: u64
  dmt_map :: "(u64, DMT option) omap"

definition DMTManager_init :: "nat \<Rightarrow> DMTManager" where
  "DMTManager_init history_dmts =
     \<lparr>max_dmts = history_dmts + 2, committed_version = DMT_VER_INVALID,
      target_version = DMT_VER_INVALID, dmt_map = []\<rparr>"

definition set_added_version :: "DMTType \<Rightarrow> u64 \<Rightarrow> DMTManager \<Rightarrow> DMTManager res" where
  "set_added_version dmt_type add_version m =
     (case dmt_type of
        DMT_COMMITTED \<Rightarrow> Inr (m\<lparr>committed_version := add_version\<rparr>)
      | DMT_TARGET \<Rightarrow> Inr (m\<lparr>target_version := add_version\<rparr>)
      | DMT_OLD \<Rightarrow> Inl Panic)"

definition register_on_old :: "u64 \<Rightarrow> callback option \<Rightarrow> DMTManager \<Rightarrow> DMTManager \<times> fds_errno" where
  "register_on_old old_version c m =
     (if old_version \<noteq> DMT_VER_INVALID then
        (case map_of (dmt_map m) old_version of
           None \<Rightarrow> (m\<lparr>dmt_map := omap_put old_version None (dmt_map m)\<rparr>, ERR_OK)
         | Some None \<Rightarrow> (m, ERR_OK)
         | Some (Some old) \<Rightarrow>
             (case c of
                None \<Rightarrow> (m, ERR_OK)
              | Some k \<Rightarrow> (let (old', err) = setCallback k old
                           in (m\<lparr>dmt_map := omap_put old_version (Some old') (dmt_map m)\<rparr>, err))))
      else (m, ERR_OK))"

definition evict_oldest :: "DMTManager \<Rightarrow> DMTManager res" where
  "evict_oldest m =
     (if length (dmt_map m) > max_dmts m then
        (case dmt_map m of
           (_, Some d) # rest \<Rightarrow>
             fds_verify (version d \<noteq> committed_version m) (fds_verify (version d \<noteq> target_version m)
               (Inr (m\<lparr>dmt_map := rest\<rparr>)))
         | _ \<Rightarrow> Inl NullDeref)
      else Inr m)"

definition DMTManager_add ::
  "DMTManager \<Rightarrow> DMT \<Rightarrow> DMTType \<Rightarrow> callback option \<Rightarrow> (DMTManager \<times> fds_errno) res" where
  "DMTManager_add m dmt dmt_type c =
     (let add_version = version dmt in
      if map_of (dmt_map m) add_version \<noteq> None then Inr (m, ERR_DUPLICATE)
      else
        fds_verify (committed_version m \<noteq> add_version)
          (fds_verify (target_version m \<noteq> add_version)
            (bindR (set_added_version dmt_type add_version m) (\<lambda>m1.
               let m2 = m1\<lparr>dmt_map := omap_put add_version (Some dmt) (dmt_map m1)\<rparr>;
                   (m3, err) = register_on_old (committed_version m) c m2
               in bindR (evict_oldest m3) (\<lambda>m4. Inr (m4, err))))))"

definition addSerializedDMT ::
  "tprotocol \<Rightarrow> DMTManager \<Rightarrow> u8 list \<Rightarrow> callback option \<Rightarrow> DMTType \<Rightarrow> (DMTManager \<times> fds_errno) res" where
  "addSerializedDMT P m data c dmt_type =
     bindR (loadSerialized (DMT_read P (DMT_init 0 0 0 False)) data) (\<lambda>(err, d).
       case d of
         Some dmt \<Rightarrow> (if err = ERR_OK then DMTManager_add m dmt dmt_type c else Inr (m, err))
       | None \<Rightarrow> Inr (m, err))"

definition commitDMT :: "DMTManager \<Rightarrow> bool \<Rightarrow> (DMTManager \<times> fds_errno) res" where
  "commitDMT m rmTarget =
     (if target_version m \<noteq> DMT_VER_INVALID then
        fds_verify (map_of (dmt_map m) (target_version m) \<noteq> None)
          (Inr (m\<lparr>committed_version := target_version m,
                  target_version := (if rmTarget then DMT_VER_INVALID else target_version m)\<rparr>, ERR_OK))
      else Inr (m, ERR_NOT_FOUND))"

definition commitDMT_version :: "DMTManager \<Rightarrow> u64 \<Rightarrow> bool \<Rightarrow> (DMTManager \<times> fds_errno) res" where
  "commitDMT_version m v rmTarget =
     (if v \<noteq> DMT_VER_INVALID then
        (if map_of (dmt_map m) v \<noteq> None
         then Inr (m\<lparr>committed_version := v,
                     target_version := (if rmTarget then DMT_VER_INVALID else target_version m)\<rparr>, ERR_OK)
         else fds_verify (dmt_map m = [])
                (Inr (m\<lparr>committed_version := DMT_VER_INVALID, target_version := DMT_VER_INVALID\<rparr>,
                      ERR_NOT_FOUND)))
      else Inr (m\<lparr>committed_version := DMT_VER_INVALID, target_version := DMT_VER_INVALID\<rparr>, ERR_OK))"

definition unsetTarget :: "DMTManager \<Rightarrow> bool \<Rightarrow> (DMTManager \<times> fds_errno) res" where
  "unsetTarget m rmTarget =
     (if target_version m \<noteq> DMT_VER_INVALID then
        fds_verify (map_of (dmt_map m) (target_version m) \<noteq> None)
          (Inr (m\<lparr>dmt_map := (if rmTarget then omap_erase (target_version m) (dmt_map m) else dmt_map m),
                  target_version := DMT_VER_INVALID\<rparr>, ERR_OK))
      else Inr (m, ERR_NOT_FOUND))"

text \<open>The committed table, as the accessors find it.\<close>

definition committedDMT :: "DMTManager \<Rightarrow> DMT res" where
  "committedDMT m =
     (if committed_version m = DMT_VER_INVALID then Inl (Throw ERR_INVALID_DMT)
      else case map_of (dmt_map m) (committed_version m) of
        None \<Rightarrow> Inl Panic
      | Some None \<Rightarrow> Inl NullDeref
      | Some (Some d) \<Rightarrow> Inr d)"

definition DMTManager_getAndLockCurrentVersion :: "DMTManager \<Rightarrow> (DMTManager \<times> u64) res" where
  "DMTManager_getAndLockCurrentVersion m =
     bindR (committedDMT m) (\<lambda>d.
       Inr (m\<lparr>dmt_map := omap_put (committed_version m) (Some (fst (incRefcnt d))) (dmt_map m)\<rparr>,
            committed_version m))"

text \<open>The version to release is not used: the committed table is released.\<close>

definition DMTManager_releaseVersion :: "DMTManager \<Rightarrow> u64 \<Rightarrow> (DMTManager \<times> callback list) res" where
  "DMTManager_releaseVersion m v =
     bindR (committedDMT m) (\<lambda>d.
       let (d', refcnt, fired) = decRefcnt d
       in Inr (m\<lparr>dmt_map := omap_put (committed_version m) (Some d') (dmt_map m)\<rparr>, fired))"

definition getCommittedNodeGroup :: "DMTManager \<Rightarrow> u64 \<Rightarrow> TableColumn res" where
  "getCommittedNodeGroup m vol_id = bindR (committedDMT m) (\<lambda>d. DMT_getNodeGroup_vol d vol_id)"

definition getVersionNodeGroup :: "DMTManager \<Rightarrow> u64 \<Rightarrow> u64 \<Rightarrow> TableColumn res" where
  "getVersionNodeGroup m volume_id v =
     fds_verify (v \<noteq> DMT_VER_INVALID)
       (case map_of (dmt_map m) v of
          None \<Rightarrow> Inl Panic
        | Some None \<Rightarrow> Inl NullDeref
        | Some (Some d) \<Rightarrow> DMT_getNodeGroup_vol d volume_id)"

definition getTargetNodeGroup :: "DMTManager \<Rightarrow> u64 \<Rightarrow> TableColumn res" where
  "getTargetNodeGroup m vol_id = getVersionNodeGroup m vol_id (target_version m)"

definition getDMT :: "DMTManager \<Rightarrow> u64 \<Rightarrow> DMT option" where
  "getDMT m v = (case map_of (dmt_map m) v of Some p \<Rightarrow> p | None \<Rightarrow> None)"

definition getDMT_type :: "DMTManager \<Rightarrow> DMTType \<Rightarrow> DMT option res" where
  "getDMT_type m dmt_type =
     bindR (case dmt_type of
              DMT_COMMITTED \<Rightarrow> Inr (committed_version m)
            | DMT_TARGET \<Rightarrow> Inr (target_version m)
            | DMT_OLD \<Rightarrow> Inl Panic)
       (\<lambda>ver. case map_of (dmt_map m) ver of None \<Rightarrow> Inl Panic | Some p \<Rightarrow> Inr p)"

section \<open>Well-formed tables\<close>

definition DMT_wf :: "DMT \<Rightarrow> bool" where
  "DMT_wf dmt \<longleftrightarrow> columns dmt = 2 ^ width dmt \<and> length (dmt_table dmt) = columns dmt
     \<and> (\<forall>g\<in>set (dmt_table dmt). length g = depth dmt)"

lemma DMT_wf_facts [simp]:
  "DMT_wf d \<Longrightarrow> length (dmt_table d) = columns d"
  "DMT_wf d \<Longrightarrow> c < columns d \<Longrightarrow> length (dmt_table d ! c) = depth d"
  "DMT_wf d \<Longrightarrow> 0 < columns d"
  by (simp_all add: DMT_wf_def)

lemma DMT_wf_init [wf_intros]: "DMT_wf (DMT_init w d v True)"
  by (simp add: DMT_wf_def DMT_init_def TableColumn_init_def)

lemma DMT_wf_io [simp]:
  "DMT_wf (d\<lparr>outstanding_io := n\<rparr>) = DMT_wf d" "DMT_wf (d\<lparr>cb := c\<rparr>) = DMT_wf d"
  by (simp_all add: DMT_wf_def)

lemma DMT_wf_update [wf_intros]:
  "DMT_wf d \<Longrightarrow> length g = depth d \<Longrightarrow> DMT_wf (d\<lparr>dmt_table := (dmt_table d)[c := g]\<rparr>)"
  by (auto simp: DMT_wf_def dest!: set_update_subset_insert[THEN subsetD])

lemma DMT_getNodeGroup_wf [table_simps]:
  "DMT_wf d \<Longrightarrow> c < columns d \<Longrightarrow> DMT_getNodeGroup d c = Inr (dmt_table d ! c)"
  by (simp add: DMT_getNodeGroup_def)

lemma DMT_getNodeGroup_vol_wf [table_simps]:
  "DMT_wf d \<Longrightarrow> DMT_getNodeGroup_vol d v = Inr (dmt_table d ! (unat v mod columns d))"
  by (simp add: DMT_getNodeGroup_vol_def)

definition DMT_getCell :: "DMT \<Rightarrow> nat \<Rightarrow> nat \<Rightarrow> NodeUuid res" where
  "DMT_getCell d c r = bindR (DMT_getNodeGroup d c) (\<lambda>g. col_get g r)"

lemma DMT_setNode_wf [table_simps]:
  "DMT_wf d \<Longrightarrow> c < columns d \<Longrightarrow> r < depth d \<Longrightarrow>
   DMT_setNode d c r u = Inr (d\<lparr>dmt_table := (dmt_table d)[c := (dmt_table d ! c)[r := u]]\<rparr>)"
  by (simp add: DMT_setNode_def)

interpretation dmt: cell_table depth columns DMT_getCell DMT_setNode DMT_wf
proof unfold_locales
  fix d :: DMT and c r u
  assume "DMT_wf d" "c < columns d" "r < depth d"
  then show "\<exists>d'. DMT_setNode d c r u = Inr d' \<and> DMT_wf d' \<and> depth d' = depth d \<and> columns d' = columns d"
    by (auto simp: table_simps intro!: DMT_wf_update)
next
  fix d :: DMT and c r u d' c' r'
  assume wf: "DMT_wf d" and "DMT_setNode d c r u = Inr d'"
  then have d': "c < columns d" "r < depth d" "d' = d\<lparr>dmt_table := (dmt_table d)[c := (dmt_table d ! c)[r := u]]\<rparr>"
    by (auto simp: DMT_setNode_def res_simps)
  then show "DMT_getCell d' c' r' = (if c' = c \<and> r' = r then Inr u else DMT_getCell d c' r')"
    using wf by (auto simp: DMT_getCell_def DMT_getNodeGroup_def col_get_def fds_verify_def nth_list_update)
qed

subsection \<open>Setting a whole column\<close>

lemma setNodeGroup_loop:
  assumes "DMT_wf d" "c < columns d" "length nodes = depth d" "n \<le> depth d"
  shows "foldR (\<lambda>i d.
           bindR (vec_at (dmt_table d) c) (\<lambda>g. bindR (col_get nodes i) (\<lambda>u.
           bindR (col_set g i u) (\<lambda>g'. Inr (d\<lparr>dmt_table := (dmt_table d)[c := g']\<rparr>)))))
         [0..<n] d
       = Inr (d\<lparr>dmt_table := (dmt_table d)[c := take n nodes @ drop n (dmt_table d ! c)]\<rparr>)"
  using assms(4)
proof (induction n)
  case 0
  then show ?case using assms(1,2) by simp
next
  case (Suc n)
  have "(take n nodes @ drop n (dmt_table d ! c))[n := nodes ! n]
      = take (Suc n) nodes @ drop (Suc n) (dmt_table d ! c)"
    using Suc.prems assms by (intro nth_equalityI) (auto simp: nth_append nth_list_update less_Suc_eq)
  then show ?case
    using Suc assms by (simp add: foldR_append)
qed

lemma setNodeGroup_wf [table_simps]:
  assumes "DMT_wf d" "c < columns d" "length nodes = depth d"
  shows "setNodeGroup d c nodes = Inr (d\<lparr>dmt_table := (dmt_table d)[c := nodes]\<rparr>)"
  using setNodeGroup_loop[OF assms order_refl] assms by (simp add: setNodeGroup_def)

subsection \<open>Comparison and validity\<close>

lemma DMT_eq_from_wf:
  "DMT_wf d \<Longrightarrow> DMT_wf e \<Longrightarrow> columns d = columns e \<Longrightarrow> set is \<subseteq> {0..<columns d} \<Longrightarrow>
   DMT_eq_from d e is = Inr (\<forall>i\<in>set is. dmt_table d ! i = dmt_table e ! i)"
  by (induction "is") auto

lemma DMT_eq_wf:
  assumes "DMT_wf d" "DMT_wf e"
  shows "DMT_eq d e = Inr (depth d = depth e \<and> dmt_table d = dmt_table e)"
proof -
  have "dmt_table d = dmt_table e \<longleftrightarrow> (\<forall>i\<in>set [0..<columns d]. dmt_table d ! i = dmt_table e ! i)"
    if "columns d = columns e"
    using that assms by (auto simp: list_eq_iff_nth_eq)
  moreover have "dmt_table d \<noteq> dmt_table e" if "columns d \<noteq> columns e"
    using that assms by (metis DMT_wf_facts(1))
  ultimately show ?thesis
    using DMT_eq_from_wf[OF assms, of "[0..<columns d]"] by (auto simp: DMT_eq_def)
qed

definition DMT_column_ok :: "om_ext \<Rightarrow> NodeUuid set \<Rightarrow> TableColumn \<Rightarrow> bool" where
  "DMT_column_ok ext X g \<longleftrightarrow> distinct g \<and> (\<forall>u\<in>set g. u \<noteq> 0 \<and> u \<in> X \<or> isMarkedForRemoval ext u)"

lemma DMT_rows_from:
  "set js \<subseteq> {0..<length g} \<Longrightarrow> DMT_verify_rows ext X g js S =
     Inr (if \<exists>j\<in>set js. (g ! j = 0 \<or> g ! j \<notin> X) \<and> \<not> isMarkedForRemoval ext (g ! j)
          then Inl ERR_INVALID_DMT else Inr (S \<union> (!) g ` set js))"
  by (induction js arbitrary: S) auto

lemma DMT_nonzero_from:
  "set js \<subseteq> {0..<length g} \<Longrightarrow> DMT_verify_nonzero g js S =
     Inr (if \<exists>j\<in>set js. g ! j = 0 then Inl ERR_INVALID_DMT else Inr (S \<union> (!) g ` set js))"
  by (induction js arbitrary: S) auto

lemma nth_range: "length g = n \<Longrightarrow> (!) g ` set [0..<n] = set g"
  using List.nth_image[of n g] by simp

lemma ex_range: "length g = n \<Longrightarrow> (\<exists>j\<in>set [0..<n]. Q (g ! j)) \<longleftrightarrow> (\<exists>u\<in>set g. Q u)"
  using nth_range[of g n] by (metis (no_types, lifting) image_iff)

lemma DMT_rows_column:
  assumes "length g = n"
  shows "DMT_verify_rows ext X g [0..<n] {} =
     Inr (if \<forall>u\<in>set g. u \<noteq> 0 \<and> u \<in> X \<or> isMarkedForRemoval ext u then Inr (set g) else Inl ERR_INVALID_DMT)"
proof -
  have "set [0..<n] \<subseteq> {0..<length g}" using assms by simp
  from DMT_rows_from[OF this, of ext X "{}"] show ?thesis
    unfolding nth_range[OF assms]
      ex_range[OF assms, of "\<lambda>u. (u = 0 \<or> u \<notin> X) \<and> \<not> isMarkedForRemoval ext u"] by auto
qed

lemma DMT_nonzero_column:
  assumes "length g = n"
  shows "DMT_verify_nonzero g [0..<n] {} = Inr (if 0 \<in> set g then Inl ERR_INVALID_DMT else Inr (set g))"
proof -
  have "set [0..<n] \<subseteq> {0..<length g}" using assms by simp
  from DMT_nonzero_from[OF this, of "{}"] show ?thesis
    unfolding nth_range[OF assms] ex_range[OF assms, of "\<lambda>u. u = 0"] by auto
qed

lemma DMT_cols_wf:
  "DMT_wf d \<Longrightarrow> set is \<subseteq> {0..<columns d} \<Longrightarrow> DMT_verify_cols ext X d is =
     Inr (if \<forall>i\<in>set is. DMT_column_ok ext X (dmt_table d ! i) then ERR_OK else ERR_INVALID_DMT)"
proof (induction "is")
  case (Cons i js)
  then have len: "length (dmt_table d ! i) = depth d" by simp
  then have "card (set (dmt_table d ! i)) < depth d \<longleftrightarrow> \<not> distinct (dmt_table d ! i)"
    using card_set_lt_length_iff[of "dmt_table d ! i"] by simp
  then show ?case
    using Cons by (auto simp: table_simps DMT_rows_column[OF len] DMT_column_ok_def)
qed simp

lemma DMT_verify_expected_wf:
  assumes "DMT_wf d"
  shows "DMT_verify_expected ext d X = Inr (if depth d \<le> card X + getPendingNodeRemoves ext FDSP_DATA_MGR
      \<and> (\<forall>g\<in>set (dmt_table d). DMT_column_ok ext X g) then ERR_OK else ERR_INVALID_DMT)"
  using DMT_cols_wf[OF assms, of "[0..<columns d]" ext X] assms
  by (auto simp: DMT_verify_expected_def all_set_conv_all_nth)

lemma DMT_verify_from_wf:
  "\<forall>g\<in>set gs. length g = d \<Longrightarrow>
   DMT_verify_from d gs = Inr (if \<forall>g\<in>set gs. distinct g \<and> 0 \<notin> set g then ERR_OK else ERR_INVALID_DMT)"
proof (induction gs)
  case (Cons g gs)
  then have "card (set g) \<noteq> d \<longleftrightarrow> \<not> distinct g"
    using card_distinct[of g] distinct_card[of g] by auto
  then show ?case
    using Cons by (auto simp: DMT_nonzero_column)
qed simp

lemma DMT_verify_wf:
  "DMT_wf d \<Longrightarrow> DMT_verify d =
     Inr (if \<forall>g\<in>set (dmt_table d). distinct g \<and> 0 \<notin> set g then ERR_OK else ERR_INVALID_DMT)"
  using DMT_verify_from_wf[of "dmt_table d" "depth d"] by (simp add: DMT_verify_def DMT_wf_def)

subsection \<open>Writing and reading back\<close>

lemma DMT_write_rows:
  assumes "length g = n"
  shows "foldR (\<lambda>i b. bindR (col_get g i) (\<lambda>u. Inr (b @ w u))) [0..<n] b = Inr (b @ concat (map w g))"
proof -
  have "foldR (\<lambda>i b. bindR (col_get g i) (\<lambda>u. Inr (b @ w u))) [0..<k] b = Inr (b @ concat (map w (take k g)))"
    if "k \<le> n" for k
    using that assms by (induction k) (simp_all add: foldR_append take_Suc_conv_app_nth)
  from this[of n] show ?thesis using assms by simp
qed

lemma DMT_write_wf:
  assumes "DMT_wf d"
  shows "DMT_write P d = Inr (writeI64 P (version d) @ writeI32 P (of_nat (depth d))
     @ writeI32 P (of_nat (width d)) @ concat (map (\<lambda>g. concat (map (writeI64 P) g)) (dmt_table d)))"
proof -
  have "foldR (\<lambda>g. foldR (\<lambda>i b. bindR (col_get g i) (\<lambda>u. Inr (b @ writeI64 P u))) [0..<depth d]) gs b
      = Inr (b @ concat (map (\<lambda>g. concat (map (writeI64 P) g)) gs))"
    if "set gs \<subseteq> set (dmt_table d)" for gs b
    using that assms by (induction gs arbitrary: b) (auto simp: DMT_write_rows DMT_wf_def)
  from this[OF order_refl] show ?thesis
    by (simp add: DMT_write_def)
qed

definition DMT_loaded :: "DMT \<Rightarrow> DMT \<Rightarrow> DMT" where
  "DMT_loaded d0 d = d0\<lparr>version := version d, depth := depth d, width := width d,
     columns := columns d, dmt_table := dmt_table d\<rparr>"

lemma DMT_reads:
  assumes P: "tprotocol_ok P" and wf: "DMT_wf d" and small: "width d < 2 ^ 32" "depth d < 2 ^ 32"
  shows "reads (DMT_read P d0) (writeI64 P (version d) @ writeI32 P (of_nat (depth d))
     @ writeI32 P (of_nat (width d)) @ concat (map (\<lambda>g. concat (map (writeI64 P) g)) (dmt_table d)))
     (DMT_loaded d0 d)"
proof -
  have unats: "unat (of_nat (width d) :: u32) = width d" "unat (of_nat (depth d) :: u32) = depth d"
    using unat_of_nat_lt[where 'a = 32] small by simp_all
  have cells: "reads (rtimes (2 ^ width d) (rtimes (depth d) (rd (readI64 P))))
      (concat (map (\<lambda>g. concat (map (writeI64 P) g)) (dmt_table d))) (dmt_table d)"
  proof (rule reads_rtimes)
    fix g assume "g \<in> set (dmt_table d)"
    then show "reads (rtimes (depth d) (rd (readI64 P))) (concat (map (writeI64 P) g)) g"
      using wf by (intro reads_rtimes reads_protocol[OF P]) (simp add: DMT_wf_def)
  qed (use wf in \<open>simp add: DMT_wf_def\<close>)
  have c: "columns d = 2 ^ width d"
    using wf by (simp add: DMT_wf_def)
  show ?thesis
    unfolding DMT_read_def
    apply (rule reads_rbind, rule reads_protocol[OF P])+
    apply (simp only: unats DMT_loaded_def c)
    apply (rule reads_rbind_rlift[OF cells])
    done
qed

section \<open>The invariant of the manager\<close>

definition dmt_entry_ok :: "u64 \<Rightarrow> DMT option \<Rightarrow> bool" where
  "dmt_entry_ok k p \<longleftrightarrow> k \<noteq> DMT_VER_INVALID \<and> (\<exists>d. p = Some d \<and> version d = k \<and> DMT_wf d)"

text \<open>A version that is recorded names a table of the map.\<close>

definition known :: "DMTManager \<Rightarrow> u64 \<Rightarrow> bool" where
  "known m v \<longleftrightarrow> v = DMT_VER_INVALID \<or> map_of (dmt_map m) v \<noteq> None"

definition dmt_mgr_ok :: "DMTManager \<Rightarrow> bool" where
  "dmt_mgr_ok m \<longleftrightarrow> omap_ok (dmt_map m) \<and> (\<forall>k p. map_of (dmt_map m) k = Some p \<longrightarrow> dmt_entry_ok k p)
     \<and> known m (committed_version m) \<and> known m (target_version m) \<and> length (dmt_map m) \<le> max_dmts m"

lemma dmt_mgr_ok_init [wf_intros]: "dmt_mgr_ok (DMTManager_init h)"
  by (simp add: dmt_mgr_ok_def known_def DMTManager_init_def)

lemma dmt_mgr_entry:
  "dmt_mgr_ok m \<Longrightarrow> map_of (dmt_map m) k = Some p \<Longrightarrow> \<exists>d. p = Some d \<and> version d = k \<and> DMT_wf d"
  by (auto simp: dmt_mgr_ok_def dmt_entry_ok_def)

text \<open>Replacing the table of a version that the map holds.\<close>

lemma dmt_mgr_put:
  assumes "dmt_mgr_ok m" "map_of (dmt_map m) k \<noteq> None" "version d = k" "DMT_wf d"
  shows "dmt_mgr_ok (m\<lparr>dmt_map := omap_put k (Some d) (dmt_map m)\<rparr>)"
  using assms
  by (auto simp: dmt_mgr_ok_def dmt_entry_ok_def known_def map_of_omap_put omap_ok_put length_omap_put)

lemma committedDMT_ok:
  assumes "dmt_mgr_ok m"
  shows "(committed_version m = DMT_VER_INVALID \<and> committedDMT m = Inl (Throw ERR_INVALID_DMT)) \<or>
    (\<exists>d. committedDMT m = Inr d \<and> map_of (dmt_map m) (committed_version m) = Some (Some d)
        \<and> version d = committed_version m \<and> DMT_wf d)"
proof (cases "committed_version m = DMT_VER_INVALID")
  case False
  then obtain p where p: "map_of (dmt_map m) (committed_version m) = Some p"
    using assms by (auto simp: dmt_mgr_ok_def known_def)
  then show ?thesis
    using dmt_mgr_entry[OF assms p] False by (auto simp: committedDMT_def)
qed (simp add: committedDMT_def)

lemma lock_ok:
  assumes "dmt_mgr_ok m" "DMTManager_getAndLockCurrentVersion m = Inr (m', v)"
  shows "dmt_mgr_ok m'"
  using committedDMT_ok[OF assms(1)] assms
  by (auto simp: DMTManager_getAndLockCurrentVersion_def res_simps incRefcnt_def intro!: dmt_mgr_put)

lemma decRefcnt_DMT:
  "version (fst (decRefcnt d)) = version d" "DMT_wf (fst (decRefcnt d)) = DMT_wf d"
  by (simp_all add: decRefcnt_def Let_def split: option.splits)

lemma release_ok:
  assumes "dmt_mgr_ok m" "DMTManager_releaseVersion m v = Inr (m', fired)"
  shows "dmt_mgr_ok m'"
  using committedDMT_ok[OF assms(1)] assms
  by (auto simp: DMTManager_releaseVersion_def res_simps case_prod_beta decRefcnt_DMT intro!: dmt_mgr_put)

lemma commit_ok:
  assumes "dmt_mgr_ok m" "commitDMT m rm = Inr (m', err)"
  shows "dmt_mgr_ok m'"
  using assms
  by (auto simp: commitDMT_def res_simps dmt_mgr_ok_def known_def split: if_splits)

lemma commit_version_ok:
  assumes "dmt_mgr_ok m" "commitDMT_version m v rm = Inr (m', err)"
  shows "dmt_mgr_ok m'"
  using assms
  by (auto simp: commitDMT_version_def res_simps dmt_mgr_ok_def known_def split: if_splits)

lemma unset_ok:
  assumes "dmt_mgr_ok m" "unsetTarget m rm = Inr (m', err)" "rm \<longrightarrow> target_version m \<noteq> committed_version m"
  shows "dmt_mgr_ok m'"
  using assms length_omap_erase[of "target_version m" "dmt_map m"]
  by (auto simp: unsetTarget_def res_simps dmt_mgr_ok_def known_def map_of_omap_erase omap_ok_erase
      split: if_splits)

text \<open>Adding a table: the map before the eviction may be one too long.\<close>

lemma register_ok:
  assumes ok: "omap_ok (dmt_map m)" "\<forall>k p. map_of (dmt_map m) k = Some p \<longrightarrow> dmt_entry_ok k p"
    and "known m v" "register_on_old v c m = (m', err)"
  shows "omap_ok (dmt_map m') \<and> (\<forall>k p. map_of (dmt_map m') k = Some p \<longrightarrow> dmt_entry_ok k p)
     \<and> (\<forall>k. map_of (dmt_map m') k = None \<longleftrightarrow> map_of (dmt_map m) k = None)
     \<and> length (dmt_map m') = length (dmt_map m) \<and> committed_version m' = committed_version m
     \<and> target_version m' = target_version m \<and> max_dmts m' = max_dmts m"
proof (cases "v = DMT_VER_INVALID")
  case True
  then show ?thesis using assms by (simp add: register_on_old_def)
next
  case False
  then obtain p where p: "map_of (dmt_map m) v = Some p"
    using assms(3) by (auto simp: known_def)
  then obtain d where d: "p = Some d" "version d = v" "DMT_wf d"
    using ok(2) by (auto simp: dmt_entry_ok_def)
  define d' where "d' = (case c of None \<Rightarrow> d | Some k \<Rightarrow> fst (setCallback k d))"
  have "dmt_entry_ok v (Some d')"
    using False d by (auto simp: d'_def dmt_entry_ok_def setCallback_def split: option.splits)
  moreover have m': "m' = m \<or> m' = m\<lparr>dmt_map := omap_put v (Some d') (dmt_map m)\<rparr>"
    using assms(4) False p d(1)
    by (auto simp: register_on_old_def d'_def case_prod_beta split: option.splits)
  ultimately show ?thesis
    using ok p m' by (elim disjE) (simp_all add: map_of_omap_put omap_ok_put length_omap_put)
qed

lemma evict_ok:
  assumes ok: "omap_ok (dmt_map m)" "\<forall>k p. map_of (dmt_map m) k = Some p \<longrightarrow> dmt_entry_ok k p"
    "known m (committed_version m)" "known m (target_version m)" "length (dmt_map m) \<le> Suc (max_dmts m)"
    and "evict_oldest m = Inr m'"
  shows "dmt_mgr_ok m'"
proof (cases "length (dmt_map m) > max_dmts m")
  case False
  then show ?thesis using assms by (simp add: evict_oldest_def dmt_mgr_ok_def)
next
  case True
  then obtain k p rest where m: "dmt_map m = (k, p) # rest"
    by (cases "dmt_map m") auto
  obtain d where d: "p = Some d" "version d = k"
    using ok(2)[rule_format, of k p] by (auto simp: m dmt_entry_ok_def)
  have m': "m' = m\<lparr>dmt_map := rest\<rparr>" "k \<noteq> committed_version m" "k \<noteq> target_version m"
    using True assms(6) by (auto simp: evict_oldest_def m d res_simps)
  have rest: "omap_ok rest" "map_of rest k = None"
    using ok(1) map_of_not_key[of rest k] by (auto simp: m omap_ok_Cons)
  have keep: "map_of (dmt_map m) j = map_of rest j" if "j \<noteq> k" for j
    using that by (simp add: m)
  have "dmt_entry_ok j q" if "map_of rest j = Some q" for j q
    using ok(2)[rule_format, of j q] keep[of j] rest(2) that by (cases "j = k") auto
  moreover have "known m' (committed_version m)" "known m' (target_version m)"
    using ok(3,4) keep m' by (auto simp: known_def)
  ultimately show ?thesis
    using ok(5) m' rest(1) by (simp add: dmt_mgr_ok_def m)
qed

lemma add_ok:
  assumes ok: "dmt_mgr_ok m" and d: "DMT_wf d" "version d \<noteq> DMT_VER_INVALID"
    and add: "DMTManager_add m d ty c = Inr (m', err)"
  shows "dmt_mgr_ok m'"
proof (cases "map_of (dmt_map m) (version d)")
  case (Some p)
  then show ?thesis using ok add by (simp add: DMTManager_add_def)
next
  case None
  obtain m1 where m1: "set_added_version ty (version d) m = Inr m1"
    using add None by (auto simp: DMTManager_add_def Let_def res_simps)
  let ?m2 = "m1\<lparr>dmt_map := omap_put (version d) (Some d) (dmt_map m1)\<rparr>"
  obtain m3 e where m3: "register_on_old (committed_version m) c ?m2 = (m3, e)"
    by fastforce
  have ev: "evict_oldest m3 = Inr m'"
    using add None m1 m3 by (auto simp: DMTManager_add_def res_simps Let_def)
  have m1': "dmt_map m1 = dmt_map m" "max_dmts m1 = max_dmts m"
    "committed_version m1 \<in> {version d, committed_version m}" "target_version m1 \<in> {version d, target_version m}"
    using m1 by (auto simp: set_added_version_def split: DMTType.splits)
  have m2: "omap_ok (dmt_map ?m2)" "\<forall>k p. map_of (dmt_map ?m2) k = Some p \<longrightarrow> dmt_entry_ok k p"
    "known ?m2 (committed_version m)" "length (dmt_map ?m2) = Suc (length (dmt_map m))"
    "known ?m2 (committed_version m1)" "known ?m2 (target_version m1)"
    using ok d None m1'
    by (auto simp: dmt_mgr_ok_def omap_ok_put map_of_omap_put length_omap_put known_def dmt_entry_ok_def)
  note r = register_ok[OF m2(1-3) m3]
  have len: "length (dmt_map m3) \<le> Suc (max_dmts m3)"
    using r m2(4) m1'(2) ok by (simp add: dmt_mgr_ok_def)
  have kn: "known m3 (committed_version m3)" "known m3 (target_version m3)"
    using r m2(5,6) by (auto simp: known_def)
  show ?thesis
    by (rule evict_ok[OF _ _ kn len ev]) (use r in blast)+
qed

section \<open>Runs of the manager\<close>

text \<open>
  The operations in any order, under what the callers ensure: tables that are added are well
  formed and have a version, and the target is removed from the map only while another
  version is committed.
\<close>

inductive dmt_step :: "DMTManager \<Rightarrow> DMTManager \<Rightarrow> bool" where
  add: "DMTManager_add m d ty c = Inr (m', err) \<Longrightarrow> DMT_wf d \<Longrightarrow> version d \<noteq> DMT_VER_INVALID \<Longrightarrow> dmt_step m m'"
| commit: "commitDMT m rm = Inr (m', err) \<Longrightarrow> dmt_step m m'"
| commit_version: "commitDMT_version m v rm = Inr (m', err) \<Longrightarrow> dmt_step m m'"
| unset: "unsetTarget m rm = Inr (m', err) \<Longrightarrow> rm \<longrightarrow> target_version m \<noteq> committed_version m \<Longrightarrow> dmt_step m m'"
| lock: "DMTManager_getAndLockCurrentVersion m = Inr (m', v) \<Longrightarrow> dmt_step m m'"
| release: "DMTManager_releaseVersion m v = Inr (m', fired) \<Longrightarrow> dmt_step m m'"

lemma dmt_step_ok: "dmt_step m m' \<Longrightarrow> dmt_mgr_ok m \<Longrightarrow> dmt_mgr_ok m'"
  by (induction rule: dmt_step.induct)
    (blast intro: add_ok commit_ok commit_version_ok unset_ok lock_ok release_ok)+

lemma dmt_reachable_ok: "dmt_step\<^sup>*\<^sup>* (DMTManager_init h) m \<Longrightarrow> dmt_mgr_ok m"
  by (induction rule: rtranclp_induct) (auto intro: dmt_mgr_ok_init dmt_step_ok)

section \<open>Properties\<close>

text \<open>
  C8. In every run of the manager under its callers' discipline, at most the configured
  number of tables is kept, and as long as a version is committed the lookup of the node
  group of any volume returns a full column of the committed table: neither the check for a
  missing table nor a null pointer is reached.
\<close>

theorem committed_lookup_total:
  assumes "dmt_step\<^sup>*\<^sup>* (DMTManager_init h) m"
  shows "length (dmt_map m) \<le> max_dmts m
     \<and> (committed_version m \<noteq> DMT_VER_INVALID \<longrightarrow>
          (\<exists>d. getDMT m (committed_version m) = Some d \<and>
             getCommittedNodeGroup m vol = Inr (dmt_table d ! (unat vol mod columns d)) \<and>
             length (dmt_table d ! (unat vol mod columns d)) = depth d))"
proof -
  have ok: "dmt_mgr_ok m"
    using dmt_reachable_ok[OF assms] .
  show ?thesis
  proof (intro conjI impI)
    show "length (dmt_map m) \<le> max_dmts m"
      using ok by (simp add: dmt_mgr_ok_def)
    assume "committed_version m \<noteq> DMT_VER_INVALID"
    then obtain d where "committedDMT m = Inr d" "DMT_wf d"
      "map_of (dmt_map m) (committed_version m) = Some (Some d)"
      using committedDMT_ok[OF ok] by auto
    then show "\<exists>d. getDMT m (committed_version m) = Some d \<and>
        getCommittedNodeGroup m vol = Inr (dmt_table d ! (unat vol mod columns d)) \<and>
        length (dmt_table d ! (unat vol mod columns d)) = depth d"
      by (intro exI[of _ d]) (simp add: getDMT_def getCommittedNodeGroup_def table_simps)
  qed
qed

definition wit_dmt :: "u64 \<Rightarrow> DMT" where
  "wit_dmt v = (DMT_init 1 2 v True)\<lparr>dmt_table := [[1, 2], [2, 3]]\<rparr>"

lemma wit_dmt_facts [simp]:
  "DMT_wf (wit_dmt v)" "version (wit_dmt v) = v" "columns (wit_dmt v) = 2" "depth (wit_dmt v) = 2"
  "dmt_table (wit_dmt v) = [[1, 2], [2, 3]]" "width (wit_dmt v) = 1" "outstanding_io (wit_dmt v) = 0"
  by (simp_all add: wit_dmt_def DMT_wf_def DMT_init_def)

definition wit_dmts :: DMTManager where
  "wit_dmts = \<lparr>max_dmts = 2, committed_version = 5, target_version = 0, dmt_map = [(5, Some (wit_dmt 5))]\<rparr>"

lemma wit_dmt_run: "dmt_step\<^sup>*\<^sup>* (DMTManager_init 0) wit_dmts"
proof -
  have "DMTManager_add (DMTManager_init 0) (wit_dmt 5) DMT_COMMITTED None = Inr (wit_dmts, ERR_OK)"
    by (simp add: DMTManager_add_def DMTManager_init_def set_added_version_def register_on_old_def
        evict_oldest_def wit_dmts_def omap_put_def DMT_VER_INVALID_def Let_def)
  then have "dmt_step (DMTManager_init 0) wit_dmts"
    by (rule dmt_step.add) (simp_all add: DMT_VER_INVALID_def)
  then show ?thesis by simp
qed

theorem committed_lookup_total_witness:
  "\<exists>d. getDMT wit_dmts 5 = Some d \<and> getCommittedNodeGroup wit_dmts 9 = Inr (dmt_table d ! (9 mod columns d))"
  using committed_lookup_total[OF wit_dmt_run, of 9]
  by (auto simp: wit_dmts_def DMT_VER_INVALID_def)

text \<open>
  C27. Releasing a version after the committed table has changed releases the wrong one: a
  request that locked version \<open>a\<close> and releases it after version \<open>b\<close> was committed with a
  callback leaves the count of \<open>a\<close> and its callback as they are, and takes the count of
  \<open>b\<close>, which no request holds, below zero, where it wraps around.
\<close>

theorem release_wrong_version:
  assumes ok: "dmt_mgr_ok m" and a: "committed_version m = a" "a \<noteq> DMT_VER_INVALID"
    and room: "length (dmt_map m) < max_dmts m"
    and b: "DMT_wf d" "version d = b" "b \<noteq> DMT_VER_INVALID" "map_of (dmt_map m) b = None"
      "target_version m \<noteq> b" "outstanding_io d = 0" "cb d = None"
    and idle: "getDMT m a = Some da" "outstanding_io da = 0"
    and lock: "DMTManager_getAndLockCurrentVersion m = Inr (m1, v)"
    and add: "DMTManager_add m1 d DMT_COMMITTED (Some c) = Inr (m2, err)"
    and rel: "DMTManager_releaseVersion m2 v = Inr (m3, fired)"
  shows "v = a \<and> err = ERR_IO_PENDING \<and> fired = []
     \<and> (\<exists>da'. getDMT m3 a = Some da' \<and> outstanding_io da' = 1 \<and> cb da' = Some c)
     \<and> (\<exists>db. getDMT m3 b = Some db \<and> outstanding_io db = - 1)"
proof -
  have oka: "omap_ok (dmt_map m)" "map_of (dmt_map m) a = Some (Some da)"
    using ok idle(1) by (auto simp: dmt_mgr_ok_def getDMT_def split: option.splits)
  have ab: "a \<noteq> b" using oka(2) b(4) by auto
  let ?map1 = "omap_put a (Some (da\<lparr>outstanding_io := 1\<rparr>)) (dmt_map m)"
  have m1: "m1 = m\<lparr>dmt_map := ?map1\<rparr>" "v = a"
    using lock a oka(2) idle(2)
    by (auto simp: DMTManager_getAndLockCurrentVersion_def committedDMT_def incRefcnt_def)
  have map1: "omap_ok ?map1" "map_of ?map1 b = None" "map_of ?map1 a = Some (Some (da\<lparr>outstanding_io := 1\<rparr>))"
    "length ?map1 = length (dmt_map m)"
    using oka b(4) ab by (simp_all add: omap_ok_put map_of_omap_put length_omap_put)
  let ?map2 = "omap_put a (Some (da\<lparr>outstanding_io := 1, cb := Some c\<rparr>)) (omap_put b (Some d) ?map1)"
  have m2: "m2 = m\<lparr>committed_version := b, dmt_map := ?map2\<rparr>" "err = ERR_IO_PENDING"
    using add a b map1 ab room
    by (auto simp: m1 DMTManager_add_def Let_def set_added_version_def register_on_old_def map_of_omap_put
        omap_ok_put length_omap_put setCallback_def evict_oldest_def res_simps word_gt_0)
  have map2: "omap_ok ?map2" "map_of ?map2 b = Some (Some d)"
    "map_of ?map2 a = Some (Some (da\<lparr>outstanding_io := 1, cb := Some c\<rparr>))"
    using map1 ab by (simp_all add: omap_ok_put map_of_omap_put)
  have "m3 = m2\<lparr>dmt_map := omap_put b (Some (d\<lparr>outstanding_io := - 1\<rparr>)) ?map2\<rparr>" "fired = []"
    using rel b map2(2) by (auto simp: m2 DMTManager_releaseVersion_def committedDMT_def decRefcnt_def Let_def)
  then show ?thesis
    using m1(2) m2(2) map2 ab by (simp add: getDMT_def map_of_omap_put)
qed

theorem release_wrong_version_witness:
  "\<exists>m1 m2 m3.
     DMTManager_getAndLockCurrentVersion wit_dmts = Inr (m1, 5)
     \<and> DMTManager_add m1 (wit_dmt 6) DMT_COMMITTED (Some 1) = Inr (m2, ERR_IO_PENDING)
     \<and> DMTManager_releaseVersion m2 5 = Inr (m3, [])
     \<and> (\<exists>db. getDMT m3 6 = Some db \<and> outstanding_io db = - 1)"
proof -
  have cbs: "cb (wit_dmt v) = None" for v
    by (simp add: wit_dmt_def DMT_init_def)
  have ok: "dmt_mgr_ok wit_dmts"
    by (rule dmt_reachable_ok[OF wit_dmt_run])
  let ?d1 = "(wit_dmt 5)\<lparr>outstanding_io := 1\<rparr>"
  let ?m1 = "wit_dmts\<lparr>dmt_map := [(5, Some ?d1)]\<rparr>"
  let ?m2 = "wit_dmts\<lparr>committed_version := 6, dmt_map := [(5, Some (?d1\<lparr>cb := Some 1\<rparr>)), (6, Some (wit_dmt 6))]\<rparr>"
  let ?m3 = "?m2\<lparr>dmt_map := [(5, Some (?d1\<lparr>cb := Some 1\<rparr>)), (6, Some ((wit_dmt 6)\<lparr>outstanding_io := - 1\<rparr>))]\<rparr>"
  have 1: "DMTManager_getAndLockCurrentVersion wit_dmts = Inr (?m1, 5)"
    by (simp add: wit_dmts_def DMTManager_getAndLockCurrentVersion_def committedDMT_def DMT_VER_INVALID_def
        omap_put_def incRefcnt_def)
  have 2: "DMTManager_add ?m1 (wit_dmt 6) DMT_COMMITTED (Some 1) = Inr (?m2, ERR_IO_PENDING)"
    by (simp add: wit_dmts_def DMTManager_add_def Let_def set_added_version_def register_on_old_def
        omap_put_def setCallback_def evict_oldest_def DMT_VER_INVALID_def)
  have 3: "DMTManager_releaseVersion ?m2 5 = Inr (?m3, [])"
    by (simp add: wit_dmts_def DMTManager_releaseVersion_def committedDMT_def DMT_VER_INVALID_def
        omap_put_def decRefcnt_def Let_def cbs)
  show ?thesis
    using release_wrong_version[OF ok _ _ _ _ _ _ _ _ _ _ _ _ 1 2 3] 1 2 3
    by (auto simp: wit_dmts_def DMT_VER_INVALID_def getDMT_def cbs)
qed

text \<open>
  C24. A DMT that is written and read back has the same version, dimensions and columns, for
  a protocol whose reads undo its writes; the rest of the stream is left.
\<close>

theorem DMT_write_read:
  assumes "tprotocol_ok P" "DMT_wf d" "width d < 2 ^ 32" "depth d < 2 ^ 32"
  shows "\<exists>bs. DMT_write P d = Inr bs \<and> (\<forall>d0 rest. DMT_read P d0 (bs @ rest) = Inr (DMT_loaded d0 d, rest))"
  using DMT_write_wf[OF assms(2), of P] DMT_reads[OF assms] by (simp add: reads_def)

theorem DMT_write_read_witness:
  "\<exists>bs. DMT_write be_protocol (wit_dmt 5) = Inr bs
     \<and> (\<forall>d0 rest. DMT_read be_protocol d0 (bs @ rest) = Inr (DMT_loaded d0 (wit_dmt 5), rest))"
  by (rule DMT_write_read) (simp_all add: be_protocol_ok)

text \<open>
  C23. The two checks of a DMT: against a set of expected nodes it is accepted exactly if it
  has no more rows than expected nodes and pending removals and every column holds distinct
  nodes that are expected and not 0 or are marked for removal; without a set, exactly if
  every column holds distinct nodes other than 0.
\<close>

theorem DMT_verify_exact:
  assumes "DMT_wf d"
  shows "(DMT_verify_expected ext d X = Inr ERR_OK \<longleftrightarrow>
       depth d \<le> card X + getPendingNodeRemoves ext FDSP_DATA_MGR \<and>
       (\<forall>g\<in>set (dmt_table d). distinct g \<and> (\<forall>u\<in>set g. u \<noteq> 0 \<and> u \<in> X \<or> isMarkedForRemoval ext u)))
     \<and> (DMT_verify d = Inr ERR_OK \<longleftrightarrow> (\<forall>g\<in>set (dmt_table d). distinct g \<and> 0 \<notin> set g))"
  using DMT_verify_expected_wf[OF assms, of ext X] DMT_verify_wf[OF assms]
  by (simp add: DMT_column_ok_def)

theorem DMT_verify_exact_witness:
  "DMT_verify_expected OmExtUtilApi_init (wit_dmt 5) {1, 2, 3} = Inr ERR_OK \<and> DMT_verify (wit_dmt 5) = Inr ERR_OK"
  using DMT_verify_exact[of "wit_dmt 5" OmExtUtilApi_init "{1, 2, 3}"] by simp

lemma newDMT_eq:
  "newDMT col = Inr ((DMT_init 1 (length col) 1 True)\<lparr>dmt_table := [col, replicate (length col) 0]\<rparr>)"
proof -
  have "foldR (\<lambda>i tc. col_set tc i (col ! i)) [0..<n] (TableColumn_init (length col))
      = Inr (take n col @ replicate (length col - n) 0)" if "n \<le> length col" for n
    using that
  proof (induction n)
    case (Suc n)
    have "(take n col @ replicate (length col - n) 0)[n := col ! n]
        = take (Suc n) col @ replicate (length col - Suc n) 0"
      using Suc.prems by (intro nth_equalityI) (auto simp: nth_append nth_list_update less_Suc_eq)
    then show ?case using Suc by (simp add: foldR_append)
  qed (simp add: TableColumn_init_def)
  from this[of "length col"] show ?thesis
    using setNodeGroup_wf[OF DMT_wf_init[of 1 "length col" 1], of 0 col]
    by (simp add: newDMT_def DMT_init_def TableColumn_init_def numeral_2_eq_2)
qed

text \<open>
  \<^verbatim>\<open>newDMT\<close> builds a table of two columns and fills only the first: volumes with an
  even number get the given column, and the volumes with an odd number a column of zeros,
  so that the table is not a valid one unless the column is empty.
\<close>

theorem newDMT_half_filled:
  "\<exists>d. newDMT col = Inr d
     \<and> (\<forall>vol. DMT_getNodeGroup_vol d vol = Inr (if even (unat vol) then col else replicate (length col) 0))
     \<and> (DMT_verify d = Inr ERR_OK \<longleftrightarrow> col = [])"
proof -
  let ?d = "(DMT_init 1 (length col) 1 True)\<lparr>dmt_table := [col, replicate (length col) 0]\<rparr>"
  have wf: "DMT_wf ?d" "columns ?d = 2"
    by (simp_all add: DMT_wf_def DMT_init_def)
  have "DMT_getNodeGroup_vol ?d vol = Inr (if even (unat vol) then col else replicate (length col) 0)" for vol
    using DMT_getNodeGroup_vol_wf[OF wf(1), of vol] wf(2)
    by (cases "even (unat vol)") (simp_all add: even_iff_mod_2_eq_zero odd_iff_mod_2_eq_one)
  then show ?thesis
    using newDMT_eq[of col] DMT_verify_wf[OF wf(1)] by (cases col) auto
qed

end
