(* ===== verification/Kv_Cache.thy ===== *)
theory Kv_Cache
  imports Prelude "HOL-Library.Multiset"
begin

text \<open>
  The key-value caches of \<^verbatim>\<open>include/cache\<close>: \<^verbatim>\<open>LruKvCache\<close> (\<^verbatim>\<open>KvCache.h\<close>), \<^verbatim>\<open>SharedKvCache\<close>
  (\<^verbatim>\<open>SharedKvCache.h\<close>) and the managers that keep one cache per volume (\<^verbatim>\<open>VolumeKvCache.h\<close>,
  \<^verbatim>\<open>VolumeSharedKvCache.h\<close>). Both caches join a list in the order of use with a hash map from
  keys to list iterators. An iterator is a number that is never reused, so the model keeps
  the two structures apart as the source does; that they stay in step is the invariant
  \<open>index_ok\<close>, and what they implement together is a plain list.
\<close>

section \<open>A list with stable iterators\<close>

type_synonym 'e node_list = "(nat \<times> 'e) list"

definition node_erase :: "nat \<Rightarrow> 'e node_list \<Rightarrow> 'e node_list" where
  "node_erase it l = filter (\<lambda>n. fst n \<noteq> it) l"

definition node_splice_front :: "nat \<Rightarrow> 'e node_list \<Rightarrow> 'e node_list" where
  "node_splice_front it l = (case map_of l it of Some e \<Rightarrow> (it, e) # node_erase it l | None \<Rightarrow> l)"

text \<open>The map indexes the list: every entry is found under its key, at its iterator.\<close>

definition index_ok :: "('e \<Rightarrow> 'k) \<Rightarrow> 'e node_list \<Rightarrow> ('k \<Rightarrow> nat option) \<Rightarrow> nat \<Rightarrow> bool" where
  "index_ok key l idx nxt \<longleftrightarrow> distinct (map fst l) \<and> (\<forall>n\<in>set l. fst n < nxt) \<and>
     distinct (map (key \<circ> snd) l) \<and> (\<forall>k i. idx k = Some i \<longleftrightarrow> (\<exists>e. (i, e) \<in> set l \<and> key e = k))"

lemma index_ok_Nil: "index_ok key [] (\<lambda>_. None) nxt"
  by (simp add: index_ok_def)

lemma node_entry: "(i, e) \<in> set l \<Longrightarrow> e \<in> set (map snd l)"
  by force

lemma index_ok_None:
  assumes "index_ok key l idx nxt"
  shows "idx k = None \<longleftrightarrow> k \<notin> key ` set (map snd l)"
proof -
  have "(\<exists>i. idx k = Some i) \<longleftrightarrow> (\<exists>i e. (i, e) \<in> set l \<and> key e = k)"
    using assms by (simp add: index_ok_def)
  also have "\<dots> \<longleftrightarrow> k \<in> key ` set (map snd l)"
    by force
  finally show ?thesis by auto
qed

lemma index_ok_Some:
  assumes "index_ok key l idx nxt" "idx k = Some i"
  obtains e where "map_of l i = Some e" "key e = k" "(i, e) \<in> set l"
  using assms by (auto simp: index_ok_def)

lemma index_ok_node:
  "index_ok key l idx nxt \<Longrightarrow> (i, e) \<in> set l \<Longrightarrow> (j, e') \<in> set l \<Longrightarrow> i = j \<longleftrightarrow> key e = key e'"
  by (auto simp: index_ok_def distinct_map inj_on_def) force+

lemma set_node_erase: "n \<in> set (node_erase i l) \<longleftrightarrow> n \<in> set l \<and> fst n \<noteq> i"
  by (auto simp: node_erase_def)

lemma snd_node_erase:
  assumes ok: "index_ok key l idx nxt" and i: "idx k = Some i"
  shows "map snd (node_erase i l) = filter (\<lambda>e. key e \<noteq> k) (map snd l)"
proof -
  obtain e where e: "(i, e) \<in> set l" "key e = k"
    using index_ok_Some[OF ok i] .
  have "fst n \<noteq> i \<longleftrightarrow> key (snd n) \<noteq> k" if "n \<in> set l" for n
    using index_ok_node[OF ok, of "fst n" "snd n" i e] that e by auto
  then have "filter (\<lambda>n. fst n \<noteq> i) l = filter (\<lambda>n. key (snd n) \<noteq> k) l"
    by (intro filter_cong refl) blast
  then show ?thesis
    by (simp add: node_erase_def filter_map comp_def)
qed

lemma index_ok_erase:
  assumes ok: "index_ok key l idx nxt" and i: "idx k = Some i"
  shows "index_ok key (node_erase i l) (idx(k := None)) nxt"
proof -
  obtain e where e: "(i, e) \<in> set l" "key e = k"
    using index_ok_Some[OF ok i] .
  have lookup: "idx k' = Some j \<longleftrightarrow> (\<exists>e'. (j, e') \<in> set l \<and> key e' = k')" for k' j
    using ok by (simp add: index_ok_def)
  have "j = i \<longleftrightarrow> key e' = k" if "(j, e') \<in> set l" for j e'
    using index_ok_node[OF ok e(1) that] e(2) by auto
  then have "(idx(k := None)) k' = Some j \<longleftrightarrow> (\<exists>e'. (j, e') \<in> set (node_erase i l) \<and> key e' = k')" for k' j
    by (cases "k' = k") (simp_all add: set_node_erase lookup, blast+)
  then show ?thesis
    using ok by (auto simp: index_ok_def node_erase_def distinct_map intro: inj_on_subset)
qed

lemma index_ok_push:
  assumes ok: "index_ok key l idx nxt" and new: "idx (key e) = None"
  shows "index_ok key ((nxt, e) # l) (idx(key e \<mapsto> nxt)) (Suc nxt)"
proof -
  have lookup: "idx k' = Some j \<longleftrightarrow> (\<exists>e'. (j, e') \<in> set l \<and> key e' = k')" for k' j
    using ok by (simp add: index_ok_def)
  have fresh: "key e \<notin> key ` set (map snd l)"
    using index_ok_None[OF ok] new by simp
  then have fresh': "key e' \<noteq> key e" if "(j, e') \<in> set l" for j e'
    using imageI[OF node_entry[OF that], of key] by metis
  have "(idx(key e \<mapsto> nxt)) k' = Some j \<longleftrightarrow> (\<exists>e'. (j, e') \<in> set ((nxt, e) # l) \<and> key e' = k')" for k' j
    using fresh' by (cases "k' = key e") (auto simp: lookup)
  moreover have "\<forall>n\<in>set l. fst n < nxt" "distinct (map fst l)" "distinct (map (key \<circ> snd) l)"
    using ok by (simp_all add: index_ok_def)
  ultimately show ?thesis
    using fresh unfolding index_ok_def by (intro conjI) (auto simp: image_comp less_Suc_eq)
qed

lemma index_ok_splice:
  assumes ok: "index_ok key l idx nxt" and i: "idx k = Some i"
  obtains e where "key e = k" "map_of l i = Some e" "e \<in> set (map snd l)"
    "map snd (node_splice_front i l) = e # filter (\<lambda>e. key e \<noteq> k) (map snd l)"
    "index_ok key (node_splice_front i l) idx nxt"
proof -
  obtain e where e: "(i, e) \<in> set l" "key e = k" "map_of l i = Some e"
    using index_ok_Some[OF ok i] by blast
  have l': "node_splice_front i l = (i, e) # node_erase i l"
    by (simp add: node_splice_front_def e(3))
  have ok': "index_ok key (node_erase i l) (idx(k := None)) nxt"
    by (rule index_ok_erase[OF ok i])
  have "key e \<notin> key ` snd ` set (node_erase i l)"
    using index_ok_None[OF ok', of k] e(2) by simp
  moreover have "idx k' = Some j \<longleftrightarrow> (\<exists>e'. (j, e') \<in> set ((i, e) # node_erase i l) \<and> key e' = k')" for k' j
  proof -
    have "(idx(k := None)) k' = Some j \<longleftrightarrow> (\<exists>e'. (j, e') \<in> set (node_erase i l) \<and> key e' = k')"
      using ok' by (simp add: index_ok_def)
    then show ?thesis
      using i e(2) by (cases "k' = k") auto
  qed
  moreover have "distinct (map fst (node_erase i l))" "\<forall>n\<in>set (node_erase i l). fst n < nxt"
    "distinct (map (key \<circ> snd) (node_erase i l))" "i < nxt"
    using ok ok' e(1) by (auto simp: index_ok_def)
  moreover have "i \<notin> fst ` set (node_erase i l)"
    by (auto simp: set_node_erase)
  ultimately have "index_ok key ((i, e) # node_erase i l) idx nxt"
    unfolding index_ok_def by (intro conjI) (simp_all add: set_node_erase image_comp)
  moreover have "e \<in> set (map snd l)"
    by (rule node_entry[OF e(1)])
  ultimately show thesis
    using that[OF e(2,3)] snd_node_erase[OF ok i] by (simp add: l')
qed

lemma index_ok_pop:
  assumes ok: "index_ok key l idx nxt" and l: "l \<noteq> []"
  shows "index_ok key (butlast l) (idx(key (snd (last l)) := None)) nxt"
proof -
  obtain i e where last: "last l = (i, e)" by fastforce
  have in_l: "(i, e) \<in> set l" using l last by (metis last_in_set)
  have ie: "idx (key e) = Some i" using ok in_l by (auto simp: index_ok_def)
  have l_eq: "l = butlast l @ [(i, e)]" using l last by (metis append_butlast_last_id)
  have dist: "distinct (map fst (butlast l @ [(i, e)]))"
    using ok l_eq by (simp add: index_ok_def)
  have "node_erase i l = butlast l"
    by (subst l_eq) (use dist in \<open>auto simp: node_erase_def filter_id_conv\<close>)
  then show ?thesis
    using index_ok_erase[OF ok ie] by (simp add: last)
qed

section \<open>LruKvCache\<close>

text \<open>
  Values are pointers, \<open>None\<close> the null pointer. \<open>deleted\<close> records the pointers the cache has
  freed, latest first; it is the only part of the state with no field in the class.
\<close>

record ('k, 'v) LruKvCache =
  maxEntries :: u32
  numEntries :: u64
  evictionList :: "('k \<times> 'v option) node_list"
  cacheMap :: "'k \<Rightarrow> nat option"
  nextNode :: nat
  deleted :: "'v list"

definition LruKvCache_new :: "u32 \<Rightarrow> ('k, 'v) LruKvCache" where
  "LruKvCache_new n = \<lparr>maxEntries = n, numEntries = 0, evictionList = [], cacheMap = (\<lambda>_. None),
     nextNode = 0, deleted = []\<rparr>"

definition delete_ptr :: "'v option \<Rightarrow> 'v list \<Rightarrow> 'v list" where
  "delete_ptr p ds = (case p of None \<Rightarrow> ds | Some v \<Rightarrow> v # ds)"

definition LruKvCache_remove :: "('k, 'v) LruKvCache \<Rightarrow> 'k \<Rightarrow> ('k, 'v) LruKvCache res" where
  "LruKvCache_remove c k = (case cacheMap c k of
     None \<Rightarrow> Inr c
   | Some it \<Rightarrow> (case map_of (evictionList c) it of
       None \<Rightarrow> Inl Undefined
     | Some e \<Rightarrow> Inr (c\<lparr>deleted := delete_ptr (snd e) (deleted c),
                         cacheMap := (cacheMap c)(k := None),
                         evictionList := node_erase it (evictionList c),
                         numEntries := numEntries c - 1\<rparr>)))"

text \<open>
  The result of \<open>add\<close> is the evicted pointer, null when nothing was evicted.
\<close>

definition LruKvCache_add ::
  "('k, 'v) LruKvCache \<Rightarrow> 'k \<Rightarrow> 'v option \<Rightarrow> (('k, 'v) LruKvCache \<times> 'v option) res" where
  "LruKvCache_add c0 k v = bindR (LruKvCache_remove c0 k) (\<lambda>c.
     let l = (nextNode c, (k, v)) # evictionList c;
         m = (cacheMap c)(k \<mapsto> nextNode c);
         n = numEntries c + 1
     in if n > ucast (maxEntries c) then
          (let entryToEvict = snd (snd (last l));
               c' = c\<lparr>evictionList := butlast l, cacheMap := m(fst (snd (last l)) := None),
                      nextNode := Suc (nextNode c), numEntries := n - 1\<rparr>
           in fds_verify (entryToEvict \<noteq> None)
                (fds_verify (numEntries c' = ucast (maxEntries c')) (Inr (c', entryToEvict))))
        else Inr (c\<lparr>evictionList := l, cacheMap := m, nextNode := Suc (nextNode c), numEntries := n\<rparr>,
                  None))"

definition LruKvCache_clear :: "('k, 'v) LruKvCache \<Rightarrow> ('k, 'v) LruKvCache" where
  "LruKvCache_clear c = c\<lparr>deleted := fold (\<lambda>n. delete_ptr (snd (snd n))) (evictionList c) (deleted c),
     evictionList := [], cacheMap := (\<lambda>_. None), numEntries := 0\<rparr>"

definition LruKvCache_touch :: "('k, 'v) LruKvCache \<Rightarrow> 'k \<Rightarrow> ('k, 'v) LruKvCache \<times> fds_errno" where
  "LruKvCache_touch c k = (case cacheMap c k of
     None \<Rightarrow> (c, ERR_NOT_FOUND)
   | Some it \<Rightarrow> (c\<lparr>evictionList := node_splice_front it (evictionList c)\<rparr>, ERR_OK))"

text \<open>
  The third component of a lookup is what \<^verbatim>\<open>valueOut\<close> is set to; \<open>None\<close> when it is left alone.
\<close>

definition LruKvCache_get :: "('k, 'v) LruKvCache \<Rightarrow> 'k \<Rightarrow> bool \<Rightarrow>
    (('k, 'v) LruKvCache \<times> fds_errno \<times> 'v option option) res" where
  "LruKvCache_get c k doTouch = (case cacheMap c k of
     None \<Rightarrow> Inr (c, ERR_NOT_FOUND, None)
   | Some it \<Rightarrow> (case map_of (evictionList c) it of
       None \<Rightarrow> Inl Undefined
     | Some e \<Rightarrow>
         if doTouch then
           (case LruKvCache_touch c k of (c', err) \<Rightarrow>
              fds_verify (err = ERR_OK) (Inr (c', ERR_OK, Some (snd e))))
         else Inr (c, ERR_OK, Some (snd e))))"

definition LruKvCache_exists :: "('k, 'v) LruKvCache \<Rightarrow> 'k \<Rightarrow> bool" where
  "LruKvCache_exists c k \<longleftrightarrow> cacheMap c k \<noteq> None"

definition getNumEntries :: "('k, 'v) LruKvCache \<Rightarrow> u64" where
  "getNumEntries c = numEntries c"

subsection \<open>Its contract: one list of pairs, most recently used first\<close>

definition lru_remove :: "'k \<Rightarrow> ('k \<times> 'e) list \<Rightarrow> ('k \<times> 'e) list" where
  "lru_remove k xs = filter (\<lambda>e. fst e \<noteq> k) xs"

definition lru_touch :: "'k \<Rightarrow> ('k \<times> 'e) list \<Rightarrow> ('k \<times> 'e) list" where
  "lru_touch k xs = (case map_of xs k of None \<Rightarrow> xs | Some e \<Rightarrow> (k, e) # lru_remove k xs)"

definition lru_add :: "nat \<Rightarrow> 'k \<Rightarrow> 'e \<Rightarrow> ('k \<times> 'e) list \<Rightarrow> ('k \<times> 'e) list" where
  "lru_add n k e xs = take n ((k, e) # lru_remove k xs)"

definition lru_entries :: "('k, 'v) LruKvCache \<Rightarrow> ('k \<times> 'v option) list" where
  "lru_entries c = map snd (evictionList c)"

definition lru_ok :: "('k, 'v) LruKvCache \<Rightarrow> bool" where
  "lru_ok c \<longleftrightarrow> index_ok fst (evictionList c) (cacheMap c) (nextNode c) \<and>
     unat (numEntries c) = length (evictionList c) \<and>
     length (evictionList c) \<le> unat (maxEntries c)"

lemma index_ok_map_of:
  assumes ok: "index_ok fst l idx nxt"
  shows "idx k = None \<Longrightarrow> map_of (map snd l) k = None"
    and "idx k = Some i \<Longrightarrow> \<exists>e. map_of l i = Some (k, e) \<and> map_of (map snd l) k = Some e"
proof -
  show "map_of (map snd l) k = None" if "idx k = None"
    using that index_ok_None[OF ok] by (simp add: map_of_eq_None_iff)
  assume "idx k = Some i"
  then obtain e where e: "map_of l i = Some e" "fst e = k" "(i, e) \<in> set l"
    using index_ok_Some[OF ok] by blast
  have "distinct (map fst (map snd l))"
    using ok by (simp add: index_ok_def)
  moreover have "(k, snd e) \<in> set (map snd l)"
    using e by force
  ultimately have "map_of (map snd l) k = Some (snd e)"
    by (simp add: map_of_eq_Some_iff)
  then show "\<exists>e. map_of l i = Some (k, e) \<and> map_of (map snd l) k = Some e"
    using e(1,2) by (cases e) simp
qed

lemma lru_remove_absent: "map_of xs k = None \<Longrightarrow> lru_remove k xs = xs"
  by (auto simp: lru_remove_def map_of_eq_None_iff filter_id_conv)

lemma length_lru_remove_le: "length (lru_remove k xs) \<le> length xs"
  by (simp add: lru_remove_def)

lemma length_lru_remove:
  "distinct (map fst xs) \<Longrightarrow> map_of xs k = Some e \<Longrightarrow> Suc (length (lru_remove k xs)) = length xs"
proof (induction xs)
  case (Cons x xs)
  then show ?case
    using lru_remove_absent[of xs k] by (auto simp: lru_remove_def map_of_eq_None_iff split: if_splits)
qed simp

lemma lru_ok_distinct: "lru_ok c \<Longrightarrow> distinct (map fst (lru_entries c))"
  by (simp add: lru_ok_def index_ok_def lru_entries_def)

lemma lru_ok_lookup:
  assumes "lru_ok c"
  shows "cacheMap c k = None \<Longrightarrow> map_of (lru_entries c) k = None"
    and "cacheMap c k = Some i \<Longrightarrow>
      \<exists>e. map_of (evictionList c) i = Some (k, e) \<and> map_of (lru_entries c) k = Some e"
  using assms index_ok_map_of[of "evictionList c"] unfolding lru_ok_def lru_entries_def by blast+

text \<open>The pointers a list of entries holds.\<close>

definition ptrs :: "('k \<times> 'v option) list \<Rightarrow> 'v multiset" where
  "ptrs xs = mset (concat (map (\<lambda>e. case snd e of None \<Rightarrow> [] | Some v \<Rightarrow> [v]) xs))"

lemma ptrs_simps [simp]:
  "ptrs [] = {#}"
  "ptrs (e # xs) = (case snd e of None \<Rightarrow> {#} | Some v \<Rightarrow> {#v#}) + ptrs xs"
  "ptrs (xs @ ys) = ptrs xs + ptrs ys"
  by (simp_all add: ptrs_def split: option.splits)

lemma ptrs_remove:
  "distinct (map fst xs) \<Longrightarrow> map_of xs k = Some e \<Longrightarrow>
   ptrs xs = (case e of None \<Rightarrow> {#} | Some v \<Rightarrow> {#v#}) + ptrs (lru_remove k xs)"
proof (induction xs)
  case (Cons x xs)
  then show ?case
    using lru_remove_absent[of xs k]
    by (cases "fst x = k") (auto simp: lru_remove_def map_of_eq_None_iff split: option.splits)
qed simp

lemma mset_delete_ptr:
  "mset (delete_ptr p ds) = (case p of None \<Rightarrow> {#} | Some v \<Rightarrow> {#v#}) + mset ds"
  by (simp add: delete_ptr_def split: option.splits)

lemma LruKvCache_remove_ok:
  assumes ok: "lru_ok c"
  obtains c' where "LruKvCache_remove c k = Inr c'" "lru_ok c'"
    "lru_entries c' = lru_remove k (lru_entries c)" "cacheMap c' k = None"
    "maxEntries c' = maxEntries c"
    "mset (deleted c') + ptrs (lru_entries c') = mset (deleted c) + ptrs (lru_entries c)"
proof (cases "cacheMap c k")
  case None
  then show thesis
    using that[of c] ok lru_ok_lookup(1)[OF ok None] by (simp add: LruKvCache_remove_def lru_remove_absent)
next
  case (Some i)
  have idx: "index_ok fst (evictionList c) (cacheMap c) (nextNode c)"
    using ok by (simp add: lru_ok_def)
  obtain e where e: "map_of (evictionList c) i = Some (k, e)" "map_of (lru_entries c) k = Some e"
    using lru_ok_lookup(2)[OF ok Some] by blast
  define c' where "c' = c\<lparr>deleted := delete_ptr e (deleted c), cacheMap := (cacheMap c)(k := None),
     evictionList := node_erase i (evictionList c), numEntries := numEntries c - 1\<rparr>"
  have ents: "lru_entries c' = lru_remove k (lru_entries c)"
    using snd_node_erase[OF idx Some] by (simp add: c'_def lru_entries_def lru_remove_def)
  have len: "Suc (length (lru_entries c')) = length (lru_entries c)"
    using length_lru_remove[OF lru_ok_distinct[OF ok] e(2)] by (simp add: ents)
  have n: "unat (numEntries c) = length (lru_entries c)"
    using ok by (simp add: lru_ok_def lru_entries_def)
  then have "unat (numEntries c - 1) = unat (numEntries c) - 1"
    using len by (intro unat_minus_one) auto
  then have "lru_ok c'"
    using index_ok_erase[OF idx Some] len n ok by (simp add: c'_def lru_ok_def lru_entries_def)
  moreover have "LruKvCache_remove c k = Inr c'"
    by (simp add: LruKvCache_remove_def Some e(1) c'_def)
  moreover have "mset (deleted c') + ptrs (lru_entries c') = mset (deleted c) + ptrs (lru_entries c)"
    using ptrs_remove[OF lru_ok_distinct[OF ok] e(2)] ents by (simp add: c'_def mset_delete_ptr)
  ultimately show thesis
    using that[of c'] ents by (simp add: c'_def)
qed

lemma LruKvCache_touch_ok:
  assumes ok: "lru_ok c"
  shows "lru_ok (fst (LruKvCache_touch c k))"
    and "lru_entries (fst (LruKvCache_touch c k)) = lru_touch k (lru_entries c)"
    and "snd (LruKvCache_touch c k) = (if map_of (lru_entries c) k = None then ERR_NOT_FOUND else ERR_OK)"
proof -
  have idx: "index_ok fst (evictionList c) (cacheMap c) (nextNode c)"
    using ok by (simp add: lru_ok_def)
  have "lru_ok (fst (LruKvCache_touch c k)) \<and>
    lru_entries (fst (LruKvCache_touch c k)) = lru_touch k (lru_entries c) \<and>
    snd (LruKvCache_touch c k) = (if map_of (lru_entries c) k = None then ERR_NOT_FOUND else ERR_OK)"
  proof (cases "cacheMap c k")
    case None
    then show ?thesis
      using lru_ok_lookup(1)[OF ok None] ok by (simp add: LruKvCache_touch_def lru_touch_def)
  next
    case (Some i)
    obtain e where e: "map_of (evictionList c) i = Some (k, e)" "map_of (lru_entries c) k = Some e"
      using lru_ok_lookup(2)[OF ok Some] by blast
    obtain e' where "fst e' = k" and e': "map_of (evictionList c) i = Some e'"
      and "e' \<in> set (map snd (evictionList c))" and l: "map snd (node_splice_front i (evictionList c)) =
        e' # filter (\<lambda>e. fst e \<noteq> k) (map snd (evictionList c))"
      and idx': "index_ok fst (node_splice_front i (evictionList c)) (cacheMap c) (nextNode c)"
      by (rule index_ok_splice[OF idx Some])
    have "length (node_splice_front i (evictionList c)) = length (evictionList c)"
      using length_lru_remove[OF lru_ok_distinct[OF ok] e(2)] arg_cong[OF l, of length]
      by (simp add: lru_entries_def lru_remove_def)
    then show ?thesis
      using ok e e' l idx'
      by (simp add: LruKvCache_touch_def Some lru_touch_def lru_ok_def lru_entries_def lru_remove_def)
  qed
  then show "lru_ok (fst (LruKvCache_touch c k))"
    and "lru_entries (fst (LruKvCache_touch c k)) = lru_touch k (lru_entries c)"
    and "snd (LruKvCache_touch c k) = (if map_of (lru_entries c) k = None then ERR_NOT_FOUND else ERR_OK)"
    by blast+
qed

lemma LruKvCache_get_ok:
  assumes ok: "lru_ok c"
  shows "LruKvCache_get c k t = Inr (if t then fst (LruKvCache_touch c k) else c,
    if map_of (lru_entries c) k = None then ERR_NOT_FOUND else ERR_OK, map_of (lru_entries c) k)"
proof (cases "cacheMap c k")
  case None
  then show ?thesis
    using lru_ok_lookup(1)[OF ok None] by (simp add: LruKvCache_get_def LruKvCache_touch_def)
next
  case (Some i)
  then show ?thesis
    using lru_ok_lookup(2)[OF ok Some] LruKvCache_touch_ok(3)[OF ok, of k]
    by (auto simp: LruKvCache_get_def split: prod.splits)
qed

lemma unat_u64_plus_1: "unat x < 2 ^ 32 \<Longrightarrow> unat (x + 1 :: u64) = Suc (unat x)"
  by (simp add: unat_word_ariths)

lemma ptrs_split_last:
  "xs \<noteq> [] \<Longrightarrow> ptrs xs = ptrs (butlast xs) + (case snd (last xs) of None \<Rightarrow> {#} | Some v \<Rightarrow> {#v#})"
  using ptrs_simps(3)[of "butlast xs" "[last xs]"] by simp

definition lru_victim :: "nat \<Rightarrow> 'k \<Rightarrow> 'e \<Rightarrow> ('k \<times> 'e) list \<Rightarrow> ('k \<times> 'e) option" where
  "lru_victim n k e xs = (if length (lru_remove k xs) < n then None else Some (last ((k, e) # lru_remove k xs)))"

text \<open>The state of \<open>add\<close> between the push to the front and the check of the limit.\<close>

definition lru_pushed :: "('k, 'v) LruKvCache \<Rightarrow> 'k \<Rightarrow> 'v option \<Rightarrow> ('k, 'v) LruKvCache" where
  "lru_pushed c k v = c\<lparr>evictionList := (nextNode c, (k, v)) # evictionList c,
     cacheMap := (cacheMap c)(k \<mapsto> nextNode c), nextNode := Suc (nextNode c),
     numEntries := numEntries c + 1\<rparr>"

lemma lru_pushed_facts:
  assumes ok: "lru_ok c" and k: "cacheMap c k = None"
  shows "index_ok fst (evictionList (lru_pushed c k v)) (cacheMap (lru_pushed c k v)) (nextNode (lru_pushed c k v))"
    and "lru_entries (lru_pushed c k v) = (k, v) # lru_entries c"
    and "unat (numEntries (lru_pushed c k v)) = Suc (length (lru_entries c))"
    and "ucast (maxEntries c) < numEntries (lru_pushed c k v) \<longleftrightarrow> unat (maxEntries c) \<le> length (lru_entries c)"
    and "\<not> length (lru_entries c) < unat (maxEntries c) \<Longrightarrow> numEntries c = ucast (maxEntries c)"
proof -
  have n: "unat (numEntries c) = length (lru_entries c)" "length (lru_entries c) \<le> unat (maxEntries c)"
    using ok by (simp_all add: lru_ok_def lru_entries_def)
  then have "unat (numEntries c) < 2 ^ 32"
    using unsigned_less[where 'a = nat, of "maxEntries c"] by simp
  then show n1: "unat (numEntries (lru_pushed c k v)) = Suc (length (lru_entries c))"
    using n(1) by (simp add: lru_pushed_def unat_u64_plus_1)
  show "ucast (maxEntries c) < numEntries (lru_pushed c k v) \<longleftrightarrow> unat (maxEntries c) \<le> length (lru_entries c)"
    by (simp add: word_less_nat_alt n1 unat_ucast_u32 less_Suc_eq_le)
  show "numEntries c = ucast (maxEntries c)" if "\<not> length (lru_entries c) < unat (maxEntries c)"
    by (rule word_unat_eq_iff[THEN iffD2]) (use n that in \<open>simp add: unat_ucast_u32\<close>)
  show "index_ok fst (evictionList (lru_pushed c k v)) (cacheMap (lru_pushed c k v)) (nextNode (lru_pushed c k v))"
    using index_ok_push[of fst "evictionList c" "cacheMap c" "nextNode c" "(k, v)"] ok k
    by (simp add: lru_ok_def lru_pushed_def)
qed (simp add: lru_pushed_def lru_entries_def)

lemma LruKvCache_add_unfold:
  assumes "LruKvCache_remove c0 k = Inr c"
  shows "LruKvCache_add c0 k v = (let p = lru_pushed c k v; x = snd (last (evictionList p)) in
    if ucast (maxEntries c) < numEntries p then
      fds_verify (snd x \<noteq> None) (fds_verify (numEntries c = ucast (maxEntries c))
        (Inr (p\<lparr>evictionList := butlast (evictionList p), cacheMap := (cacheMap p)(fst x := None),
                numEntries := numEntries c\<rparr>, snd x)))
    else Inr (p, None))"
  by (cases c) (simp add: LruKvCache_add_def assms lru_pushed_def Let_def)

lemma lru_pop_facts:
  fixes n :: u64
  assumes idx: "index_ok fst (evictionList p) (cacheMap p) (nextNode p)" and ne: "evictionList p \<noteq> []"
  defines "x \<equiv> snd (last (evictionList p))"
  defines "c' \<equiv> p\<lparr>evictionList := butlast (evictionList p), cacheMap := (cacheMap p)(fst x := None),
    numEntries := n\<rparr>"
  shows "x = last (lru_entries p)" "lru_entries c' = butlast (lru_entries p)"
    and "unat n = length (lru_entries c') \<Longrightarrow> length (lru_entries c') \<le> unat (maxEntries p) \<Longrightarrow> lru_ok c'"
    and "ptrs (lru_entries p) = ptrs (lru_entries c') + (case snd x of None \<Rightarrow> {#} | Some v \<Rightarrow> {#v#})"
proof -
  show x: "x = last (lru_entries p)" and e: "lru_entries c' = butlast (lru_entries p)"
    using ne by (simp_all add: x_def c'_def lru_entries_def last_map map_butlast)
  show "lru_ok c'" if "unat n = length (lru_entries c')" "length (lru_entries c') \<le> unat (maxEntries p)"
    using that index_ok_pop[OF idx ne] by (simp add: lru_ok_def c'_def x_def lru_entries_def)
  show "ptrs (lru_entries p) = ptrs (lru_entries c') + (case snd x of None \<Rightarrow> {#} | Some v \<Rightarrow> {#v#})"
    unfolding e x by (rule ptrs_split_last) (use ne in \<open>simp add: lru_entries_def\<close>)
qed

lemma LruKvCache_add_ok:
  assumes ok: "lru_ok c" and nn: "\<forall>e\<in>set (lru_entries c). snd e \<noteq> None"
  obtains c' ev where "LruKvCache_add c k (Some v) = Inr (c', ev)" "lru_ok c'"
    "lru_entries c' = lru_add (unat (maxEntries c)) k (Some v) (lru_entries c)"
    "ev = (case lru_victim (unat (maxEntries c)) k (Some v) (lru_entries c) of None \<Rightarrow> None | Some x \<Rightarrow> snd x)"
    "maxEntries c' = maxEntries c"
    "mset (deleted c') + ptrs (lru_entries c') + (case ev of None \<Rightarrow> {#} | Some w \<Rightarrow> {#w#}) =
     mset (deleted c) + ptrs (lru_entries c) + {#v#}"
proof -
  obtain c1 where c1: "LruKvCache_remove c k = Inr c1" "lru_ok c1"
    "lru_entries c1 = lru_remove k (lru_entries c)" "cacheMap c1 k = None" "maxEntries c1 = maxEntries c"
    "mset (deleted c1) + ptrs (lru_entries c1) = mset (deleted c) + ptrs (lru_entries c)"
    by (rule LruKvCache_remove_ok[OF ok])
  define p where "p = lru_pushed c1 k (Some v)"
  note p = lru_pushed_facts(1-4)[OF c1(2,4), where v = "Some v", folded p_def]
  have p_same: "maxEntries p = maxEntries c" "deleted p = deleted c1" "evictionList p \<noteq> []"
    using c1(5) by (simp_all add: p_def lru_pushed_def)
  have total: "mset (deleted p) + ptrs (lru_entries p) = mset (deleted c) + ptrs (lru_entries c) + {#v#}"
    using c1(6) by (simp add: p(2) p_same)
  note add = LruKvCache_add_unfold[OF c1(1), of "Some v", folded p_def]
  show thesis
  proof (cases "length (lru_entries c1) < unat (maxEntries c)")
    case True
    then have "lru_ok p"
      using p(1,3) arg_cong[OF p(2), of length] p_same(1) by (simp add: lru_ok_def lru_entries_def)
    moreover have "lru_entries p = lru_add (unat (maxEntries c)) k (Some v) (lru_entries c)"
      using True by (simp add: p(2) lru_add_def c1(3))
    moreover have "LruKvCache_add c k (Some v) = Inr (p, None)"
      using True by (simp add: add p(4)[unfolded c1(5)] Let_def c1(5))
    ultimately show thesis
      using that[of p None] True total p_same(1) by (simp add: lru_victim_def c1(3))
  next
    case False
    define x where "x = snd (last (evictionList p))"
    define c' where "c' = p\<lparr>evictionList := butlast (evictionList p),
      cacheMap := (cacheMap p)(fst x := None), numEntries := numEntries c1\<rparr>"
    note last = lru_pop_facts(1)[OF p(1) p_same(3), folded x_def]
    note pop = lru_pop_facts(2-4)[OF p(1) p_same(3), where n = "numEntries c1", folded x_def, folded c'_def]
    have len: "length (lru_entries c1) = unat (maxEntries c)"
      using False c1(2,5) by (simp add: lru_ok_def lru_entries_def)
    have ents: "lru_entries c' = lru_add (unat (maxEntries c)) k (Some v) (lru_entries c)"
      using len by (simp add: pop(1) p(2) lru_add_def c1(3) butlast_conv_take)
    have nonnull: "snd x \<noteq> None"
      using nn last_in_set[of "lru_entries p"] by (auto simp: last p(2) c1(3) lru_remove_def)
    have num: "numEntries c1 = ucast (maxEntries c1)"
      using lru_pushed_facts(5)[OF c1(2,4)] False c1(5) by simp
    have "lru_ok c'"
      using pop(2) len by (simp add: num unat_ucast_u32 c1(5) p_same ents lru_add_def c1(3))
    moreover have "LruKvCache_add c k (Some v) = Inr (c', snd x)"
      using nonnull num False by (simp add: add Let_def p(4)[unfolded c1(5)] x_def[symmetric] c'_def c1(5))
    moreover have "lru_victim (unat (maxEntries c)) k (Some v) (lru_entries c) = Some x"
      using False by (simp add: lru_victim_def last p(2) c1(3))
    moreover have same: "deleted c' = deleted p" "maxEntries c' = maxEntries c"
      using p_same(1) by (simp_all add: c'_def)
    moreover have "mset (deleted c') + ptrs (lru_entries c') + (case snd x of None \<Rightarrow> {#} | Some w \<Rightarrow> {#w#}) =
        mset (deleted c) + ptrs (lru_entries c) + {#v#}"
      unfolding total[symmetric] same(1) pop(3) by (rule add.assoc)
    ultimately show thesis
      by (intro that[of c' "snd x"] ents) simp_all
  qed
qed

lemma LruKvCache_clear_ok:
  "lru_ok c \<Longrightarrow> lru_ok (LruKvCache_clear c)"
  "lru_entries (LruKvCache_clear c) = []"
  "maxEntries (LruKvCache_clear c) = maxEntries c"
  "mset (deleted (LruKvCache_clear c)) = mset (deleted c) + ptrs (lru_entries c)"
proof -
  have "mset (fold (\<lambda>n. delete_ptr (snd (snd n))) l ds) = mset ds + ptrs (map snd l)"
    for l :: "('k \<times> 'v option) node_list" and ds
    by (induction l arbitrary: ds) (simp_all add: mset_delete_ptr)
  then show "mset (deleted (LruKvCache_clear c)) = mset (deleted c) + ptrs (lru_entries c)"
    by (simp add: LruKvCache_clear_def lru_entries_def)
qed (simp_all add: LruKvCache_clear_def lru_ok_def index_ok_Nil lru_entries_def)

subsection \<open>Sequences of operations\<close>

datatype ('k, 'v) lru_op = Add 'k 'v | Remove 'k | Touch 'k | Get 'k bool | Clear

datatype 'v lru_out = Evicted "'v option" | Done | Status fds_errno | Value fds_errno "'v option option"

fun lru_exec :: "('k, 'v) LruKvCache \<Rightarrow> ('k, 'v) lru_op \<Rightarrow> (('k, 'v) LruKvCache \<times> 'v lru_out) res" where
  "lru_exec c (Add k v) = bindR (LruKvCache_add c k (Some v)) (\<lambda>(c', ev). Inr (c', Evicted ev))"
| "lru_exec c (Remove k) = bindR (LruKvCache_remove c k) (\<lambda>c'. Inr (c', Done))"
| "lru_exec c (Touch k) = (case LruKvCache_touch c k of (c', err) \<Rightarrow> Inr (c', Status err))"
| "lru_exec c (Get k t) = bindR (LruKvCache_get c k t) (\<lambda>(c', err, v). Inr (c', Value err v))"
| "lru_exec c Clear = Inr (LruKvCache_clear c, Done)"

abbreviation lru_run :: "('k, 'v) LruKvCache \<Rightarrow> ('k, 'v) lru_op list \<Rightarrow>
    (('k, 'v) LruKvCache \<times> 'v lru_out list) res" where
  "lru_run \<equiv> run_ops lru_exec"

text \<open>The same operations on the contract: a list of key-value pairs, at most \<open>n\<close> long.\<close>

fun spec_exec :: "nat \<Rightarrow> ('k \<times> 'v) list \<Rightarrow> ('k, 'v) lru_op \<Rightarrow> ('k \<times> 'v) list \<times> 'v lru_out" where
  "spec_exec n xs (Add k v) = (lru_add n k v xs, Evicted (map_option snd (lru_victim n k v xs)))"
| "spec_exec n xs (Remove k) = (lru_remove k xs, Done)"
| "spec_exec n xs (Touch k) = (lru_touch k xs, Status (if map_of xs k = None then ERR_NOT_FOUND else ERR_OK))"
| "spec_exec n xs (Get k t) = (if t then lru_touch k xs else xs,
     case map_of xs k of None \<Rightarrow> Value ERR_NOT_FOUND None | Some v \<Rightarrow> Value ERR_OK (Some (Some v)))"
| "spec_exec n xs Clear = ([], Done)"

fun spec_run :: "nat \<Rightarrow> ('k \<times> 'v) list \<Rightarrow> ('k, 'v) lru_op list \<Rightarrow> ('k \<times> 'v) list \<times> 'v lru_out list" where
  "spec_run n xs [] = (xs, [])"
| "spec_run n xs (a # as) = (let (xs', r) = spec_exec n xs a; (xs'', rs) = spec_run n xs' as in (xs'', r # rs))"

definition some_snd :: "('k \<times> 'v) list \<Rightarrow> ('k \<times> 'v option) list" where
  "some_snd xs = map (map_prod id Some) xs"

lemma some_snd_simps [simp]:
  "some_snd [] = []"
  "map_of (some_snd xs) k = map_option Some (map_of xs k)"
  "lru_remove k (some_snd xs) = some_snd (lru_remove k xs)"
  "lru_touch k (some_snd xs) = some_snd (lru_touch k xs)"
  "lru_add n k (Some v) (some_snd xs) = some_snd (lru_add n k v xs)"
  "length (some_snd xs) = length xs"
proof -
  show "map_of (some_snd xs) k = map_option Some (map_of xs k)"
    by (induction xs) (auto simp: some_snd_def)
  moreover show rm: "lru_remove k (some_snd xs) = some_snd (lru_remove k xs)"
    by (simp add: some_snd_def lru_remove_def filter_map comp_def)
  ultimately show "lru_touch k (some_snd xs) = some_snd (lru_touch k xs)"
    by (auto simp: lru_touch_def some_snd_def split: option.splits)
  show "lru_add n k (Some v) (some_snd xs) = some_snd (lru_add n k v xs)"
    unfolding lru_add_def rm by (simp add: some_snd_def take_map[symmetric])
qed (simp_all add: some_snd_def)

lemma lru_victim_some:
  "lru_victim n k (Some v) (some_snd xs) = map_option (map_prod id Some) (lru_victim n k v xs)"
  using last_map[of "(k, v) # lru_remove k xs" "map_prod id Some"]
  by (simp add: lru_victim_def del: last.simps) (simp add: some_snd_def)

text \<open>What an operation hands to the cache, and what it hands back to the caller to own.\<close>

fun op_adds :: "('k, 'v) lru_op \<Rightarrow> 'v multiset" where
  "op_adds (Add k v) = {#v#}"
| "op_adds _ = {#}"

fun out_owned :: "'v lru_out \<Rightarrow> 'v multiset" where
  "out_owned (Evicted (Some v)) = {#v#}"
| "out_owned _ = {#}"

definition lru_sim :: "('k, 'v) LruKvCache \<Rightarrow> nat \<Rightarrow> ('k \<times> 'v) list \<Rightarrow> bool" where
  "lru_sim c n xs \<longleftrightarrow> lru_ok c \<and> unat (maxEntries c) = n \<and> lru_entries c = some_snd xs"

lemma lru_touch_ptrs:
  "distinct (map fst xs) \<Longrightarrow> ptrs (lru_touch k xs) = ptrs xs"
  using ptrs_remove[of xs k] by (auto simp: lru_touch_def split: option.splits)

lemma out_owned_Evicted: "out_owned (Evicted ev) = (case ev of None \<Rightarrow> {#} | Some w \<Rightarrow> {#w#})"
  by (cases ev) simp_all

lemma LruKvCache_touch_same:
  "maxEntries (fst (LruKvCache_touch c k)) = maxEntries c"
  "deleted (fst (LruKvCache_touch c k)) = deleted c"
  by (simp_all add: LruKvCache_touch_def split: option.splits)

lemma lru_sim_touch:
  assumes sim: "lru_sim c n xs"
  shows "lru_sim (fst (LruKvCache_touch c k)) n (lru_touch k xs)"
    and "ptrs (lru_entries (fst (LruKvCache_touch c k))) = ptrs (lru_entries c)"
proof -
  have ok: "lru_ok c" using sim by (simp add: lru_sim_def)
  show "lru_sim (fst (LruKvCache_touch c k)) n (lru_touch k xs)"
    using sim LruKvCache_touch_ok(1,2)[OF ok] by (simp add: lru_sim_def LruKvCache_touch_same)
  show "ptrs (lru_entries (fst (LruKvCache_touch c k))) = ptrs (lru_entries c)"
    using LruKvCache_touch_ok(2)[OF ok] lru_touch_ptrs[OF lru_ok_distinct[OF ok]] by simp
qed

lemma lru_sim_add:
  assumes sim: "lru_sim c n xs"
  obtains c' where "lru_exec c (Add k v) = Inr (c', snd (spec_exec n xs (Add k v)))"
    "lru_sim c' n (lru_add n k v xs)"
    "mset (deleted c') + ptrs (lru_entries c') + out_owned (snd (spec_exec n xs (Add k v))) =
     mset (deleted c) + ptrs (lru_entries c) + {#v#}"
proof -
  have ok: "lru_ok c" and xs: "lru_entries c = some_snd xs" and n: "unat (maxEntries c) = n"
    using sim by (simp_all add: lru_sim_def)
  have nn: "\<forall>e\<in>set (lru_entries c). snd e \<noteq> None"
    by (auto simp: xs some_snd_def)
  obtain c' ev where c': "LruKvCache_add c k (Some v) = Inr (c', ev)" "lru_ok c'"
    "lru_entries c' = lru_add (unat (maxEntries c)) k (Some v) (lru_entries c)"
    "ev = (case lru_victim (unat (maxEntries c)) k (Some v) (lru_entries c) of None \<Rightarrow> None | Some x \<Rightarrow> snd x)"
    "maxEntries c' = maxEntries c"
    "mset (deleted c') + ptrs (lru_entries c') + (case ev of None \<Rightarrow> {#} | Some w \<Rightarrow> {#w#}) =
     mset (deleted c) + ptrs (lru_entries c) + {#v#}"
    by (rule LruKvCache_add_ok[OF ok nn])
  have "ev = map_option snd (lru_victim n k v xs)"
    using c'(4) by (simp add: xs n lru_victim_some split: option.splits)
  then show thesis
    using c' by (intro that[of c']) (simp_all add: lru_sim_def xs n out_owned_Evicted)
qed

lemma lru_exec_sim:
  assumes sim: "lru_sim c n xs"
  obtains c' where "lru_exec c a = Inr (c', snd (spec_exec n xs a))" "lru_sim c' n (fst (spec_exec n xs a))"
    "mset (deleted c') + ptrs (lru_entries c') + out_owned (snd (spec_exec n xs a)) =
     mset (deleted c) + ptrs (lru_entries c) + op_adds a"
proof -
  have ok: "lru_ok c" and xs: "lru_entries c = some_snd xs" and n: "unat (maxEntries c) = n"
    using sim by (simp_all add: lru_sim_def)
  note touch = lru_sim_touch[OF sim] LruKvCache_touch_same
  show thesis
  proof (cases a)
    case (Add k v)
    show thesis
      by (rule lru_sim_add[OF sim, of k v]) (rule that, simp_all add: Add)
  next
    case (Remove k)
    obtain c' where "LruKvCache_remove c k = Inr c'" "lru_ok c'"
      "lru_entries c' = lru_remove k (lru_entries c)" "cacheMap c' k = None" "maxEntries c' = maxEntries c"
      "mset (deleted c') + ptrs (lru_entries c') = mset (deleted c) + ptrs (lru_entries c)"
      by (rule LruKvCache_remove_ok[OF ok])
    then show thesis
      by (intro that[of c']) (simp_all add: Remove lru_sim_def xs n)
  next
    case (Touch k)
    show thesis
      by (rule that[of "fst (LruKvCache_touch c k)"])
        (use LruKvCache_touch_ok(3)[OF ok, of k] in \<open>simp_all add: Touch touch xs case_prod_beta\<close>)
  next
    case (Get k t)
    show thesis
      by (rule that[of "if t then fst (LruKvCache_touch c k) else c"])
        (use sim in \<open>simp_all add: Get touch LruKvCache_get_ok[OF ok] xs split: option.splits\<close>)
  next
    case Clear
    show thesis
      by (rule that[of "LruKvCache_clear c"])
        (use ok n in \<open>simp_all add: Clear LruKvCache_clear_ok lru_sim_def\<close>)
  qed
qed

lemma balance_trans:
  fixes x :: "'a multiset"
  assumes "y + r = x + a" "z + rs = y + as"
  shows "z + (r + rs) = x + (a + as)"
proof -
  have "z + (r + rs) = (z + rs) + r" by (simp add: add_ac)
  also have "\<dots> = (y + r) + as" unfolding assms(2) by (simp add: add_ac)
  also have "\<dots> = x + (a + as)" unfolding assms(1) by (simp add: add_ac)
  finally show ?thesis .
qed

lemma lru_run_sim:
  assumes "lru_sim c n xs"
  shows "\<exists>c'. lru_run c as = Inr (c', snd (spec_run n xs as)) \<and> lru_sim c' n (fst (spec_run n xs as)) \<and>
    mset (deleted c') + ptrs (lru_entries c') + (\<Sum>r\<leftarrow>snd (spec_run n xs as). out_owned r) =
    mset (deleted c) + ptrs (lru_entries c) + (\<Sum>a\<leftarrow>as. op_adds a)"
  using assms
proof (induction as arbitrary: c xs)
  case Nil
  then show ?case by simp
next
  case (Cons a as)
  obtain c1 where c1: "lru_exec c a = Inr (c1, snd (spec_exec n xs a))" "lru_sim c1 n (fst (spec_exec n xs a))"
    "mset (deleted c1) + ptrs (lru_entries c1) + out_owned (snd (spec_exec n xs a)) =
     mset (deleted c) + ptrs (lru_entries c) + op_adds a"
    by (rule lru_exec_sim[OF Cons.prems])
  from Cons.IH[OF c1(2)] obtain c' where c': "lru_run c1 as = Inr (c', snd (spec_run n (fst (spec_exec n xs a)) as))"
    "lru_sim c' n (fst (spec_run n (fst (spec_exec n xs a)) as))"
    "mset (deleted c') + ptrs (lru_entries c') +
       (\<Sum>r\<leftarrow>snd (spec_run n (fst (spec_exec n xs a)) as). out_owned r) =
     mset (deleted c1) + ptrs (lru_entries c1) + (\<Sum>a\<leftarrow>as. op_adds a)"
    by blast
  have "mset (deleted c') + ptrs (lru_entries c') + (out_owned (snd (spec_exec n xs a)) +
       (\<Sum>r\<leftarrow>snd (spec_run n (fst (spec_exec n xs a)) as). out_owned r)) =
     mset (deleted c) + ptrs (lru_entries c) + (op_adds a + (\<Sum>a\<leftarrow>as. op_adds a))"
    by (rule balance_trans[OF c1(3) c'(3)])
  then show ?case
    using c1(1) c'(1,2) by (simp add: Let_def case_prod_beta)
qed

lemma lru_sim_new: "lru_sim (LruKvCache_new n) (unat n) []"
  by (simp add: lru_sim_def LruKvCache_new_def lru_ok_def index_ok_Nil lru_entries_def)

text \<open>
  C28. Run any sequence of additions, removals, lookups, touches and clears on a new
  \<^verbatim>\<open>LruKvCache\<close> of \<open>n\<close> entries: no call fails, every call answers as the plain list of at most
  \<open>n\<close> pairs in the order of use would (the evicted value is the least recently used one),
  the list and the hash map end up holding exactly that list, and the entry count is its
  length.
\<close>

theorem LruKvCache_refines:
  "\<exists>c. lru_run (LruKvCache_new n) as = Inr (c, snd (spec_run (unat n) [] as)) \<and>
     lru_entries c = some_snd (fst (spec_run (unat n) [] as)) \<and>
     (\<forall>k. LruKvCache_exists c k = (map_of (fst (spec_run (unat n) [] as)) k \<noteq> None)) \<and>
     unat (getNumEntries c) = length (fst (spec_run (unat n) [] as)) \<and>
     unat (getNumEntries c) \<le> unat n"
proof -
  obtain c where run: "lru_run (LruKvCache_new n) as = Inr (c, snd (spec_run (unat n) [] as))"
    and sim: "lru_sim c (unat n) (fst (spec_run (unat n) [] as))"
    using lru_run_sim[OF lru_sim_new, of n as] by blast
  have ok: "lru_ok c" and ents: "lru_entries c = some_snd (fst (spec_run (unat n) [] as))"
    and max: "unat (maxEntries c) = unat n"
    using sim by (simp_all add: lru_sim_def)
  have "LruKvCache_exists c k = (map_of (fst (spec_run (unat n) [] as)) k \<noteq> None)" for k
    using lru_ok_lookup[OF ok, of k] by (cases "cacheMap c k") (auto simp: LruKvCache_exists_def ents)
  moreover have "unat (getNumEntries c) = length (lru_entries c)" "length (lru_entries c) \<le> unat n"
    using ok max by (simp_all add: getNumEntries_def lru_ok_def lru_entries_def)
  ultimately show ?thesis
    using run by (simp add: ents)
qed

text \<open>
  C31. The cache neither leaks nor frees twice: after any run that started from a new cache,
  the pointers handed in by the additions are, counted with multiplicity, those it has
  deleted, those it still holds and those it returned as evicted.
\<close>

theorem LruKvCache_ownership:
  assumes "lru_run (LruKvCache_new n) as = Inr (c, outs)"
  shows "(\<Sum>a\<leftarrow>as. op_adds a) = mset (deleted c) + ptrs (lru_entries c) + (\<Sum>r\<leftarrow>outs. out_owned r)"
  using lru_run_sim[OF lru_sim_new, of n as] assms
  by (auto simp: LruKvCache_new_def lru_entries_def)

theorem LruKvCache_ownership_witness:
  "\<exists>c :: (nat, nat) LruKvCache.
     lru_run (LruKvCache_new 2) [Add 1 10, Add 2 20, Get 1 True, Add 3 30, Add 1 11] =
       Inr (c, [Evicted None, Evicted None, Value ERR_OK (Some (Some 10)), Evicted (Some 20), Evicted None]) \<and>
     {#10, 20, 30, 11#} = mset (deleted c) + ptrs (lru_entries c) + {#20#}"
proof -
  let ?as = "[Add 1 10, Add 2 20, Get 1 True, Add 3 30, Add 1 11] :: (nat, nat) lru_op list"
  let ?outs = "[Evicted None, Evicted None, Value ERR_OK (Some (Some 10)), Evicted (Some 20), Evicted None]"
  have "snd (spec_run 2 [] ?as) = ?outs"
    by (simp add: lru_add_def lru_victim_def lru_remove_def lru_touch_def)
  then obtain c where run: "lru_run (LruKvCache_new 2) ?as = Inr (c, ?outs)"
    using lru_run_sim[OF lru_sim_new, of 2 ?as] by auto
  have "{#10, 20, 30, 11#} = mset (deleted c) + ptrs (lru_entries c) + {#20#}"
    using LruKvCache_ownership[OF run] by (simp add: add_mset_commute)
  then show ?thesis
    using run by blast
qed

section \<open>What a cache promises its manager\<close>

text \<open>
  The part of the contract that both cache classes share: the contents are pairs with
  distinct keys, removal drops the pair of its key, and a touch only reorders.
\<close>

locale kv_cache =
  fixes ok :: "'c \<Rightarrow> bool"
    and contents :: "'c \<Rightarrow> ('k \<times> 'e) list"
    and remove :: "'c \<Rightarrow> 'k \<Rightarrow> 'c res"
    and touch :: "'c \<Rightarrow> 'k \<Rightarrow> 'c"
  assumes distinct_keys: "ok c \<Longrightarrow> distinct (map fst (contents c))"
    and remove_law: "ok c \<Longrightarrow> \<exists>c'. remove c k = Inr c' \<and> ok c' \<and> contents c' = lru_remove k (contents c)"
    and touch_law: "ok c \<Longrightarrow> ok (touch c k) \<and> contents (touch c k) = lru_touch k (contents c)"
begin

lemma remove_lookup:
  assumes "ok c" "remove c k = Inr c'"
  shows "map_of (contents c') k' = (if k' = k then None else map_of (contents c) k')"
proof -
  have "contents c' = lru_remove k (contents c)"
    using remove_law[OF assms(1), of k] assms(2) by auto
  moreover have "map_of (filter (\<lambda>e. fst e \<noteq> k) xs) k' = (if k' = k then None else map_of xs k')"
    for xs :: "('k \<times> 'e) list"
    by (induction xs) auto
  ultimately show ?thesis by (simp add: lru_remove_def)
qed

lemma touch_lookup:
  assumes "ok c"
  shows "map_of (contents (touch c k)) k' = map_of (contents c) k'"
proof (cases "map_of (contents c) k")
  case None
  then show ?thesis using touch_law[OF assms] by (simp add: lru_touch_def)
next
  case (Some e)
  have "map_of ((k, e) # filter (\<lambda>e. fst e \<noteq> k) xs) k' = (if k' = k then Some e else map_of xs k')"
    for xs by (induction xs) auto
  then show ?thesis
    using touch_law[OF assms, of k] Some by (simp add: lru_touch_def lru_remove_def)
qed

lemma touch_length: "ok c \<Longrightarrow> length (contents (touch c k)) = length (contents c)"
  using touch_law[of c k] length_lru_remove[OF distinct_keys, of c k]
  by (auto simp: lru_touch_def split: option.splits)

lemma remove_twice:
  assumes "ok c" "remove c k = Inr c'" "remove c' k = Inr c''"
  shows "contents c'' = contents c'"
proof -
  have "ok c'" using remove_law[OF assms(1), of k] assms(2) by auto
  then have "contents c'' = lru_remove k (contents c')"
    using remove_law[of c' k] assms(3) by auto
  also have "\<dots> = contents c'"
    by (rule lru_remove_absent) (simp add: remove_lookup[OF assms(1,2)])
  finally show ?thesis .
qed

end

interpretation lru: kv_cache lru_ok lru_entries LruKvCache_remove "\<lambda>c k. fst (LruKvCache_touch c k)"
proof
  show "\<exists>c'. LruKvCache_remove c k = Inr c' \<and> lru_ok c' \<and> lru_entries c' = lru_remove k (lru_entries c)"
    if "lru_ok c" for c :: "('a, 'b) LruKvCache" and k
    by (rule LruKvCache_remove_ok[OF that, of k]) blast
qed (simp_all add: lru_ok_distinct LruKvCache_touch_ok)

end
