(* ===== verification/Shared_Cache.thy ===== *)
theory Shared_Cache
  imports Kv_Cache
begin

text \<open>
  \<^verbatim>\<open>SharedKvCache\<close> (\<^verbatim>\<open>include/cache/SharedKvCache.h\<close>), the access manager's cache. It counts
  the sizes of its values, evicts from the cold end while the total is above the limit,
  marks entries that were filled before a write was known to be stable (dirty), and with
  \<^verbatim>\<open>StrongAssociation\<close> keeps the first value of a key, since the key determines it. The
  functor \<^verbatim>\<open>size_calc\<close> is the argument \<open>sz\<close>, \<^verbatim>\<open>StrongAssociation\<close> the argument \<open>strong\<close>. Each
  operation holds the lock of the cache throughout, so it is one step of the model.
\<close>

record ('k, 'v) SharedKvCache =
  max_size :: u64
  eviction_list :: "('k \<times> 'v \<times> bool) node_list"
  current_size :: u64
  cache_map :: "'k \<Rightarrow> nat option"
  next_node :: nat

definition size_calc_one :: "'v \<Rightarrow> u64" where
  "size_calc_one v = 1"

text \<open>The specialisation for data (\<^verbatim>\<open>AmCache.h\<close>): the length of the string, 0 for a null pointer.\<close>

definition size_calc_string :: "u8 list option \<Rightarrow> u64" where
  "size_calc_string d = (case d of None \<Rightarrow> 0 | Some s \<Rightarrow> of_nat (length s))"

definition SharedKvCache_new :: "u64 \<Rightarrow> ('k, 'v) SharedKvCache" where
  "SharedKvCache_new n = \<lparr>max_size = n, eviction_list = [], current_size = 0,
     cache_map = (\<lambda>_. None), next_node = 0\<rparr>"

text \<open>\<open>None\<close> is the end iterator.\<close>

definition SharedKvCache_touch :: "('k, 'v) SharedKvCache \<Rightarrow> 'k \<Rightarrow> ('k, 'v) SharedKvCache \<times> nat option" where
  "SharedKvCache_touch c k = (case cache_map c k of
     None \<Rightarrow> (c, None)
   | Some it \<Rightarrow> (c\<lparr>eviction_list := node_splice_front it (eviction_list c)\<rparr>, Some it))"

definition SharedKvCache_remove_internal ::
  "('v \<Rightarrow> u64) \<Rightarrow> ('k, 'v) SharedKvCache \<Rightarrow> 'k \<Rightarrow> bool \<Rightarrow> (('k, 'v) SharedKvCache \<times> bool) res" where
  "SharedKvCache_remove_internal sz c k dirty = (case cache_map c k of
     None \<Rightarrow> Inr (c, True)
   | Some it \<Rightarrow> (case map_of (eviction_list c) it of
       None \<Rightarrow> Inl Undefined
     | Some (k', v, d) \<Rightarrow>
         if dirty \<and> \<not> d then Inr (c, False)
         else Inr (c\<lparr>current_size := current_size c - sz v,
                     cache_map := (cache_map c)(k := None),
                     eviction_list := node_erase it (eviction_list c)\<rparr>, True)))"

text \<open>
  The eviction loop of \<open>add\<close>. \<^verbatim>\<open>back\<close> of an empty list is undefined behaviour.
\<close>

function SharedKvCache_evict ::
  "('v \<Rightarrow> u64) \<Rightarrow> ('k, 'v) SharedKvCache \<Rightarrow> bool \<Rightarrow> (('k, 'v) SharedKvCache \<times> bool) res" where
  "SharedKvCache_evict sz c was_evicted =
    (if current_size c > max_size c then
       (if eviction_list c = [] then Inl Undefined
        else (case last (eviction_list c) of (it, k, v, d) \<Rightarrow>
          SharedKvCache_evict sz
            (c\<lparr>eviction_list := butlast (eviction_list c), cache_map := (cache_map c)(k := None),
               current_size := current_size c - sz v\<rparr>) True))
     else Inr (c, was_evicted))"
  by pat_completeness auto
termination
  by (relation "measure (\<lambda>(sz, c, w). length (eviction_list c))") auto

declare SharedKvCache_evict.simps [simp del]

definition SharedKvCache_insert ::
  "('v \<Rightarrow> u64) \<Rightarrow> ('k, 'v) SharedKvCache \<Rightarrow> 'k \<Rightarrow> 'v \<Rightarrow> bool \<Rightarrow> (('k, 'v) SharedKvCache \<times> bool) res" where
  "SharedKvCache_insert sz c k v dirty = SharedKvCache_evict sz
     (c\<lparr>eviction_list := (next_node c, (k, v, dirty)) # eviction_list c,
        cache_map := (cache_map c)(k \<mapsto> next_node c),
        next_node := Suc (next_node c),
        current_size := current_size c + sz v\<rparr>) False"

definition SharedKvCache_add :: "('v \<Rightarrow> u64) \<Rightarrow> bool \<Rightarrow> ('k, 'v) SharedKvCache \<Rightarrow> 'k \<Rightarrow> 'v \<Rightarrow> bool \<Rightarrow>
    (('k, 'v) SharedKvCache \<times> bool) res" where
  "SharedKvCache_add sz strong c k v dirty =
    (if strong then
       (case SharedKvCache_touch c k of
          (c', Some _) \<Rightarrow> Inr (c', False)
        | (c', None) \<Rightarrow> SharedKvCache_insert sz c' k v dirty)
     else bindR (SharedKvCache_remove_internal sz c k dirty) (\<lambda>(c', removed).
       if removed then SharedKvCache_insert sz c' k v dirty else Inr (c', False)))"

definition SharedKvCache_clear :: "('k, 'v) SharedKvCache \<Rightarrow> ('k, 'v) SharedKvCache" where
  "SharedKvCache_clear c = c\<lparr>eviction_list := [], cache_map := (\<lambda>_. None), current_size := 0\<rparr>"

definition SharedKvCache_get :: "('k, 'v) SharedKvCache \<Rightarrow> 'k \<Rightarrow> bool \<Rightarrow>
    (('k, 'v) SharedKvCache \<times> fds_errno \<times> 'v option) res" where
  "SharedKvCache_get c k do_touch =
    (case (if do_touch then SharedKvCache_touch c k else (c, cache_map c k)) of
       (c', None) \<Rightarrow> Inr (c', ERR_NOT_FOUND, None)
     | (c', Some it) \<Rightarrow> (case map_of (eviction_list c') it of
         None \<Rightarrow> Inl Undefined
       | Some (k', v, d) \<Rightarrow> Inr (c', ERR_OK, Some v)))"

definition SharedKvCache_remove :: "('v \<Rightarrow> u64) \<Rightarrow> ('k, 'v) SharedKvCache \<Rightarrow> 'k \<Rightarrow> ('k, 'v) SharedKvCache res" where
  "SharedKvCache_remove sz c k = bindR (SharedKvCache_remove_internal sz c k False) (\<lambda>(c', _). Inr c')"

text \<open>
  \<open>remove_if\<close> walks the hash map; \<open>order\<close> lists its keys in the order of the walk, which the
  standard leaves open.
\<close>

definition remove_if_step ::
  "('v \<Rightarrow> u64) \<Rightarrow> ('k \<Rightarrow> bool) \<Rightarrow> 'k \<Rightarrow> ('k, 'v) SharedKvCache \<Rightarrow> ('k, 'v) SharedKvCache res" where
  "remove_if_step sz pred k c = (if pred k then
     (case cache_map c k of
        None \<Rightarrow> Inl Undefined
      | Some it \<Rightarrow> (case map_of (eviction_list c) it of
          None \<Rightarrow> Inl Undefined
        | Some (k', v, d) \<Rightarrow> Inr (c\<lparr>current_size := current_size c - sz v,
                     cache_map := (cache_map c)(k := None),
                     eviction_list := node_erase it (eviction_list c)\<rparr>)))
     else Inr c)"

definition SharedKvCache_remove_if ::
  "('v \<Rightarrow> u64) \<Rightarrow> 'k list \<Rightarrow> ('k \<Rightarrow> bool) \<Rightarrow> ('k, 'v) SharedKvCache \<Rightarrow> ('k, 'v) SharedKvCache res" where
  "SharedKvCache_remove_if sz order pred c = foldR (remove_if_step sz pred) order c"

definition SharedKvCache_exists :: "('k, 'v) SharedKvCache \<Rightarrow> 'k \<Rightarrow> bool" where
  "SharedKvCache_exists c k \<longleftrightarrow> cache_map c k \<noteq> None"

definition getSize :: "('k, 'v) SharedKvCache \<Rightarrow> u64" where
  "getSize c = current_size c"

section \<open>The contract and its invariant\<close>

definition shared_entries :: "('k, 'v) SharedKvCache \<Rightarrow> ('k \<times> 'v \<times> bool) list" where
  "shared_entries c = map snd (eviction_list c)"

definition total_size :: "('v \<Rightarrow> u64) \<Rightarrow> ('k \<times> 'v \<times> bool) list \<Rightarrow> nat" where
  "total_size sz xs = (\<Sum>e\<leftarrow>xs. unat (sz (fst (snd e))))"

text \<open>
  Between the calls the total is the sum of the sizes and within the limit; inside \<open>add\<close> the
  second part is broken for a while.
\<close>

definition shared_acct :: "('v \<Rightarrow> u64) \<Rightarrow> ('k, 'v) SharedKvCache \<Rightarrow> bool" where
  "shared_acct sz c \<longleftrightarrow> index_ok fst (eviction_list c) (cache_map c) (next_node c) \<and>
     unat (current_size c) = total_size sz (shared_entries c)"

definition shared_ok :: "('v \<Rightarrow> u64) \<Rightarrow> ('k, 'v) SharedKvCache \<Rightarrow> bool" where
  "shared_ok sz c \<longleftrightarrow> shared_acct sz c \<and> current_size c \<le> max_size c"

lemma shared_ok_acct: "shared_ok sz c \<Longrightarrow> shared_acct sz c"
  by (simp add: shared_ok_def)

text \<open>The longest prefix whose sizes add up to at most \<open>m\<close>.\<close>

fun fit :: "('v \<Rightarrow> u64) \<Rightarrow> nat \<Rightarrow> ('k \<times> 'v \<times> bool) list \<Rightarrow> ('k \<times> 'v \<times> bool) list" where
  "fit sz m [] = []"
| "fit sz m (e # xs) = (if unat (sz (fst (snd e))) \<le> m then e # fit sz (m - unat (sz (fst (snd e)))) xs else [])"

lemma total_simps [simp]:
  "total_size sz [] = 0"
  "total_size sz (e # xs) = unat (sz (fst (snd e))) + total_size sz xs"
  "total_size sz (xs @ ys) = total_size sz xs + total_size sz ys"
  by (simp_all add: total_size_def)

lemma total_fit: "total_size sz (fit sz m xs) \<le> m"
  by (induction sz m xs rule: fit.induct) auto

lemma fit_all: "total_size sz xs \<le> m \<Longrightarrow> fit sz m xs = xs"
  by (induction sz m xs rule: fit.induct) auto

lemma fit_snoc: "m < total_size sz (xs @ [e]) \<Longrightarrow> fit sz m (xs @ [e]) = fit sz m xs"
  by (induction sz m xs rule: fit.induct) auto

lemma fit_longest: "total_size sz (take n xs) \<le> m \<Longrightarrow> take n xs = take n (fit sz m xs)"
proof (induction sz m xs arbitrary: n rule: fit.induct)
  case (2 sz m e xs)
  then show ?case by (cases n) auto
qed simp

lemma fit_prefix: "fit sz m xs = take (length (fit sz m xs)) xs"
  by (induction sz m xs rule: fit.induct) auto

lemma total_remove:
  "distinct (map fst xs) \<Longrightarrow> map_of xs k = Some (v, d) \<Longrightarrow> total_size sz xs = unat (sz v) + total_size sz (lru_remove k xs)"
proof (induction xs)
  case (Cons x xs)
  then show ?case
    using lru_remove_absent[of xs k] by (cases "fst x = k") (auto simp: lru_remove_def map_of_eq_None_iff)
qed simp

lemma shared_distinct: "shared_acct sz c \<Longrightarrow> distinct (map fst (shared_entries c))"
  by (simp add: shared_acct_def index_ok_def shared_entries_def)

lemma shared_lookup:
  assumes "shared_acct sz c"
  shows "cache_map c k = None \<Longrightarrow> map_of (shared_entries c) k = None"
    and "cache_map c k = Some i \<Longrightarrow>
      \<exists>v d. map_of (eviction_list c) i = Some (k, v, d) \<and> map_of (shared_entries c) k = Some (v, d)"
proof -
  have ok: "index_ok fst (eviction_list c) (cache_map c) (next_node c)"
    using assms by (simp add: shared_acct_def)
  show "cache_map c k = None \<Longrightarrow> map_of (shared_entries c) k = None"
    unfolding shared_entries_def by (rule index_ok_map_of(1)[OF ok])
  show "\<exists>v d. map_of (eviction_list c) i = Some (k, v, d) \<and> map_of (shared_entries c) k = Some (v, d)"
    if "cache_map c k = Some i"
    using index_ok_map_of(2)[OF ok that] by (auto simp: shared_entries_def)
qed

lemma shared_drop:
  fixes c :: "('k, 'v) SharedKvCache"
  assumes ok: "shared_acct sz c" and k: "cache_map c k = Some i"
    and e: "map_of (shared_entries c) k = Some (v, d)"
  defines "c' \<equiv> c\<lparr>current_size := current_size c - sz v, cache_map := (cache_map c)(k := None),
    eviction_list := node_erase i (eviction_list c)\<rparr>"
  shows "shared_acct sz c'" "shared_entries c' = lru_remove k (shared_entries c)"
    "current_size c' \<le> current_size c"
proof -
  have idx: "index_ok fst (eviction_list c) (cache_map c) (next_node c)"
    and size: "unat (current_size c) = total_size sz (shared_entries c)"
    using ok by (simp_all add: shared_acct_def)
  show ents: "shared_entries c' = lru_remove k (shared_entries c)"
    using snd_node_erase[OF idx k] by (simp add: c'_def shared_entries_def lru_remove_def)
  have tot: "total_size sz (shared_entries c) = unat (sz v) + total_size sz (shared_entries c')"
    unfolding ents by (rule total_remove[OF shared_distinct[OF ok] e])
  then have le: "sz v \<le> current_size c"
    by (simp add: word_le_nat_alt size)
  then have "unat (current_size c - sz v) = total_size sz (shared_entries c')"
    using tot by (simp add: unat_sub size)
  then show "shared_acct sz c'"
    using index_ok_erase[OF idx k] by (simp add: shared_acct_def c'_def)
  show "current_size c' \<le> current_size c"
    using le by (simp add: c'_def word_sub_le)
qed

lemma shared_pop:
  fixes c :: "('k, 'v) SharedKvCache"
  assumes ok: "shared_acct sz c" and ne: "eviction_list c \<noteq> []"
    and e: "last (eviction_list c) = (i, k, v, d)"
  defines "c' \<equiv> c\<lparr>eviction_list := butlast (eviction_list c), cache_map := (cache_map c)(k := None),
    current_size := current_size c - sz v\<rparr>"
  shows "shared_acct sz c'" "shared_entries c = shared_entries c' @ [(k, v, d)]"
proof -
  have idx: "index_ok fst (eviction_list c) (cache_map c) (next_node c)"
    and size: "unat (current_size c) = total_size sz (shared_entries c)"
    using ok by (simp_all add: shared_acct_def)
  show ents: "shared_entries c = shared_entries c' @ [(k, v, d)]"
    using arg_cong[OF append_butlast_last_id[OF ne], of "map snd"] e by (simp add: c'_def shared_entries_def)
  have "unat (current_size c) = total_size sz (shared_entries c') + unat (sz v)"
    by (simp add: size ents)
  then have "unat (current_size c - sz v) = total_size sz (shared_entries c')"
    by (subst unat_sub) (simp_all add: word_le_nat_alt)
  then show "shared_acct sz c'"
    using index_ok_pop[OF idx ne] e by (simp add: shared_acct_def c'_def)
qed

lemma SharedKvCache_evict_ok:
  "shared_acct sz c \<Longrightarrow> \<exists>c'. SharedKvCache_evict sz c w = Inr (c', w \<or> unat (max_size c) < total_size sz (shared_entries c)) \<and>
     shared_ok sz c' \<and> max_size c' = max_size c \<and>
     shared_entries c' = fit sz (unat (max_size c)) (shared_entries c)"
proof (induction sz c w rule: SharedKvCache_evict.induct)
  case (1 sz c w)
  have size: "unat (current_size c) = total_size sz (shared_entries c)"
    using "1.prems" by (simp add: shared_acct_def)
  show ?case
  proof (cases "current_size c > max_size c")
    case False
    then show ?thesis
      using "1.prems" size
      by (subst SharedKvCache_evict.simps) (simp add: fit_all shared_ok_def word_le_nat_alt word_less_nat_alt)
  next
    case True
    then have big: "unat (max_size c) < total_size sz (shared_entries c)"
      by (simp add: word_less_nat_alt size)
    then have ne: "eviction_list c \<noteq> []"
      by (auto simp: shared_entries_def)
    obtain i k v d where e: "last (eviction_list c) = (i, k, v, d)"
      by (cases "last (eviction_list c)") auto
    define c1 where "c1 = c\<lparr>eviction_list := butlast (eviction_list c), cache_map := (cache_map c)(k := None),
      current_size := current_size c - sz v\<rparr>"
    have pop: "shared_acct sz c1" "shared_entries c = shared_entries c1 @ [(k, v, d)]"
      unfolding c1_def by (rule shared_pop[OF "1.prems" ne e])+
    have "max_size c1 = max_size c" by (simp add: c1_def)
    moreover have "SharedKvCache_evict sz c w = SharedKvCache_evict sz c1 True"
      using True ne e by (subst SharedKvCache_evict.simps) (simp add: c1_def)
    ultimately show ?thesis
      using "1.IH"[OF True ne e[symmetric] refl refl, folded c1_def, OF pop(1)] big
        fit_snoc[of "unat (max_size c)" sz "shared_entries c1" "(k, v, d)"]
      by (simp add: pop(2))
  qed
qed

lemma SharedKvCache_insert_ok:
  assumes ok: "shared_ok sz c" and k: "cache_map c k = None"
    and fits: "unat (max_size c) + unat (sz v) < 2 ^ 64"
  shows "\<exists>c'. SharedKvCache_insert sz c k v d =
      Inr (c', unat (max_size c) < total_size sz ((k, v, d) # shared_entries c)) \<and>
    shared_ok sz c' \<and> max_size c' = max_size c \<and>
    shared_entries c' = fit sz (unat (max_size c)) ((k, v, d) # shared_entries c)"
proof -
  define p where "p = c\<lparr>eviction_list := (next_node c, (k, v, d)) # eviction_list c,
    cache_map := (cache_map c)(k \<mapsto> next_node c), next_node := Suc (next_node c),
    current_size := current_size c + sz v\<rparr>"
  have idx: "index_ok fst (eviction_list c) (cache_map c) (next_node c)"
    and size: "unat (current_size c) = total_size sz (shared_entries c)" "unat (current_size c) \<le> unat (max_size c)"
    using ok by (simp_all add: shared_ok_def shared_acct_def word_le_nat_alt)
  have "unat (current_size c + sz v) = unat (current_size c) + unat (sz v)"
    using size fits by (subst unat_add_lem[THEN iffD1]) auto
  then have "shared_acct sz p"
    using index_ok_push[of fst "eviction_list c" "cache_map c" "next_node c" "(k, v, d)"] idx k size
    by (simp add: shared_acct_def p_def shared_entries_def)
  moreover have "shared_entries p = (k, v, d) # shared_entries c" "max_size p = max_size c"
    by (simp_all add: p_def shared_entries_def)
  ultimately show ?thesis
    using SharedKvCache_evict_ok[of sz p False] unfolding SharedKvCache_insert_def p_def[symmetric] by simp
qed

definition shared_spec_insert :: "('v \<Rightarrow> u64) \<Rightarrow> nat \<Rightarrow> 'k \<times> 'v \<times> bool \<Rightarrow> ('k \<times> 'v \<times> bool) list \<Rightarrow>
    ('k \<times> 'v \<times> bool) list \<times> bool" where
  "shared_spec_insert sz m e xs = (fit sz m (e # xs), m < total_size sz (e # xs))"

definition shared_spec_add :: "('v \<Rightarrow> u64) \<Rightarrow> bool \<Rightarrow> nat \<Rightarrow> 'k \<times> 'v \<times> bool \<Rightarrow> ('k \<times> 'v \<times> bool) list \<Rightarrow>
    ('k \<times> 'v \<times> bool) list \<times> bool" where
  "shared_spec_add sz strong m e xs = (case map_of xs (fst e) of
     None \<Rightarrow> shared_spec_insert sz m e xs
   | Some old \<Rightarrow>
       if strong then (lru_touch (fst e) xs, False)
       else if snd (snd e) \<and> \<not> snd old then (xs, False)
       else shared_spec_insert sz m e (lru_remove (fst e) xs))"

lemma SharedKvCache_touch_ok:
  assumes ok: "shared_ok sz c"
  shows "shared_ok sz (fst (SharedKvCache_touch c k))"
    and "shared_entries (fst (SharedKvCache_touch c k)) = lru_touch k (shared_entries c)"
    and "max_size (fst (SharedKvCache_touch c k)) = max_size c"
    and "snd (SharedKvCache_touch c k) = cache_map c k"
    and "cache_map (fst (SharedKvCache_touch c k)) = cache_map c"
proof -
  have acct: "shared_acct sz c" and idx: "index_ok fst (eviction_list c) (cache_map c) (next_node c)"
    using ok by (simp_all add: shared_ok_def shared_acct_def)
  have "shared_ok sz (fst (SharedKvCache_touch c k)) \<and>
    shared_entries (fst (SharedKvCache_touch c k)) = lru_touch k (shared_entries c)"
  proof (cases "cache_map c k")
    case None
    then show ?thesis
      using shared_lookup(1)[OF acct None] ok by (simp add: SharedKvCache_touch_def lru_touch_def)
  next
    case (Some i)
    obtain v d where e: "map_of (eviction_list c) i = Some (k, v, d)" "map_of (shared_entries c) k = Some (v, d)"
      using shared_lookup(2)[OF acct Some] by blast
    obtain e' where "fst e' = k" and e': "map_of (eviction_list c) i = Some e'"
      and "e' \<in> set (map snd (eviction_list c))"
      and l: "map snd (node_splice_front i (eviction_list c)) =
        e' # filter (\<lambda>e. fst e \<noteq> k) (map snd (eviction_list c))"
      and idx': "index_ok fst (node_splice_front i (eviction_list c)) (cache_map c) (next_node c)"
      by (rule index_ok_splice[OF idx Some])
    have ents: "map snd (node_splice_front i (eviction_list c)) = (k, v, d) # lru_remove k (shared_entries c)"
      using l e(1) e' by (simp add: lru_remove_def shared_entries_def)
    have "total_size sz (shared_entries c) = unat (sz v) + total_size sz (lru_remove k (shared_entries c))"
      by (rule total_remove[OF shared_distinct[OF acct] e(2)])
    then show ?thesis
      using ok e(2) idx' by (simp add: SharedKvCache_touch_def Some shared_ok_def shared_acct_def)
        (simp add: shared_entries_def[of "c\<lparr>eviction_list := l\<rparr>" for l] ents lru_touch_def)
  qed
  then show "shared_ok sz (fst (SharedKvCache_touch c k))"
    "shared_entries (fst (SharedKvCache_touch c k)) = lru_touch k (shared_entries c)" by blast+
qed (simp_all add: SharedKvCache_touch_def split: option.splits)

lemma SharedKvCache_get_ok:
  assumes ok: "shared_ok sz c"
  shows "SharedKvCache_get c k t = Inr (if t then fst (SharedKvCache_touch c k) else c,
    if map_of (shared_entries c) k = None then ERR_NOT_FOUND else ERR_OK,
    map_option fst (map_of (shared_entries c) k))"
proof (cases "cache_map c k")
  case None
  then show ?thesis
    using shared_lookup(1)[of sz c k] ok
    by (simp add: SharedKvCache_get_def SharedKvCache_touch_def shared_ok_def)
next
  case (Some i)
  have acct: "shared_acct sz c" using ok by (simp add: shared_ok_def)
  have acct': "shared_acct sz (fst (SharedKvCache_touch c k))"
    and ents: "shared_entries (fst (SharedKvCache_touch c k)) = lru_touch k (shared_entries c)"
    and map: "cache_map (fst (SharedKvCache_touch c k)) k = Some i" "snd (SharedKvCache_touch c k) = Some i"
    using SharedKvCache_touch_ok[OF ok, of k] Some by (simp_all add: shared_ok_def)
  obtain v d where e: "map_of (eviction_list c) i = Some (k, v, d)" "map_of (shared_entries c) k = Some (v, d)"
    using shared_lookup(2)[OF acct Some] by blast
  then have "map_of (eviction_list (fst (SharedKvCache_touch c k))) i = Some (k, v, d)"
    using shared_lookup(2)[OF acct' map(1)] by (auto simp: ents lru_touch_def)
  then show ?thesis
    using e Some map(2) by (simp add: SharedKvCache_get_def case_prod_beta)
qed

lemma SharedKvCache_remove_internal_ok:
  assumes ok: "shared_ok sz c"
  obtains c' where "SharedKvCache_remove_internal sz c k dirty = Inr (c', True)" "shared_ok sz c'"
      "shared_entries c' = lru_remove k (shared_entries c)" "max_size c' = max_size c" "cache_map c' k = None"
      "\<forall>v. dirty \<longrightarrow> map_of (shared_entries c) k \<noteq> Some (v, False)"
  | v where "SharedKvCache_remove_internal sz c k dirty = Inr (c, False)" "dirty"
      "map_of (shared_entries c) k = Some (v, False)"
proof (cases "cache_map c k")
  case None
  then show thesis
    using that(1)[of c] ok shared_lookup(1)[of sz c k]
    by (simp add: SharedKvCache_remove_internal_def shared_ok_def lru_remove_absent)
next
  case (Some i)
  have acct: "shared_acct sz c" using ok by (simp add: shared_ok_def)
  obtain v d where e: "map_of (eviction_list c) i = Some (k, v, d)" "map_of (shared_entries c) k = Some (v, d)"
    using shared_lookup(2)[OF acct Some] by blast
  define c' where "c' = c\<lparr>current_size := current_size c - sz v, cache_map := (cache_map c)(k := None),
    eviction_list := node_erase i (eviction_list c)\<rparr>"
  note drop = shared_drop[OF acct Some e(2), folded c'_def]
  show thesis
  proof (cases "dirty \<and> \<not> d")
    case True
    then show thesis
      using that(2)[of v] e Some by (simp add: SharedKvCache_remove_internal_def)
  next
    case False
    have same: "max_size c' = max_size c" "cache_map c' k = None" by (simp_all add: c'_def)
    have "shared_ok sz c'"
      using ok drop(1,3) same(1) by (auto simp: shared_ok_def)
    moreover have "SharedKvCache_remove_internal sz c k dirty = Inr (c', True)"
      using e Some False by (simp add: SharedKvCache_remove_internal_def c'_def)
    ultimately show thesis
      using that(1)[of c'] drop(2) same e(2) False by auto
  qed
qed

lemma SharedKvCache_add_ok:
  fixes c :: "('k, 'v) SharedKvCache" and k :: 'k and d strong :: bool
  assumes ok: "shared_ok sz c" and fits: "unat (max_size c) + unat (sz v) < 2 ^ 64"
  defines "r \<equiv> shared_spec_add sz strong (unat (max_size c)) (k, v, d) (shared_entries c)"
  shows "\<exists>c'. SharedKvCache_add sz strong c k v d = Inr (c', snd r) \<and> shared_ok sz c' \<and>
    max_size c' = max_size c \<and> shared_entries c' = fst r"
proof (cases strong)
  case True
  have acct: "shared_acct sz c" using ok by (simp add: shared_ok_def)
  note t = SharedKvCache_touch_ok[OF ok, of k]
  show ?thesis
  proof (cases "cache_map c k")
    case None
    then have "SharedKvCache_touch c k = (c, None)" by (simp add: SharedKvCache_touch_def)
    then show ?thesis
      using SharedKvCache_insert_ok[OF ok None fits] shared_lookup(1)[OF acct None] True
      by (simp add: SharedKvCache_add_def r_def shared_spec_add_def shared_spec_insert_def)
  next
    case (Some i)
    then show ?thesis
      using t shared_lookup(2)[OF acct Some] True
      by (cases "SharedKvCache_touch c k") (auto simp: SharedKvCache_add_def r_def shared_spec_add_def)
  qed
next
  case False
  show ?thesis
  proof (rule SharedKvCache_remove_internal_ok[OF ok, of k d])
    fix c' assume c': "SharedKvCache_remove_internal sz c k d = Inr (c', True)" "shared_ok sz c'"
      "shared_entries c' = lru_remove k (shared_entries c)" "max_size c' = max_size c" "cache_map c' k = None"
      "\<forall>v. d \<longrightarrow> map_of (shared_entries c) k \<noteq> Some (v, False)"
    have r: "r = shared_spec_insert sz (unat (max_size c)) (k, v, d) (lru_remove k (shared_entries c))"
      using False c'(6) lru_remove_absent[of "shared_entries c" k]
      by (auto simp: r_def shared_spec_add_def split: option.splits)
    show ?thesis
      using SharedKvCache_insert_ok[OF c'(2,5), of v d] fits False c'(1,3,4)
      by (simp add: SharedKvCache_add_def r shared_spec_insert_def)
  next
    fix w assume "SharedKvCache_remove_internal sz c k d = Inr (c, False)" "d"
      "map_of (shared_entries c) k = Some (w, False)"
    then show ?thesis
      using ok False by (simp add: SharedKvCache_add_def r_def shared_spec_add_def)
  qed
qed

lemma SharedKvCache_remove_ok:
  assumes ok: "shared_ok sz c"
  shows "\<exists>c'. SharedKvCache_remove sz c k = Inr c' \<and> shared_ok sz c' \<and> max_size c' = max_size c \<and>
    shared_entries c' = lru_remove k (shared_entries c)"
  by (rule SharedKvCache_remove_internal_ok[OF ok, of k False]) (simp_all add: SharedKvCache_remove_def)

interpretation shared: kv_cache "shared_ok sz" shared_entries "SharedKvCache_remove sz"
    "\<lambda>c k. fst (SharedKvCache_touch c k)" for sz
proof
  show "\<exists>c'. SharedKvCache_remove sz c k = Inr c' \<and> shared_ok sz c' \<and>
      shared_entries c' = lru_remove k (shared_entries c)"
    if "shared_ok sz c" for c :: "('b, 'a) SharedKvCache" and k
    using SharedKvCache_remove_ok[OF that, of k] by blast
qed (simp_all add: shared_distinct[where sz = sz] SharedKvCache_touch_ok shared_ok_acct)

lemma shared_exists: "shared_ok sz c \<Longrightarrow> SharedKvCache_exists c k \<longleftrightarrow> map_of (shared_entries c) k \<noteq> None"
  using shared_lookup[of sz c k] by (cases "cache_map c k") (auto simp: SharedKvCache_exists_def shared_ok_def)

lemma remove_if_step_remove:
  "cache_map c k \<noteq> None \<Longrightarrow>
   remove_if_step sz pred k c = (if pred k then SharedKvCache_remove sz c k else Inr c)"
  by (auto simp: remove_if_step_def SharedKvCache_remove_def SharedKvCache_remove_internal_def
    split: option.splits)

lemma SharedKvCache_remove_if_ok:
  assumes "shared_ok sz c" "distinct order" "\<forall>k\<in>set order. map_of (shared_entries c) k \<noteq> None"
  shows "\<exists>c'. SharedKvCache_remove_if sz order pred c = Inr c' \<and> shared_ok sz c' \<and> max_size c' = max_size c \<and>
    shared_entries c' = filter (\<lambda>e. \<not> (fst e \<in> set order \<and> pred (fst e))) (shared_entries c)"
  using assms unfolding SharedKvCache_remove_if_def
proof (induction order arbitrary: c)
  case Nil
  then show ?case by simp
next
  case (Cons k ks)
  have k: "cache_map c k \<noteq> None"
    using Cons.prems(3) shared_exists[OF Cons.prems(1), of k] by (simp add: SharedKvCache_exists_def)
  show ?case
  proof (cases "pred k")
    case True
    obtain c1 where c1: "SharedKvCache_remove sz c k = Inr c1" "shared_ok sz c1" "max_size c1 = max_size c"
      "shared_entries c1 = lru_remove k (shared_entries c)"
      using SharedKvCache_remove_ok[OF Cons.prems(1), of k] by blast
    have "\<forall>k'\<in>set ks. map_of (shared_entries c1) k' \<noteq> None"
      using Cons.prems shared.remove_lookup[OF Cons.prems(1) c1(1)] by auto
    then obtain c' where "foldR (remove_if_step sz pred) ks c1 = Inr c'" "shared_ok sz c'" "max_size c' = max_size c1"
      "shared_entries c' = filter (\<lambda>e. \<not> (fst e \<in> set ks \<and> pred (fst e))) (shared_entries c1)"
      using Cons.IH[OF c1(2)] Cons.prems(2) by auto
    moreover have "filter (\<lambda>e. \<not> (fst e \<in> set ks \<and> pred (fst e))) (lru_remove k (shared_entries c)) =
        filter (\<lambda>e. \<not> (fst e \<in> set (k # ks) \<and> pred (fst e))) (shared_entries c)"
      unfolding lru_remove_def filter_filter using True by (intro filter_cong) auto
    ultimately show ?thesis
      using c1 True by (simp add: remove_if_step_remove[OF k])
  next
    case False
    then have "filter (\<lambda>e. \<not> (fst e \<in> set ks \<and> pred (fst e))) (shared_entries c) =
        filter (\<lambda>e. \<not> (fst e \<in> set (k # ks) \<and> pred (fst e))) (shared_entries c)"
      by (intro filter_cong) auto
    then show ?thesis
      using Cons.IH[OF Cons.prems(1)] Cons.prems(2,3) False by (simp add: remove_if_step_remove[OF k])
  qed
qed

section \<open>Sequences of operations\<close>

datatype ('k, 'v) shared_op = SAdd 'k 'v bool | SGet 'k bool | SRemove 'k | SRemoveIf "'k \<Rightarrow> bool" | SClear

datatype 'v shared_out = SEvicted bool | SValue fds_errno "'v option" | SDone

fun shared_exec :: "('v \<Rightarrow> u64) \<Rightarrow> bool \<Rightarrow> (('k \<Rightarrow> nat option) \<Rightarrow> 'k list) \<Rightarrow> ('k, 'v) SharedKvCache \<Rightarrow>
    ('k, 'v) shared_op \<Rightarrow> (('k, 'v) SharedKvCache \<times> 'v shared_out) res" where
  "shared_exec sz strong walk c (SAdd k v d) =
     bindR (SharedKvCache_add sz strong c k v d) (\<lambda>(c', ev). Inr (c', SEvicted ev))"
| "shared_exec sz strong walk c (SGet k t) =
     bindR (SharedKvCache_get c k t) (\<lambda>(c', err, v). Inr (c', SValue err v))"
| "shared_exec sz strong walk c (SRemove k) = bindR (SharedKvCache_remove sz c k) (\<lambda>c'. Inr (c', SDone))"
| "shared_exec sz strong walk c (SRemoveIf pred) =
     bindR (SharedKvCache_remove_if sz (walk (cache_map c)) pred c) (\<lambda>c'. Inr (c', SDone))"
| "shared_exec sz strong walk c SClear = Inr (SharedKvCache_clear c, SDone)"

abbreviation shared_run :: "('v \<Rightarrow> u64) \<Rightarrow> bool \<Rightarrow> (('k \<Rightarrow> nat option) \<Rightarrow> 'k list) \<Rightarrow> ('k, 'v) SharedKvCache \<Rightarrow>
    ('k, 'v) shared_op list \<Rightarrow> (('k, 'v) SharedKvCache \<times> 'v shared_out list) res" where
  "shared_run sz strong walk \<equiv> run_ops (shared_exec sz strong walk)"

fun shared_spec_exec :: "('v \<Rightarrow> u64) \<Rightarrow> bool \<Rightarrow> nat \<Rightarrow> ('k \<times> 'v \<times> bool) list \<Rightarrow> ('k, 'v) shared_op \<Rightarrow>
    ('k \<times> 'v \<times> bool) list \<times> 'v shared_out" where
  "shared_spec_exec sz strong m xs (SAdd k v d) =
     (case shared_spec_add sz strong m (k, v, d) xs of (xs', ev) \<Rightarrow> (xs', SEvicted ev))"
| "shared_spec_exec sz strong m xs (SGet k t) = (if t then lru_touch k xs else xs,
     case map_of xs k of None \<Rightarrow> SValue ERR_NOT_FOUND None | Some e \<Rightarrow> SValue ERR_OK (Some (fst e)))"
| "shared_spec_exec sz strong m xs (SRemove k) = (lru_remove k xs, SDone)"
| "shared_spec_exec sz strong m xs (SRemoveIf pred) = (filter (\<lambda>e. \<not> pred (fst e)) xs, SDone)"
| "shared_spec_exec sz strong m xs SClear = ([], SDone)"

fun shared_spec_run :: "('v \<Rightarrow> u64) \<Rightarrow> bool \<Rightarrow> nat \<Rightarrow> ('k \<times> 'v \<times> bool) list \<Rightarrow> ('k, 'v) shared_op list \<Rightarrow>
    ('k \<times> 'v \<times> bool) list \<times> 'v shared_out list" where
  "shared_spec_run sz strong m xs [] = (xs, [])"
| "shared_spec_run sz strong m xs (a # as) =
     (let (xs', r) = shared_spec_exec sz strong m xs a;
          (xs'', rs) = shared_spec_run sz strong m xs' as in (xs'', r # rs))"

definition shared_sim :: "('v \<Rightarrow> u64) \<Rightarrow> ('k, 'v) SharedKvCache \<Rightarrow> u64 \<Rightarrow> ('k \<times> 'v \<times> bool) list \<Rightarrow> bool" where
  "shared_sim sz c n xs \<longleftrightarrow> shared_ok sz c \<and> max_size c = n \<and> shared_entries c = xs"

lemma shared_dom:
  assumes "shared_ok sz c"
  shows "dom (cache_map c) = fst ` set (shared_entries c)"
proof -
  have "k \<in> dom (cache_map c) \<longleftrightarrow> k \<in> fst ` set (shared_entries c)" for k
    using shared_exists[OF assms, of k] map_of_eq_None_iff[of "shared_entries c" k]
    by (auto simp: SharedKvCache_exists_def)
  then show ?thesis by blast
qed

lemma shared_sim_remove_if:
  assumes walk: "hash_walk walk" and sim: "shared_sim sz c n xs"
  shows "\<exists>c'. SharedKvCache_remove_if sz (walk (cache_map c)) pred c = Inr c' \<and>
    shared_sim sz c' n (filter (\<lambda>e. \<not> pred (fst e)) xs)"
proof -
  have ok: "shared_ok sz c" and xs: "shared_entries c = xs" and n: "max_size c = n"
    using sim by (simp_all add: shared_sim_def)
  have walk': "distinct (walk (cache_map c))" "set (walk (cache_map c)) = fst ` set xs"
    using walk shared_dom[OF ok] xs by (simp_all add: hash_walk_def)
  have "\<forall>k\<in>set (walk (cache_map c)). map_of (shared_entries c) k \<noteq> None"
    by (simp add: walk'(2) xs map_of_eq_None_iff)
  moreover have "filter (\<lambda>e. \<not> (fst e \<in> set (walk (cache_map c)) \<and> pred (fst e))) xs = filter (\<lambda>e. \<not> pred (fst e)) xs"
    unfolding walk'(2) by (intro filter_cong) auto
  ultimately show ?thesis
    using SharedKvCache_remove_if_ok[OF ok walk'(1), of pred] by (simp add: shared_sim_def xs n)
qed

lemma shared_exec_sim:
  assumes walk: "hash_walk walk" and fits: "\<forall>v. unat n + unat (sz v) < 2 ^ 64"
    and sim: "shared_sim sz c n xs"
  shows "\<exists>c'. shared_exec sz strong walk c a = Inr (c', snd (shared_spec_exec sz strong (unat n) xs a)) \<and>
    shared_sim sz c' n (fst (shared_spec_exec sz strong (unat n) xs a))"
proof -
  have ok: "shared_ok sz c" and xs: "shared_entries c = xs" and n: "max_size c = n"
    using sim by (simp_all add: shared_sim_def)
  show ?thesis
  proof (cases a)
    case (SAdd k v d)
    then show ?thesis
      using SharedKvCache_add_ok[OF ok, of v strong k d] fits
      by (auto simp: n xs shared_sim_def case_prod_beta)
  next
    case (SGet k t)
    then show ?thesis
      using SharedKvCache_touch_ok[OF ok, of k] sim
      by (simp add: SharedKvCache_get_ok[OF ok] xs shared_sim_def n split: option.splits)
  next
    case (SRemove k)
    then show ?thesis
      using SharedKvCache_remove_ok[OF ok, of k] by (auto simp: xs n shared_sim_def)
  next
    case (SRemoveIf pred)
    then show ?thesis
      using shared_sim_remove_if[OF walk sim, of pred] by auto
  next
    case SClear
    then show ?thesis
      using ok by (simp add: SharedKvCache_clear_def shared_sim_def shared_ok_def shared_acct_def
        shared_entries_def index_ok_Nil n)
  qed
qed

lemma shared_run_sim:
  assumes "hash_walk walk" "\<forall>v. unat n + unat (sz v) < 2 ^ 64" "shared_sim sz c n xs"
  shows "\<exists>c'. shared_run sz strong walk c as = Inr (c', snd (shared_spec_run sz strong (unat n) xs as)) \<and>
    shared_sim sz c' n (fst (shared_spec_run sz strong (unat n) xs as))"
  using assms(3)
proof (induction as arbitrary: c xs)
  case Nil
  then show ?case by simp
next
  case (Cons a as)
  obtain c1 where c1: "shared_exec sz strong walk c a = Inr (c1, snd (shared_spec_exec sz strong (unat n) xs a))"
    "shared_sim sz c1 n (fst (shared_spec_exec sz strong (unat n) xs a))"
    using shared_exec_sim[OF assms(1,2) Cons.prems] by blast
  then show ?case
    using Cons.IH[OF c1(2)] by (auto simp: Let_def case_prod_beta)
qed

lemma shared_sim_new: "shared_sim sz (SharedKvCache_new n) n []"
  by (simp add: shared_sim_def SharedKvCache_new_def shared_ok_def shared_acct_def shared_entries_def index_ok_Nil)

text \<open>
  C29. Let no value be so large that its size and the limit together pass \<^verbatim>\<open>size_t\<close>, and let
  iteration over a hash map give every key once. Then any sequence of additions, lookups,
  removals, predicate removals and clears on a new \<^verbatim>\<open>SharedKvCache\<close> runs to its end (the
  eviction loop never reads an empty list) and answers as the plain list kept by the contract
  would: the most recently used entries that fit, an existing clean entry winning over a
  dirty one and, with strong association, an existing entry over any other. The size it
  reports is the sum of the sizes of its entries and at most the limit.
\<close>

theorem SharedKvCache_refines:
  assumes "hash_walk walk" "\<forall>v. unat n + unat (sz v) < 2 ^ 64"
  shows "\<exists>c. shared_run sz strong walk (SharedKvCache_new n) as =
      Inr (c, snd (shared_spec_run sz strong (unat n) [] as)) \<and>
    shared_entries c = fst (shared_spec_run sz strong (unat n) [] as) \<and>
    (\<forall>k. SharedKvCache_exists c k = (map_of (fst (shared_spec_run sz strong (unat n) [] as)) k \<noteq> None)) \<and>
    unat (getSize c) = total_size sz (fst (shared_spec_run sz strong (unat n) [] as)) \<and>
    getSize c \<le> n"
proof -
  obtain c where run: "shared_run sz strong walk (SharedKvCache_new n) as =
      Inr (c, snd (shared_spec_run sz strong (unat n) [] as))"
    and sim: "shared_sim sz c n (fst (shared_spec_run sz strong (unat n) [] as))"
    using shared_run_sim[OF assms shared_sim_new, of strong as] by blast
  then have ok: "shared_ok sz c" and ents: "shared_entries c = fst (shared_spec_run sz strong (unat n) [] as)"
    and n: "max_size c = n"
    by (simp_all add: shared_sim_def)
  have "unat (getSize c) = total_size sz (shared_entries c)" "getSize c \<le> n"
    using ok n by (simp_all add: getSize_def shared_ok_def shared_acct_def)
  then show ?thesis
    using run ents shared_exists[OF ok] by simp
qed

theorem SharedKvCache_refines_witness:
  "\<exists>c. shared_run size_calc_one False (\<lambda>m. sorted_list_of_set (dom m)) (SharedKvCache_new 2)
      [SAdd (1 :: nat) ''a'' False, SAdd 1 ''b'' True, SAdd 2 ''c'' True, SGet 1 True, SAdd 3 ''d'' False,
       SRemoveIf (\<lambda>k. k = 3), SGet 2 True] =
      Inr (c, [SEvicted False, SEvicted False, SEvicted False, SValue ERR_OK (Some ''a''), SEvicted True,
               SDone, SValue ERR_NOT_FOUND None]) \<and>
    shared_entries c = [(1, ''a'', False)] \<and> getSize c \<le> 2"
proof -
  let ?as = "[SAdd (1 :: nat) ''a'' False, SAdd 1 ''b'' True, SAdd 2 ''c'' True, SGet 1 True, SAdd 3 ''d'' False,
    SRemoveIf (\<lambda>k. k = 3), SGet 2 True]"
  have walk: "hash_walk (\<lambda>m. sorted_list_of_set (dom (m :: nat \<Rightarrow> nat option)))"
    by (simp add: hash_walk_def)
  have fits: "\<forall>v :: string. unat (2 :: u64) + unat (size_calc_one v) < 2 ^ 64"
    by (simp add: size_calc_one_def)
  have "shared_spec_run size_calc_one False (unat (2 :: u64)) [] ?as = ([(1, ''a'', False)],
      [SEvicted False, SEvicted False, SEvicted False, SValue ERR_OK (Some ''a''), SEvicted True, SDone,
       SValue ERR_NOT_FOUND None])"
    by (simp add: shared_spec_add_def shared_spec_insert_def lru_remove_def lru_touch_def size_calc_one_def)
  then show ?thesis
    using SharedKvCache_refines[OF walk fits, of False ?as] by auto
qed

lemma total_take_le: "total_size sz (take i xs) \<le> total_size sz xs"
  using total_simps(3)[of sz "take i xs" "drop i xs"] by simp

lemma fit_iff:
  assumes "i \<le> length xs"
  shows "total_size sz (take i xs) \<le> m \<longleftrightarrow> i \<le> length (fit sz m xs)"
proof
  assume "total_size sz (take i xs) \<le> m"
  then have "length (take i xs) = length (take i (fit sz m xs))"
    by (rule arg_cong[OF fit_longest])
  then show "i \<le> length (fit sz m xs)"
    using assms by simp
next
  assume i: "i \<le> length (fit sz m xs)"
  have "take i xs = take i (fit sz m xs)"
    by (subst fit_prefix) (use i in \<open>simp add: min_def\<close>)
  then show "total_size sz (take i xs) \<le> m"
    using total_take_le[of sz i "fit sz m xs"] total_fit[of sz m xs] by simp
qed

text \<open>
  C32. Eviction takes no more than it must. In a cache within its limit, add a new key with a
  value whose size does not overflow: the entries afterwards are a prefix of the new entry
  followed by the older ones in the order of use, they fit the limit, and no longer prefix
  does. The answer says whether anything was evicted.
\<close>

theorem SharedKvCache_evicts_least:
  assumes "shared_ok sz c" "map_of (shared_entries c) k = None" "unat (max_size c) + unat (sz v) < 2 ^ 64"
  shows "\<exists>c' j. SharedKvCache_add sz strong c k v d = Inr (c', j < Suc (length (shared_entries c))) \<and>
    shared_ok sz c' \<and> shared_entries c' = take j ((k, v, d) # shared_entries c) \<and>
    (\<forall>i \<le> Suc (length (shared_entries c)).
       total_size sz (take i ((k, v, d) # shared_entries c)) \<le> unat (max_size c) \<longleftrightarrow> i \<le> j)"
proof -
  define l where "l = (k, v, d) # shared_entries c"
  define j where "j = length (fit sz (unat (max_size c)) l)"
  have len: "length l = Suc (length (shared_entries c))" by (simp add: l_def)
  have iff: "total_size sz (take i l) \<le> unat (max_size c) \<longleftrightarrow> i \<le> j" if "i \<le> length l" for i
    unfolding j_def by (rule fit_iff[OF that])
  have "unat (max_size c) < total_size sz l \<longleftrightarrow> j < length l"
    using iff[OF order_refl] by auto
  moreover have "shared_spec_add sz strong (unat (max_size c)) (k, v, d) (shared_entries c) =
      (take j l, unat (max_size c) < total_size sz l)"
    using assms(2) fit_prefix[of sz "unat (max_size c)" l]
    by (simp add: shared_spec_add_def shared_spec_insert_def j_def l_def[symmetric])
  ultimately show ?thesis
    using SharedKvCache_add_ok[OF assms(1,3), of strong k d] iff
    unfolding l_def[symmetric] len[symmetric] by auto
qed

theorem SharedKvCache_evicts_least_witness:
  "\<exists>c' j. SharedKvCache_add size_calc_one False (SharedKvCache_new 0) (1 :: nat) ''a'' False = Inr (c', j < Suc 0) \<and>
    shared_entries c' = take j [(1, ''a'', False)] \<and> j = 0"
proof -
  let ?c = "SharedKvCache_new 0 :: (nat, string) SharedKvCache"
  have "shared_sim size_calc_one ?c 0 []"
    by (rule shared_sim_new)
  then have c: "shared_ok size_calc_one ?c" "shared_entries ?c = []" "max_size ?c = 0"
    by (simp_all add: shared_sim_def)
  obtain c' j where "SharedKvCache_add size_calc_one False ?c 1 ''a'' False = Inr (c', j < Suc 0)"
    "shared_entries c' = take j [(1, ''a'', False)]"
    and j: "\<forall>i \<le> Suc 0. total_size size_calc_one (take i [(1 :: nat, ''a'', False)]) \<le> 0 \<longleftrightarrow> i \<le> j"
    using SharedKvCache_evicts_least[OF c(1), of 1 "''a''" False False] c
    by (auto simp: size_calc_one_def)
  moreover have "j = 0"
    using j[rule_format, of "Suc 0"] by (simp add: size_calc_one_def)
  ultimately show ?thesis by blast
qed

end
