(* ===== verification/Volume_Cache.thy ===== *)
theory Volume_Cache
  imports Shared_Cache
begin

text \<open>
  The managers that keep one cache per volume: \<^verbatim>\<open>VolumeCacheManager\<close>
  (\<^verbatim>\<open>include/cache/VolumeKvCache.h\<close>) over \<^verbatim>\<open>LruKvCache\<close> and \<^verbatim>\<open>VolumeSharedCacheManager\<close>
  (\<^verbatim>\<open>include/cache/VolumeSharedKvCache.h\<close>) over \<^verbatim>\<open>SharedKvCache\<close>. A manager is a map from
  volume identifiers to caches. The calls take the lock of the map and of the cache, so each
  is one step of the model.
\<close>

type_synonym volid = u64

datatype EvictionType = LRU

section \<open>VolumeCacheManager\<close>

type_synonym ('k, 'v) VolumeCacheManager = "volid \<Rightarrow> ('k, 'v) LruKvCache option"

definition VolumeCacheManager_new :: "('k, 'v) VolumeCacheManager" where
  "VolumeCacheManager_new = (\<lambda>_. None)"

definition createCache :: "('k, 'v) VolumeCacheManager \<Rightarrow> volid \<Rightarrow> u32 \<Rightarrow> EvictionType \<Rightarrow>
    ('k, 'v) VolumeCacheManager \<times> fds_errno" where
  "createCache m vol n et = (if m vol \<noteq> None then (m, ERR_VOL_DUPLICATE)
     else (case et of LRU \<Rightarrow> (m(vol \<mapsto> LruKvCache_new n), ERR_OK)))"

definition deleteCache :: "('k, 'v) VolumeCacheManager \<Rightarrow> volid \<Rightarrow> ('k, 'v) VolumeCacheManager \<times> fds_errno" where
  "deleteCache m vol = (if m vol = None then (m, ERR_NOT_FOUND) else (m(vol := None), ERR_OK))"

definition VolumeCacheManager_add :: "('k, 'v) VolumeCacheManager \<Rightarrow> volid \<Rightarrow> 'k \<Rightarrow> 'v option \<Rightarrow>
    (('k, 'v) VolumeCacheManager \<times> 'v option) res" where
  "VolumeCacheManager_add m vol k v = (case m vol of
     None \<Rightarrow> Inl Panic
   | Some c \<Rightarrow> bindR (LruKvCache_add c k v) (\<lambda>(c', ev). Inr (m(vol \<mapsto> c'), ev)))"

fun addBatch_loop :: "('k, 'v) LruKvCache \<Rightarrow> ('k \<times> 'v option) list \<Rightarrow> 'v list \<Rightarrow>
    (('k, 'v) LruKvCache \<times> 'v list) res" where
  "addBatch_loop c [] evictList = Inr (c, evictList)"
| "addBatch_loop c (p # ps) evictList = bindR (LruKvCache_add c (fst p) (snd p)) (\<lambda>(c', ev).
     addBatch_loop c' ps (case ev of None \<Rightarrow> evictList | Some x \<Rightarrow> evictList @ [x]))"

definition addBatch :: "('k, 'v) VolumeCacheManager \<Rightarrow> volid \<Rightarrow> ('k \<times> 'v option) list \<Rightarrow>
    (('k, 'v) VolumeCacheManager \<times> 'v list) res" where
  "addBatch m vol pairList = (case m vol of
     None \<Rightarrow> Inl Panic
   | Some c \<Rightarrow> bindR (addBatch_loop c pairList []) (\<lambda>(c', evs). Inr (m(vol \<mapsto> c'), evs)))"

definition VolumeCacheManager_clear :: "('k, 'v) VolumeCacheManager \<Rightarrow> volid \<Rightarrow>
    ('k, 'v) VolumeCacheManager \<times> fds_errno" where
  "VolumeCacheManager_clear m vol = (case m vol of
     None \<Rightarrow> (m, ERR_NOT_FOUND)
   | Some c \<Rightarrow> (m(vol \<mapsto> LruKvCache_clear c), ERR_OK))"

definition VolumeCacheManager_get :: "('k, 'v) VolumeCacheManager \<Rightarrow> volid \<Rightarrow> 'k \<Rightarrow>
    (('k, 'v) VolumeCacheManager \<times> fds_errno \<times> 'v option option) res" where
  "VolumeCacheManager_get m vol k = (case m vol of
     None \<Rightarrow> Inr (m, ERR_NOT_FOUND, None)
   | Some c \<Rightarrow> bindR (LruKvCache_get c k True) (\<lambda>(c', r). Inr (m(vol \<mapsto> c'), r)))"

definition VolumeCacheManager_remove :: "('k, 'v) VolumeCacheManager \<Rightarrow> volid \<Rightarrow> 'k \<Rightarrow>
    (('k, 'v) VolumeCacheManager \<times> fds_errno) res" where
  "VolumeCacheManager_remove m vol k = (case m vol of
     None \<Rightarrow> Inr (m, ERR_NOT_FOUND)
   | Some c \<Rightarrow> bindR (LruKvCache_remove c k) (\<lambda>c'. Inr (m(vol \<mapsto> c'), ERR_OK)))"

section \<open>VolumeSharedCacheManager\<close>

type_synonym ('k, 'v) VolumeSharedCacheManager = "volid \<Rightarrow> ('k, 'v) SharedKvCache option"

definition addVolume :: "('k, 'v) VolumeSharedCacheManager \<Rightarrow> volid \<Rightarrow> u64 \<Rightarrow>
    ('k, 'v) VolumeSharedCacheManager \<times> fds_errno" where
  "addVolume m vol n = (if m vol \<noteq> None then (m, ERR_VOL_DUPLICATE)
     else (m(vol \<mapsto> SharedKvCache_new n), ERR_OK))"

definition removeVolume :: "('k, 'v) VolumeSharedCacheManager \<Rightarrow> volid \<Rightarrow>
    ('k, 'v) VolumeSharedCacheManager \<times> fds_errno" where
  "removeVolume m vol = (if m vol = None then (m, ERR_NOT_FOUND) else (m(vol := None), ERR_OK))"

definition VolumeShared_add :: "('v \<Rightarrow> u64) \<Rightarrow> bool \<Rightarrow> ('k, 'v) VolumeSharedCacheManager \<Rightarrow> volid \<Rightarrow> 'k \<Rightarrow> 'v \<Rightarrow> bool \<Rightarrow>
    (('k, 'v) VolumeSharedCacheManager \<times> bool) res" where
  "VolumeShared_add sz strong m vol k v dirty = (case m vol of
     None \<Rightarrow> Inr (m, False)
   | Some c \<Rightarrow> bindR (SharedKvCache_add sz strong c k v dirty) (\<lambda>(c', ev). Inr (m(vol \<mapsto> c'), ev)))"

definition add_dirty :: "('v \<Rightarrow> u64) \<Rightarrow> bool \<Rightarrow> ('k, 'v) VolumeSharedCacheManager \<Rightarrow> volid \<Rightarrow> 'k \<Rightarrow> 'v \<Rightarrow>
    (('k, 'v) VolumeSharedCacheManager \<times> bool) res" where
  "add_dirty sz strong m vol k v = VolumeShared_add sz strong m vol k v True"

definition VolumeShared_clear :: "('k, 'v) VolumeSharedCacheManager \<Rightarrow> volid \<Rightarrow>
    ('k, 'v) VolumeSharedCacheManager \<times> fds_errno" where
  "VolumeShared_clear m vol = (case m vol of
     None \<Rightarrow> (m, ERR_NOT_FOUND)
   | Some c \<Rightarrow> (m(vol \<mapsto> SharedKvCache_clear c), ERR_OK))"

definition VolumeShared_get :: "('k, 'v) VolumeSharedCacheManager \<Rightarrow> volid \<Rightarrow> 'k \<Rightarrow>
    (('k, 'v) VolumeSharedCacheManager \<times> fds_errno \<times> 'v option) res" where
  "VolumeShared_get m vol k = (case m vol of
     None \<Rightarrow> Inr (m, ERR_NOT_FOUND, None)
   | Some c \<Rightarrow> bindR (SharedKvCache_get c k True) (\<lambda>(c', r). Inr (m(vol \<mapsto> c'), r)))"

definition VolumeShared_remove :: "('v \<Rightarrow> u64) \<Rightarrow> ('k, 'v) VolumeSharedCacheManager \<Rightarrow> volid \<Rightarrow> 'k \<Rightarrow>
    (('k, 'v) VolumeSharedCacheManager \<times> fds_errno) res" where
  "VolumeShared_remove sz m vol k = (case m vol of
     None \<Rightarrow> Inr (m, ERR_NOT_FOUND)
   | Some c \<Rightarrow> bindR (SharedKvCache_remove sz c k) (\<lambda>c'. Inr (m(vol \<mapsto> c'), ERR_OK)))"

definition VolumeShared_remove_if :: "('v \<Rightarrow> u64) \<Rightarrow> (('k \<Rightarrow> nat option) \<Rightarrow> 'k list) \<Rightarrow>
    ('k, 'v) VolumeSharedCacheManager \<Rightarrow> volid \<Rightarrow> ('k \<Rightarrow> bool) \<Rightarrow>
    (('k, 'v) VolumeSharedCacheManager \<times> fds_errno) res" where
  "VolumeShared_remove_if sz walk m vol pred = (case m vol of
     None \<Rightarrow> Inr (m, ERR_NOT_FOUND)
   | Some c \<Rightarrow> bindR (SharedKvCache_remove_if sz (walk (cache_map c)) pred c)
       (\<lambda>c'. Inr (m(vol \<mapsto> c'), ERR_OK)))"

section \<open>Calls as data\<close>

datatype ('k, 'v) mgr_op = CreateCache volid u32 EvictionType | DeleteCache volid | MAdd volid 'k "'v option"
  | MAddBatch volid "('k \<times> 'v option) list" | MClear volid | MGet volid 'k | MRemove volid 'k

datatype 'v mgr_out = MStatus fds_errno | MEvicted "'v option" | MBatch "'v list"
  | MValue fds_errno "'v option option"

fun mgr_vol :: "('k, 'v) mgr_op \<Rightarrow> volid" where
  "mgr_vol (CreateCache vol n et) = vol"
| "mgr_vol (DeleteCache vol) = vol"
| "mgr_vol (MAdd vol k v) = vol"
| "mgr_vol (MAddBatch vol ps) = vol"
| "mgr_vol (MClear vol) = vol"
| "mgr_vol (MGet vol k) = vol"
| "mgr_vol (MRemove vol k) = vol"

fun mgr_exec :: "('k, 'v) VolumeCacheManager \<Rightarrow> ('k, 'v) mgr_op \<Rightarrow>
    (('k, 'v) VolumeCacheManager \<times> 'v mgr_out) res" where
  "mgr_exec m (CreateCache vol n et) = Inr (apsnd MStatus (createCache m vol n et))"
| "mgr_exec m (DeleteCache vol) = Inr (apsnd MStatus (deleteCache m vol))"
| "mgr_exec m (MAdd vol k v) = bindR (VolumeCacheManager_add m vol k v) (\<lambda>r. Inr (apsnd MEvicted r))"
| "mgr_exec m (MAddBatch vol ps) = bindR (addBatch m vol ps) (\<lambda>r. Inr (apsnd MBatch r))"
| "mgr_exec m (MClear vol) = Inr (apsnd MStatus (VolumeCacheManager_clear m vol))"
| "mgr_exec m (MGet vol k) = bindR (VolumeCacheManager_get m vol k) (\<lambda>(m', err, v). Inr (m', MValue err v))"
| "mgr_exec m (MRemove vol k) = bindR (VolumeCacheManager_remove m vol k) (\<lambda>r. Inr (apsnd MStatus r))"

datatype ('k, 'v) vshared_op = AddVolume volid u64 | RemoveVolume volid | VAdd volid 'k 'v bool
  | VAddDirty volid 'k 'v | VClear volid | VGet volid 'k | VRemove volid 'k | VRemoveIf volid "'k \<Rightarrow> bool"

datatype 'v vshared_out = VStatus fds_errno | VEvicted bool | VValue fds_errno "'v option"

fun vshared_vol :: "('k, 'v) vshared_op \<Rightarrow> volid" where
  "vshared_vol (AddVolume vol n) = vol"
| "vshared_vol (RemoveVolume vol) = vol"
| "vshared_vol (VAdd vol k v d) = vol"
| "vshared_vol (VAddDirty vol k v) = vol"
| "vshared_vol (VClear vol) = vol"
| "vshared_vol (VGet vol k) = vol"
| "vshared_vol (VRemove vol k) = vol"
| "vshared_vol (VRemoveIf vol pred) = vol"

fun vshared_exec :: "('v \<Rightarrow> u64) \<Rightarrow> bool \<Rightarrow> (('k \<Rightarrow> nat option) \<Rightarrow> 'k list) \<Rightarrow>
    ('k, 'v) VolumeSharedCacheManager \<Rightarrow> ('k, 'v) vshared_op \<Rightarrow>
    (('k, 'v) VolumeSharedCacheManager \<times> 'v vshared_out) res" where
  "vshared_exec sz strong walk m (AddVolume vol n) = Inr (apsnd VStatus (addVolume m vol n))"
| "vshared_exec sz strong walk m (RemoveVolume vol) = Inr (apsnd VStatus (removeVolume m vol))"
| "vshared_exec sz strong walk m (VAdd vol k v d) =
     bindR (VolumeShared_add sz strong m vol k v d) (\<lambda>r. Inr (apsnd VEvicted r))"
| "vshared_exec sz strong walk m (VAddDirty vol k v) =
     bindR (add_dirty sz strong m vol k v) (\<lambda>r. Inr (apsnd VEvicted r))"
| "vshared_exec sz strong walk m (VClear vol) = Inr (apsnd VStatus (VolumeShared_clear m vol))"
| "vshared_exec sz strong walk m (VGet vol k) =
     bindR (VolumeShared_get m vol k) (\<lambda>(m', err, v). Inr (m', VValue err v))"
| "vshared_exec sz strong walk m (VRemove vol k) =
     bindR (VolumeShared_remove sz m vol k) (\<lambda>r. Inr (apsnd VStatus r))"
| "vshared_exec sz strong walk m (VRemoveIf vol pred) =
     bindR (VolumeShared_remove_if sz walk m vol pred) (\<lambda>r. Inr (apsnd VStatus r))"

section \<open>One volume does not see another\<close>

definition only :: "volid \<Rightarrow> (volid \<Rightarrow> 'c option) \<Rightarrow> volid \<Rightarrow> 'c option" where
  "only v m = (\<lambda>_. None)(v := m v)"

lemma only_simps [simp]:
  "only v m v = m v"
  "(only v m)(v := c) = only v (m(v := c))"
  "only v (only v m) = only v m"
  "v \<noteq> w \<Longrightarrow> only v (m(w := c)) = only v m"
  "only v (\<lambda>_. None) = (\<lambda>_. None)"
  by (auto simp: only_def)

definition outputs_of :: "('a \<Rightarrow> volid) \<Rightarrow> volid \<Rightarrow> 'a list \<Rightarrow> 'r list \<Rightarrow> 'r list" where
  "outputs_of vol v as rs = map snd (filter (\<lambda>(a, r). vol a = v) (zip as rs))"

text \<open>
  A manager whose calls each act on the volume they name: what a call does and answers is
  decided by that volume's cache, and it changes no other.
\<close>

locale per_volume =
  fixes vol :: "'a \<Rightarrow> volid"
    and exec :: "(volid \<Rightarrow> 'c option) \<Rightarrow> 'a \<Rightarrow> ((volid \<Rightarrow> 'c option) \<times> 'r) res"
  assumes exec_local:
    "exec m a = bindR (exec (only (vol a) m) a) (\<lambda>(m1, r). Inr (m(vol a := m1 (vol a)), r))"
begin

lemma exec_other: "exec m a = Inr (m', r) \<Longrightarrow> v \<noteq> vol a \<Longrightarrow> m' v = m v"
  using exec_local[of m a] by (auto simp: bindR_eq_Inr)

lemma exec_only:
  assumes "exec m a = Inr (m', r)"
  shows "exec (only (vol a) m) a = Inr (only (vol a) m', r)"
proof -
  obtain m1 where m1: "exec (only (vol a) m) a = Inr (m1, r)" "m' = m(vol a := m1 (vol a))"
    using assms exec_local[of m a] by (auto simp: bindR_eq_Inr)
  then have "m1 = only (vol a) (m(vol a := m1 (vol a)))"
    using exec_local[of "only (vol a) m" a, unfolded only_simps(3) m1(1)] by simp
  then show ?thesis using m1 by simp
qed

lemma run_projects:
  "run_ops exec m as = Inr (m', rs) \<Longrightarrow>
   run_ops exec (only v m) (filter (\<lambda>a. vol a = v) as) = Inr (only v m', outputs_of vol v as rs)"
proof (induction as arbitrary: m rs)
  case Nil
  then show ?case by (simp add: outputs_of_def)
next
  case (Cons a as)
  obtain m1 r rs' where step: "exec m a = Inr (m1, r)" and rest: "run_ops exec m1 as = Inr (m', rs')"
    and rs: "rs = r # rs'"
    using Cons.prems by (auto simp: bindR_eq_Inr)
  show ?case
  proof (cases "vol a = v")
    case True
    then show ?thesis
      using Cons.IH[OF rest] exec_only[OF step] by (simp add: rs outputs_of_def)
  next
    case False
    then have "only v m1 = only v m"
      using exec_other[OF step, of v] by (simp add: only_def)
    then show ?thesis
      using Cons.IH[OF rest] False by (simp add: rs outputs_of_def)
  qed
qed

end

interpretation vol_lru: per_volume mgr_vol mgr_exec
proof
  show "mgr_exec m a = bindR (mgr_exec (only (mgr_vol a) m) a)
      (\<lambda>(m1, r). Inr (m(mgr_vol a := m1 (mgr_vol a)), r))"
    for m :: "('a, 'b) VolumeCacheManager" and a
    by (cases a) (auto simp: createCache_def deleteCache_def VolumeCacheManager_add_def addBatch_def
      VolumeCacheManager_clear_def VolumeCacheManager_get_def VolumeCacheManager_remove_def
      bindR_def fun_upd_idem split: option.splits sum.splits EvictionType.splits)
qed

interpretation vol_shared: per_volume vshared_vol "vshared_exec sz strong walk" for sz strong walk
proof
  show "vshared_exec sz strong walk m a = bindR (vshared_exec sz strong walk (only (vshared_vol a) m) a)
      (\<lambda>(m1, r). Inr (m(vshared_vol a := m1 (vshared_vol a)), r))"
    for m :: "('a, 'b) VolumeSharedCacheManager" and a
    by (cases a) (auto simp: addVolume_def removeVolume_def VolumeShared_add_def add_dirty_def
      VolumeShared_clear_def VolumeShared_get_def VolumeShared_remove_def VolumeShared_remove_if_def
      bindR_def fun_upd_idem split: option.splits sum.splits)
qed

section \<open>No call of the shared manager fails\<close>

fun small_op :: "('k, 'v) vshared_op \<Rightarrow> bool" where
  "small_op (AddVolume vol n) = (unat n < 2 ^ 63)"
| "small_op _ = True"

definition line_ok :: "('v \<Rightarrow> u64) \<Rightarrow> ('k, 'v) SharedKvCache \<Rightarrow> bool" where
  "line_ok sz c \<longleftrightarrow> shared_ok sz c \<and> unat (max_size c) < 2 ^ 63"

definition vshared_ok :: "('v \<Rightarrow> u64) \<Rightarrow> ('k, 'v) VolumeSharedCacheManager \<Rightarrow> bool" where
  "vshared_ok sz m \<longleftrightarrow> (\<forall>c\<in>ran m. line_ok sz c)"

lemma vshared_ok_upd: "vshared_ok sz m \<Longrightarrow> line_ok sz c \<Longrightarrow> vshared_ok sz (m(v \<mapsto> c))"
  by (auto simp: vshared_ok_def ran_def)

lemma vshared_ok_del: "vshared_ok sz m \<Longrightarrow> vshared_ok sz (m(v := None))"
  by (auto simp: vshared_ok_def ran_def)

lemma vshared_ok_lookup: "vshared_ok sz m \<Longrightarrow> m v = Some c \<Longrightarrow> line_ok sz c"
  by (auto simp: vshared_ok_def ran_def)

lemma line_add:
  assumes "line_ok sz c" "unat (sz v) < 2 ^ 63"
  shows "\<exists>c' ev. SharedKvCache_add sz strong c k v d = Inr (c', ev) \<and> line_ok sz c'"
  using SharedKvCache_add_ok[of sz c v strong k d] assms by (auto simp: line_ok_def)

lemma line_get:
  assumes "line_ok sz c"
  shows "\<exists>c' r. SharedKvCache_get c k True = Inr (c', r) \<and> line_ok sz c'"
  using assms SharedKvCache_get_ok[of sz c k True] SharedKvCache_touch_ok[of sz c k]
  by (auto simp: line_ok_def)

lemma line_remove:
  assumes "line_ok sz c"
  shows "\<exists>c' r. bindR (SharedKvCache_remove sz c k) (\<lambda>c'. Inr (c', ERR_OK)) = Inr (c', r) \<and> line_ok sz c'"
  using assms SharedKvCache_remove_ok[of sz c k] by (auto simp: line_ok_def)

lemma line_remove_if:
  assumes "line_ok sz c" "hash_walk walk"
  shows "\<exists>c' r. bindR (SharedKvCache_remove_if sz (walk (cache_map c)) pred c) (\<lambda>c'. Inr (c', ERR_OK)) =
    Inr (c', r) \<and> line_ok sz c'"
  using assms shared_sim_remove_if[of walk sz c "max_size c" "shared_entries c" pred]
  by (auto simp: line_ok_def shared_sim_def)

lemma line_new: "unat n < 2 ^ 63 \<Longrightarrow> line_ok sz (SharedKvCache_new n)"
  by (simp add: line_ok_def SharedKvCache_new_def shared_ok_def shared_acct_def shared_entries_def index_ok_Nil)

lemma line_clear: "line_ok sz c \<Longrightarrow> line_ok sz (SharedKvCache_clear c)"
  by (simp add: line_ok_def SharedKvCache_clear_def shared_ok_def shared_acct_def shared_entries_def index_ok_Nil)

lemma vshared_line:
  assumes ok: "vshared_ok sz m" and line: "\<And>c. line_ok sz c \<Longrightarrow> \<exists>c' r. f c = Inr (c', r) \<and> line_ok sz c'"
  shows "\<exists>m' r. (case m vol of None \<Rightarrow> Inr (m, r0)
    | Some c \<Rightarrow> bindR (f c) (\<lambda>(c', r). Inr (m(vol \<mapsto> c'), r))) = Inr (m', r) \<and> vshared_ok sz m'"
proof (cases "m vol")
  case (Some c)
  then obtain c' r where "f c = Inr (c', r)" "line_ok sz c'"
    using line[OF vshared_ok_lookup[OF ok Some]] by blast
  then show ?thesis
    using vshared_ok_upd[OF ok, of c' vol] by (simp add: Some)
qed (use ok in simp)

lemma vshared_exec_ok:
  assumes walk: "hash_walk walk" and small: "\<forall>v. unat (sz v) < 2 ^ 63" "small_op a" and ok: "vshared_ok sz m"
  shows "\<exists>m' r. vshared_exec sz strong walk m a = Inr (m', r) \<and> vshared_ok sz m'"
proof (cases a)
  case (AddVolume vol n)
  then show ?thesis
    using small(2) ok vshared_ok_upd[OF ok line_new[of n], of vol] by (auto simp: addVolume_def)
next
  case (RemoveVolume vol)
  then show ?thesis
    using ok by (auto simp: removeVolume_def intro: vshared_ok_del)
next
  case (VAdd vol k v d)
  have "\<exists>m' r. VolumeShared_add sz strong m vol k v d = Inr (m', r) \<and> vshared_ok sz m'"
    unfolding VolumeShared_add_def by (rule vshared_line[OF ok line_add]) (use small in auto)
  then show ?thesis using VAdd by auto
next
  case (VAddDirty vol k v)
  have "\<exists>m' r. add_dirty sz strong m vol k v = Inr (m', r) \<and> vshared_ok sz m'"
    unfolding VolumeShared_add_def add_dirty_def by (rule vshared_line[OF ok line_add]) (use small in auto)
  then show ?thesis using VAddDirty by auto
next
  case (VClear vol)
  then show ?thesis
    using ok by (cases "m vol") (auto simp: VolumeShared_clear_def dest: vshared_ok_lookup intro: vshared_ok_upd line_clear)
next
  case (VGet vol k)
  have "\<exists>m' r. VolumeShared_get m vol k = Inr (m', r) \<and> vshared_ok sz m'"
    using vshared_line[OF ok, where f = "\<lambda>c. SharedKvCache_get c k True" and vol = vol
      and ?r0.0 = "(ERR_NOT_FOUND, None)", OF line_get]
    by (simp add: VolumeShared_get_def)
  then show ?thesis using VGet by auto
next
  case (VRemove vol k)
  have "\<exists>m' r. VolumeShared_remove sz m vol k = Inr (m', r) \<and> vshared_ok sz m'"
    using vshared_line[OF ok, where f = "\<lambda>c. bindR (SharedKvCache_remove sz c k) (\<lambda>c'. Inr (c', ERR_OK))"
      and vol = vol and ?r0.0 = ERR_NOT_FOUND, OF line_remove]
    by (cases "m vol") (simp_all add: VolumeShared_remove_def bindR_assoc)
  then show ?thesis using VRemove by auto
next
  case (VRemoveIf vol pred)
  have "\<exists>m' r. VolumeShared_remove_if sz walk m vol pred = Inr (m', r) \<and> vshared_ok sz m'"
    using vshared_line[OF ok, where f = "\<lambda>c. bindR (SharedKvCache_remove_if sz (walk (cache_map c)) pred c)
      (\<lambda>c'. Inr (c', ERR_OK))" and vol = vol and ?r0.0 = ERR_NOT_FOUND, OF line_remove_if[OF _ walk]]
    by (cases "m vol") (simp_all add: VolumeShared_remove_if_def bindR_assoc)
  then show ?thesis using VRemoveIf by auto
qed

lemma vshared_run_ok:
  assumes "hash_walk walk" "\<forall>v. unat (sz v) < 2 ^ 63" "\<forall>a\<in>set as. small_op a" "vshared_ok sz m"
  shows "\<exists>m' rs. run_ops (vshared_exec sz strong walk) m as = Inr (m', rs) \<and> vshared_ok sz m'"
  using assms(3,4)
proof (induction as arbitrary: m)
  case (Cons a as)
  then obtain m1 r where m1: "vshared_exec sz strong walk m a = Inr (m1, r)" "vshared_ok sz m1"
    using vshared_exec_ok[OF assms(1,2), of a m strong] by auto
  then show ?case
    using Cons.IH[OF _ m1(2)] Cons.prems by auto
qed simp



text \<open>
  The same of \<^verbatim>\<open>VolumeCacheManager\<close>, whose \<open>add\<close> and \<open>addBatch\<close> stop the process on a volume
  with no cache: in any run that ends, each volume gets the answers and the cache its own
  calls alone would have given it.
\<close>

theorem VolumeCacheManager_isolated:
  assumes "run_ops mgr_exec VolumeCacheManager_new as = Inr (m, rs)"
  shows "run_ops mgr_exec VolumeCacheManager_new (filter (\<lambda>a. mgr_vol a = v) as) =
    Inr (only v m, outputs_of mgr_vol v as rs)"
  using vol_lru.run_projects[OF assms, of v] by (simp add: VolumeCacheManager_new_def)

theorem VolumeCacheManager_isolated_witness:
  "\<exists>m rs. run_ops mgr_exec VolumeCacheManager_new
      [CreateCache 7 1 LRU, CreateCache 8 1 LRU, MAdd 7 (1 :: nat) (Some ''a''), CreateCache 8 2 LRU, MGet 7 2] = Inr (m, rs) \<and>
    run_ops mgr_exec VolumeCacheManager_new [CreateCache 8 1 LRU, CreateCache 8 2 LRU] =
      Inr (only 8 m, [MStatus ERR_OK, MStatus ERR_VOL_DUPLICATE])"
proof -
  let ?as = "[CreateCache 7 1 LRU, CreateCache 8 1 LRU, MAdd 7 (1 :: nat) (Some ''a''), CreateCache 8 2 LRU, MGet 7 2]"
  have "\<exists>m r. run_ops mgr_exec VolumeCacheManager_new ?as =
      Inr (m, [MStatus ERR_OK, MStatus ERR_OK, MEvicted None, MStatus ERR_VOL_DUPLICATE, r])"
    by (simp add: VolumeCacheManager_new_def createCache_def VolumeCacheManager_add_def VolumeCacheManager_get_def
      LruKvCache_new_def LruKvCache_add_def LruKvCache_remove_def LruKvCache_get_def Let_def)
  then obtain m r where run: "run_ops mgr_exec VolumeCacheManager_new ?as =
      Inr (m, [MStatus ERR_OK, MStatus ERR_OK, MEvicted None, MStatus ERR_VOL_DUPLICATE, r])"
    by blast
  have "filter (\<lambda>a. mgr_vol a = 8) ?as = [CreateCache 8 1 LRU, CreateCache 8 2 LRU]"
    and "outputs_of mgr_vol 8 ?as [MStatus ERR_OK, MStatus ERR_OK, MEvicted None, MStatus ERR_VOL_DUPLICATE, r] =
      [MStatus ERR_OK, MStatus ERR_VOL_DUPLICATE]"
    by (simp_all add: outputs_of_def)
  then show ?thesis
    using run VolumeCacheManager_isolated[OF run, of 8] by metis
qed

end
