(* ===== verification/Token_Bucket.thy ===== *)
theory Token_Bucket
  imports Prelude
begin

text \<open>
  The demand-driven token buckets of \<^verbatim>\<open>lib/qos_tokbucket.h\<close>. All fields are 64-bit and wrap; the
  clock is an argument of the operations that read it.
\<close>

record TokenBucket =
  tb_rate :: u64
  tb_burst :: u64
  tb_last :: u64
  tb_tokens :: u64

definition UINT64_MAX :: u64 where
  "UINT64_MAX = - 1"

definition MAX_RATE :: u64 where
  "MAX_RATE = UINT64_MAX div ((100 * 365 + 24) * 24 * 60 * 60)"

definition TokenBucket_new :: "u64 \<Rightarrow> u64 \<Rightarrow> u64 \<Rightarrow> u64 \<Rightarrow> TokenBucket res" where
  "TokenBucket_new rate burst max_burst_us clock =
     fds_verify (rate \<le> MAX_RATE)
       (Inr \<lparr>tb_rate = (if rate = 0 then 1 else rate),
             tb_burst = (if max_burst_us > 0 then min (max_burst_us * rate div 1000000) burst else burst),
             tb_last = clock, tb_tokens = 0\<rparr>)"

definition hasTokens :: "TokenBucket \<Rightarrow> u32 \<Rightarrow> bool" where
  "hasTokens tb n \<longleftrightarrow> ucast n \<le> tb_tokens tb"

definition updateTokensOnly :: "TokenBucket \<Rightarrow> u64 \<Rightarrow> TokenBucket res" where
  "updateTokensOnly tb now = fds_verify (now \<ge> tb_last tb)
     (let elapsed = now - tb_last tb in
      if elapsed > 0 then
        fds_verify (UINT64_MAX div elapsed \<ge> tb_rate tb)
          (let new_tokens = elapsed * tb_rate tb div 1000000 in
           fds_verify (UINT64_MAX - tb_tokens tb \<ge> new_tokens)
             (let token_microsec = new_tokens * 1000000 div tb_rate tb in
              Inr (tb\<lparr>tb_tokens := tb_tokens tb + new_tokens, tb_last := tb_last tb + token_microsec\<rparr>)))
      else Inr tb)"

definition expireTokens :: "TokenBucket \<Rightarrow> TokenBucket \<times> u64" where
  "expireTokens tb =
     (if tb_tokens tb > tb_burst tb then
        (let expired = tb_tokens tb - tb_burst tb in (tb\<lparr>tb_tokens := tb_tokens tb - expired\<rparr>, expired))
      else (tb, 0))"

definition updateTBState :: "TokenBucket \<Rightarrow> u64 \<Rightarrow> (TokenBucket \<times> u64) res" where
  "updateTBState tb now = bindR (updateTokensOnly tb now) (\<lambda>tb'. Inr (expireTokens tb'))"

text \<open>A \<open>now\<close> of 0 asks for the clock.\<close>

definition modifyParams :: "TokenBucket \<Rightarrow> u64 \<Rightarrow> u64 \<Rightarrow> u64 \<Rightarrow> u64 \<Rightarrow> TokenBucket res" where
  "modifyParams tb rate burst now clock =
     bindR (updateTokensOnly tb (if now = 0 then clock else now)) (\<lambda>tb'.
       Inr (tb'\<lparr>tb_rate := (if rate = 0 then 1 else rate), tb_burst := burst\<rparr>))"

definition modifyRate_burst :: "TokenBucket \<Rightarrow> u64 \<Rightarrow> u64 \<Rightarrow> u64 \<Rightarrow> TokenBucket res" where
  "modifyRate_burst tb rate burst_us clock = modifyParams tb rate (burst_us * rate div 1000000) 0 clock"

definition modifyRate :: "TokenBucket \<Rightarrow> u64 \<Rightarrow> u64 \<Rightarrow> TokenBucket res" where
  "modifyRate tb rate clock = modifyParams tb rate (tb_burst tb) 0 clock"

definition tryToConsumeTokens :: "TokenBucket \<Rightarrow> u32 \<Rightarrow> TokenBucket \<times> bool" where
  "tryToConsumeTokens tb n =
     (if ucast n \<le> tb_tokens tb then (tb\<lparr>tb_tokens := tb_tokens tb - ucast n\<rparr>, True) else (tb, False))"

definition getDelayMicrosec :: "TokenBucket \<Rightarrow> u32 \<Rightarrow> u64" where
  "getDelayMicrosec tb n =
     (if tb_tokens tb < ucast n then (let needed = ucast n - tb_tokens tb in needed * 1000000 div tb_rate tb)
      else 0)"

text \<open>\<^verbatim>\<open>RecvTokenBucket\<close> adds one operation.\<close>

definition addTokens :: "TokenBucket \<Rightarrow> u64 \<Rightarrow> TokenBucket" where
  "addTokens tb n = fst (expireTokens (tb\<lparr>tb_tokens := tb_tokens tb + n\<rparr>))"

section \<open>The arithmetic on natural numbers\<close>

definition tb_ok :: "TokenBucket \<Rightarrow> bool" where
  "tb_ok tb \<longleftrightarrow> 0 < tb_rate tb"

definition new_tokens :: "TokenBucket \<Rightarrow> nat \<Rightarrow> nat" where
  "new_tokens tb e = e * unat (tb_rate tb) div 1000000"

lemma unat_UINT64_MAX [simp]: "unat UINT64_MAX = 2 ^ 64 - 1"
  by (simp add: UINT64_MAX_def unsigned_minus_1_eq_mask mask_eq_exp_minus_1)

lemma unat_u64_mult: "unat a * unat b < 2 ^ 64 \<Longrightarrow> unat (a * b :: u64) = unat a * unat b"
  by (subst unat_mult_lem[THEN iffD1]) auto

lemma unat_u64_add: "unat a + unat b < 2 ^ 64 \<Longrightarrow> unat (a + b :: u64) = unat a + unat b"
  by (subst unat_add_lem[THEN iffD1]) auto

lemma unat_u64_lt [simp]: "unat (x :: u64) < 18446744073709551616"
  using unsigned_less[where 'a = nat, of x] by simp

lemma tb_eq_iff:
  "tb = (tb' :: TokenBucket) \<longleftrightarrow> tb_rate tb' = tb_rate tb \<and> tb_burst tb' = tb_burst tb \<and>
     unat (tb_last tb') = unat (tb_last tb) \<and> unat (tb_tokens tb') = unat (tb_tokens tb)"
  by (cases tb, cases tb') (auto simp: word_unat_eq_iff)

lemma elapsed_fits:
  "0 < e \<Longrightarrow> r \<le> UINT64_MAX div e \<longleftrightarrow> unat e * unat r < 2 ^ 64"
  by (simp add: word_le_nat_alt unat_div less_eq_div_iff_mult_less_eq word_less_nat_alt mult.commute less_eq_Suc_le)

lemma tokens_fit: "n \<le> UINT64_MAX - t \<longleftrightarrow> unat t + unat n < 2 ^ 64"
proof -
  have "t \<le> UINT64_MAX" by (simp add: UINT64_MAX_def)
  then have "unat (UINT64_MAX - t) = 2 ^ 64 - 1 - unat t" by (simp add: unat_sub)
  moreover have "n' \<le> 18446744073709551615 - t' \<longleftrightarrow> t' + n' < 18446744073709551616"
    if "t' < 18446744073709551616" for n' t' :: nat
    using that by arith
  ultimately show ?thesis
    by (simp add: word_le_nat_alt)
qed

lemma new_tokens_micros:
  assumes "tb_ok tb"
  shows "new_tokens tb e * 1000000 div unat (tb_rate tb) \<le> e"
proof -
  have "new_tokens tb e * 1000000 \<le> e * unat (tb_rate tb)"
    by (simp add: new_tokens_def)
  then have "new_tokens tb e * 1000000 div unat (tb_rate tb) \<le> e * unat (tb_rate tb) div unat (tb_rate tb)"
    by (rule div_le_mono)
  also have "\<dots> = e"
    using assms by (simp add: tb_ok_def word_less_nat_alt)
  finally show ?thesis .
qed

text \<open>
  The update at \<open>now\<close>, \<open>e\<close> microseconds after the last: it panics exactly if the clock went back
  or a product or sum leaves 64 bits, and otherwise adds the whole tokens of the time passed
  and moves the last update by the time they took, rounded down.
\<close>

lemma update_exact:
  fixes now :: u64
  assumes ok: "tb_ok tb"
  defines "e \<equiv> unat now - unat (tb_last tb)"
  shows "updateTokensOnly tb now = Inr tb' \<longleftrightarrow>
    tb_last tb \<le> now \<and> e * unat (tb_rate tb) < 2 ^ 64 \<and> unat (tb_tokens tb) + new_tokens tb e < 2 ^ 64 \<and>
    unat (tb_tokens tb') = unat (tb_tokens tb) + new_tokens tb e \<and>
    unat (tb_last tb') = unat (tb_last tb) + new_tokens tb e * 1000000 div unat (tb_rate tb) \<and>
    tb_rate tb' = tb_rate tb \<and> tb_burst tb' = tb_burst tb" (is "?L \<longleftrightarrow> ?R")
proof (cases "tb_last tb \<le> now")
  case True
  define el where "el = now - tb_last tb"
  have e: "unat el = e" using True by (simp add: el_def e_def unat_sub)
  have last: "unat (tb_last tb) + e < 2 ^ 64"
    using True by (simp add: e_def word_le_nat_alt)
  define nt where "nt = el * tb_rate tb div 1000000"
  define us where "us = nt * 1000000 div tb_rate tb"
  have nt: "unat nt = new_tokens tb e" if "e * unat (tb_rate tb) < 2 ^ 64"
    using that by (simp add: nt_def unat_div unat_u64_mult e new_tokens_def)
  have us: "unat us = new_tokens tb e * 1000000 div unat (tb_rate tb)" if "e * unat (tb_rate tb) < 2 ^ 64"
  proof -
    have "unat nt * unat (1000000 :: u64) < 2 ^ 64"
      using that by (simp add: nt[OF that] new_tokens_def)
    then show ?thesis by (simp add: us_def unat_div unat_u64_mult nt[OF that])
  qed
  have unfold: "updateTokensOnly tb now = (if 0 < el then
      fds_verify (tb_rate tb \<le> UINT64_MAX div el) (fds_verify (nt \<le> UINT64_MAX - tb_tokens tb)
        (Inr (tb\<lparr>tb_tokens := tb_tokens tb + nt, tb_last := tb_last tb + us\<rparr>))) else Inr tb)"
    using True by (simp add: updateTokensOnly_def Let_def el_def nt_def us_def)
  show ?thesis
  proof (cases "0 < el")
    case False
    then have "e = 0" using e by (simp add: word_less_nat_alt)
    then show ?thesis
      using True False by (auto simp: unfold new_tokens_def tb_eq_iff[of tb])
  next
    case el: True
    show ?thesis
    proof (cases "e * unat (tb_rate tb) < 2 ^ 64 \<and> unat (tb_tokens tb) + new_tokens tb e < 2 ^ 64")
      case fits: True
      have "unat (tb_tokens tb + nt) = unat (tb_tokens tb) + new_tokens tb e"
        using fits by (subst unat_u64_add) (simp_all add: nt)
      moreover have "unat (tb_last tb + us) = unat (tb_last tb) + new_tokens tb e * 1000000 div unat (tb_rate tb)"
        using fits last new_tokens_micros[OF ok, of e] by (subst unat_u64_add) (simp_all add: us)
      moreover have "updateTokensOnly tb now = Inr (tb\<lparr>tb_tokens := tb_tokens tb + nt, tb_last := tb_last tb + us\<rparr>)"
        using fits el by (simp add: unfold elapsed_fits tokens_fit e nt)
      ultimately show ?thesis
        using True fits tb_eq_iff[of "tb\<lparr>tb_tokens := tb_tokens tb + nt, tb_last := tb_last tb + us\<rparr>" tb'] by auto
    next
      case False
      have "updateTokensOnly tb now = Inl Panic"
        using False el nt by (auto simp: unfold elapsed_fits tokens_fit e fds_verify_def)
      then show ?thesis using False by auto
    qed
  qed
qed (simp add: updateTokensOnly_def)

lemma update_total:
  assumes ok: "tb_ok tb" and "tb_last tb \<le> now"
    and "(unat now - unat (tb_last tb)) * unat (tb_rate tb) < 2 ^ 64"
    and "unat (tb_tokens tb) + new_tokens tb (unat now - unat (tb_last tb)) < 2 ^ 64"
  shows "\<exists>tb'. updateTokensOnly tb now = Inr tb'"
proof -
  define e where "e = unat now - unat (tb_last tb)"
  have "unat (tb_last tb) + new_tokens tb e * 1000000 div unat (tb_rate tb) \<le> unat now"
    using new_tokens_micros[OF ok, of e] assms(2) by (simp add: e_def word_le_nat_alt)
  then have "unat (tb_last tb) + new_tokens tb e * 1000000 div unat (tb_rate tb) < 2 ^ 64"
    by (rule le_less_trans) simp
  then have "updateTokensOnly tb now = Inr (tb\<lparr>tb_tokens := of_nat (unat (tb_tokens tb) + new_tokens tb e),
      tb_last := of_nat (unat (tb_last tb) + new_tokens tb e * 1000000 div unat (tb_rate tb))\<rparr>)"
    using assms(2-4) unfolding update_exact[OF ok] e_def[symmetric]
    by (simp del: of_nat_add add: unat_of_nat_lt)
  then show ?thesis by blast
qed

lemma expire_facts:
  "tb_rate (fst (expireTokens tb)) = tb_rate tb"
  "tb_burst (fst (expireTokens tb)) = tb_burst tb"
  "tb_last (fst (expireTokens tb)) = tb_last tb"
  "tb_tokens (fst (expireTokens tb)) = min (tb_tokens tb) (tb_burst tb)"
  "tb_tokens (fst (expireTokens tb)) + snd (expireTokens tb) = tb_tokens tb"
  by (auto simp: expireTokens_def Let_def min_def)

lemma consume_facts:
  "tb_rate (fst (tryToConsumeTokens tb n)) = tb_rate tb"
  "tb_burst (fst (tryToConsumeTokens tb n)) = tb_burst tb"
  "tb_last (fst (tryToConsumeTokens tb n)) = tb_last tb"
  "snd (tryToConsumeTokens tb n) \<longleftrightarrow> hasTokens tb n"
  "unat (tb_tokens tb) = unat (tb_tokens (fst (tryToConsumeTokens tb n))) +
     (if snd (tryToConsumeTokens tb n) then unat n else 0)"
proof -
  have n: "unat (ucast n :: u64) = unat n"
    by (rule unat_ucast_u32)
  show "unat (tb_tokens tb) = unat (tb_tokens (fst (tryToConsumeTokens tb n))) +
     (if snd (tryToConsumeTokens tb n) then unat n else 0)"
    by (auto simp: tryToConsumeTokens_def unat_sub n word_le_nat_alt)
qed (auto simp: tryToConsumeTokens_def hasTokens_def)

section \<open>What a bucket lets through\<close>

datatype tb_op = Update u64 | Consume u32 | Receive u64

text \<open>The answer of a step is the number of tokens the caller got.\<close>

fun tb_exec :: "TokenBucket \<Rightarrow> tb_op \<Rightarrow> (TokenBucket \<times> nat) res" where
  "tb_exec tb (Update now) = bindR (updateTBState tb now) (\<lambda>(tb', expired). Inr (tb', 0))"
| "tb_exec tb (Consume n) = (case tryToConsumeTokens tb n of (tb', b) \<Rightarrow> Inr (tb', if b then unat n else 0))"
| "tb_exec tb (Receive n) = Inr (addTokens tb n, 0)"

fun received :: "tb_op \<Rightarrow> nat" where
  "received (Receive n) = unat n"
| "received _ = 0"

fun is_update :: "tb_op \<Rightarrow> bool" where
  "is_update (Update now) = True"
| "is_update _ = False"

lemma refill_bound:
  assumes "tb_ok tb" "updateTokensOnly tb now = Inr tb'"
  shows "unat (tb_tokens tb') * 1000000 + unat (tb_rate tb) * unat (tb_last tb) \<le>
      unat (tb_tokens tb) * 1000000 + unat (tb_rate tb) * (unat (tb_last tb') + 1)"
proof -
  let ?n = "new_tokens tb (unat now - unat (tb_last tb))" and ?r = "unat (tb_rate tb)"
  have upd: "unat (tb_tokens tb') = unat (tb_tokens tb) + ?n"
    "unat (tb_last tb') = unat (tb_last tb) + ?n * 1000000 div ?r"
    using assms by (simp_all add: update_exact)
  have "?n * 1000000 \<le> ?r * (?n * 1000000 div ?r + 1)"
    using assms(1) dividend_less_times_div[of ?r "?n * 1000000"]
    by (simp add: tb_ok_def word_less_nat_alt mult.commute add.commute)
  then show ?thesis
    by (simp add: upd algebra_simps)
qed

lemma tb_exec_bound:
  assumes ok: "tb_ok tb" and step: "tb_exec tb a = Inr (tb', got)"
  shows "tb_ok tb' \<and> tb_rate tb' = tb_rate tb \<and> tb_burst tb' = tb_burst tb \<and>
    (got + unat (tb_tokens tb')) * 1000000 + unat (tb_rate tb) * unat (tb_last tb) \<le>
      (unat (tb_tokens tb) + received a) * 1000000 +
      unat (tb_rate tb) * (unat (tb_last tb') + (if is_update a then 1 else 0))"
proof (cases a)
  case (Update now)
  then obtain tb1 where tb1: "updateTokensOnly tb now = Inr tb1" and tb': "tb' = fst (expireTokens tb1)" "got = 0"
    using step by (auto simp: updateTBState_def bindR_eq_Inr)
  have "tb_rate tb1 = tb_rate tb" "tb_burst tb1 = tb_burst tb"
    using tb1 ok by (simp_all add: update_exact)
  moreover have "unat (tb_tokens tb') \<le> unat (tb_tokens tb1)"
    by (simp add: tb' expire_facts word_le_nat_alt[symmetric])
  ultimately show ?thesis
    using refill_bound[OF ok tb1] ok by (simp add: tb' Update expire_facts tb_ok_def)
next
  case (Consume n)
  then show ?thesis
    using step ok consume_facts[of tb n] by (auto simp: tb_ok_def split: prod.splits)
next
  case (Receive n)
  have "unat (tb_tokens tb + n) \<le> unat (tb_tokens tb) + unat n"
    by (simp add: unat_word_ariths)
  moreover have "unat (tb_tokens tb') \<le> unat (tb_tokens tb + n)"
    using step Receive by (auto simp: addTokens_def expire_facts word_le_nat_alt[symmetric])
  ultimately show ?thesis
    using step ok Receive by (auto simp: addTokens_def expire_facts tb_ok_def)
qed

lemma tb_run_bound:
  assumes "tb_ok tb" "run_ops tb_exec tb as = Inr (tb', outs)"
  shows "tb_rate tb' = tb_rate tb \<and> tb_burst tb' = tb_burst tb \<and>
    (sum_list outs + unat (tb_tokens tb')) * 1000000 + unat (tb_rate tb) * unat (tb_last tb) \<le>
      (unat (tb_tokens tb) + (\<Sum>a\<leftarrow>as. received a)) * 1000000 +
      unat (tb_rate tb) * (unat (tb_last tb') + length (filter is_update as))"
  using assms
proof (induction as arbitrary: tb outs)
  case (Cons a as)
  then obtain tb1 got outs' where tb1: "tb_exec tb a = Inr (tb1, got)"
    and rest: "run_ops tb_exec tb1 as = Inr (tb', outs')" "outs = got # outs'"
    by (auto simp: bindR_eq_Inr)
  have "tb_ok tb1" using tb_exec_bound[OF Cons.prems(1) tb1] by simp
  then show ?case
    using Cons.IH[OF _ rest(1)] tb_exec_bound[OF Cons.prems(1) tb1]
    by (auto simp: rest(2) algebra_simps)
qed simp

lemma tb_exec_time:
  assumes "tb_ok tb" "tb_exec tb a = Inr (tb', got)" "tb_last tb \<le> t" "\<forall>now. a = Update now \<longrightarrow> now \<le> t"
  shows "tb_last tb' \<le> t"
proof (cases a)
  case (Update now)
  then obtain tb1 where tb1: "updateTokensOnly tb now = Inr tb1" and tb': "tb' = fst (expireTokens tb1)"
    using assms(2) by (auto simp: updateTBState_def bindR_eq_Inr)
  have "unat (tb_last tb1) \<le> unat now"
    using tb1 assms(1) new_tokens_micros[OF assms(1), of "unat now - unat (tb_last tb)"]
    by (auto simp: update_exact word_le_nat_alt)
  then show ?thesis
    using assms(4) Update by (simp add: tb' expire_facts word_le_nat_alt)
next
  case (Consume n)
  then show ?thesis
    using assms(2,3) consume_facts[of tb n] by (auto split: prod.splits)
next
  case (Receive n)
  then show ?thesis
    using assms(2,3) by (auto simp: addTokens_def expire_facts)
qed

lemma tb_run_time:
  assumes "tb_ok tb" "run_ops tb_exec tb as = Inr (tb', outs)" "tb_last tb \<le> t" "\<forall>now. Update now \<in> set as \<longrightarrow> now \<le> t"
  shows "tb_last tb' \<le> t"
  using assms
proof (induction as arbitrary: tb outs)
  case (Cons a as)
  then obtain tb1 got outs' where tb1: "tb_exec tb a = Inr (tb1, got)"
    and rest: "run_ops tb_exec tb1 as = Inr (tb', outs')"
    by (auto simp: bindR_eq_Inr)
  have "tb_ok tb1" using tb_exec_bound[OF Cons.prems(1) tb1] by simp
  moreover have "tb_last tb1 \<le> t"
    using tb_exec_time[OF Cons.prems(1) tb1 Cons.prems(3)] Cons.prems(4) by auto
  ultimately show ?case
    using Cons.IH[OF _ rest] Cons.prems(4) by auto
qed simp



lemma hasTokens_unat: "hasTokens tb n \<longleftrightarrow> unat n \<le> unat (tb_tokens tb)"
proof -
  have "unat (ucast n :: u64) = unat n"
    by (rule unat_ucast_u32)
  then show ?thesis by (simp add: hasTokens_def word_le_nat_alt)
qed

lemma unat_u32_lt: "unat (x :: u32) < 4294967296"
  using unsigned_less[where 'a = nat, of x] by simp

lemma unat_delay:
  assumes "\<not> hasTokens tb n"
  shows "unat (getDelayMicrosec tb n) = (unat n - unat (tb_tokens tb)) * 1000000 div unat (tb_rate tb)"
proof -
  have n: "unat (ucast n :: u64) = unat n"
    by (rule unat_ucast_u32)
  have lt: "tb_tokens tb < ucast n"
    using assms by (simp add: hasTokens_def)
  have needed: "unat (ucast n - tb_tokens tb) = unat n - unat (tb_tokens tb)"
    using lt by (simp add: unat_sub n)
  define x where "x = ucast n - tb_tokens tb"
  have "unat x * unat (1000000 :: u64) < 2 ^ 64"
    using unat_u32_lt[of n] by (simp add: needed x_def)
  then have "unat (x * 1000000) = unat x * 1000000"
    by (subst unat_u64_mult) simp_all
  moreover have "getDelayMicrosec tb n = x * 1000000 div tb_rate tb"
    using lt by (simp add: getDelayMicrosec_def Let_def x_def)
  ultimately show ?thesis
    by (simp add: unat_div needed x_def)
qed

lemma MAX_RATE_bound: "unat MAX_RATE < 2 ^ 33"
  by (simp add: MAX_RATE_def unat_div)

text \<open>
  The delay is right to the microsecond, and not better. For a bucket within the maximal
  rate that lacks tokens, an update before the returned delay has passed leaves too few tokens,
  and one a microsecond after it gives enough.
\<close>

theorem getDelayMicrosec_exact:
  assumes "tb_ok tb" "tb_rate tb \<le> MAX_RATE" "\<not> hasTokens tb n" "unat (tb_last tb) < 2 ^ 63"
  shows "(\<exists>tb'. updateTokensOnly tb (tb_last tb + getDelayMicrosec tb n + 1) = Inr tb' \<and> hasTokens tb' n) \<and>
    (\<forall>now tb'. now < tb_last tb + getDelayMicrosec tb n \<longrightarrow> updateTokensOnly tb now = Inr tb' \<longrightarrow> \<not> hasTokens tb' n)"
proof -
  define r k m l where "r = unat (tb_rate tb)" and "k = unat (tb_tokens tb)" and "m = unat n"
    and "l = unat (tb_last tb)"
  define d where "d = (m - k) * 1000000 div r"
  have r: "0 < r" "r < 2 ^ 33"
    using assms(1,2) MAX_RATE_bound by (simp_all add: r_def tb_ok_def word_less_nat_alt word_le_nat_alt)
  have k: "k < m" "m < 2 ^ 32"
    using assms(3) unat_u32_lt[of n] by (simp_all add: hasTokens_unat k_def m_def)
  have d: "unat (getDelayMicrosec tb n) = d" "d \<le> (m - k) * 1000000"
    using unat_delay[OF assms(3)] by (simp_all add: d_def r_def k_def m_def)
  have lo: "d * r \<le> (m - k) * 1000000" and hi: "(m - k) * 1000000 < (d + 1) * r" "(d + 1) * r \<le> (m - k) * 1000000 + r"
    using r(1) dividend_less_times_div[of r "(m - k) * 1000000"]
    by (simp_all add: d_def mult.commute[of _ r])
  have sum: "unat (tb_last tb + getDelayMicrosec tb n) = l + d"
    using d k assms(4) by (subst unat_u64_add) (simp_all add: l_def)
  then have sum1: "unat (tb_last tb + getDelayMicrosec tb n + 1) = l + d + 1"
    using d k assms(4) by (subst unat_u64_add) (simp_all add: l_def)
  have new: "new_tokens tb (d + 1) = (d + 1) * r div 1000000" "m - k \<le> (d + 1) * r div 1000000"
    "(d + 1) * r div 1000000 \<le> (d + 1) * r"
    using hi(1) by (simp_all add: new_tokens_def r_def less_eq_div_iff_mult_less_eq)
  have enough: "\<exists>tb'. updateTokensOnly tb (tb_last tb + getDelayMicrosec tb n + 1) = Inr tb' \<and> hasTokens tb' n"
  proof -
    have small: "(d + 1) * r < 2 ^ 60"
      using hi(2) k r(2) by simp
    have e: "unat (tb_last tb + getDelayMicrosec tb n + 1) - unat (tb_last tb) = d + 1"
      by (simp add: sum1 l_def)
    have "\<exists>tb'. updateTokensOnly tb (tb_last tb + getDelayMicrosec tb n + 1) = Inr tb'"
      by (rule update_total[OF assms(1)], unfold e new(1) r_def[symmetric] k_def[symmetric])
        (use small new(3) k in \<open>simp_all add: word_le_nat_alt sum1 l_def\<close>)
    moreover have "hasTokens tb' n"
      if "updateTokensOnly tb (tb_last tb + getDelayMicrosec tb n + 1) = Inr tb'" for tb'
      using that new(1,2) unfolding update_exact[OF assms(1)] e
      by (simp add: hasTokens_unat m_def[symmetric] k_def[symmetric])
    ultimately show ?thesis by blast
  qed
  moreover have "\<not> hasTokens tb' n"
    if "now < tb_last tb + getDelayMicrosec tb n" "updateTokensOnly tb now = Inr tb'" for now tb'
  proof -
    define e where "e = unat now - l"
    have upd: "tb_last tb \<le> now" "unat (tb_tokens tb') = k + e * r div 1000000"
      using that(2) by (simp_all add: update_exact[OF assms(1)] k_def e_def new_tokens_def r_def l_def)
    then have "e < d"
      using that(1) sum by (simp add: word_less_nat_alt word_le_nat_alt e_def l_def)
    then have "(e + 1) * r \<le> d * r" by (intro mult_right_mono) simp_all
    then have "e * r < (m - k) * 1000000" using lo r(1) by simp
    then have "e * r div 1000000 < m - k" by (simp add: less_mult_imp_div_less)
    then show ?thesis by (simp add: hasTokens_unat upd(2) m_def[symmetric])
  qed
  ultimately show ?thesis by blast
qed

theorem getDelayMicrosec_exact_witness:
  "\<exists>tb'. getDelayMicrosec \<lparr>tb_rate = 3, tb_burst = 10, tb_last = 0, tb_tokens = 0\<rparr> 1 = 333333 \<and>
    updateTokensOnly \<lparr>tb_rate = 3, tb_burst = 10, tb_last = 0, tb_tokens = 0\<rparr> 333334 = Inr tb' \<and> hasTokens tb' 1"
proof -
  let ?tb = "\<lparr>tb_rate = 3, tb_burst = 10, tb_last = 0, tb_tokens = 0\<rparr>"
  have d: "getDelayMicrosec ?tb 1 = 333333"
    by (simp add: getDelayMicrosec_def)
  have "tb_ok ?tb" "tb_rate ?tb \<le> MAX_RATE" "\<not> hasTokens ?tb 1" "unat (tb_last ?tb) < 2 ^ 63"
    by (simp_all add: tb_ok_def MAX_RATE_def UINT64_MAX_def hasTokens_def)
  then show ?thesis
    using getDelayMicrosec_exact[of ?tb 1] by (simp add: d)
qed

text \<open>At exactly the returned delay the tokens may still be missing.\<close>

lemma getDelayMicrosec_short:
  "bindR (updateTokensOnly \<lparr>tb_rate = 3, tb_burst = 10, tb_last = 0, tb_tokens = 0\<rparr> 333333) (\<lambda>tb. Inr (hasTokens tb 1)) = Inr False"
  by (simp add: updateTokensOnly_def UINT64_MAX_def hasTokens_def Let_def)

end
