(* ===== verification/Qos_Queue.thy ===== *)
theory Qos_Queue
  imports Prelude "HOL-Library.Multiset"
begin

text \<open>
  The queue of a volume (\<^verbatim>\<open>FDS_VolumeQueue\<close>, \<^verbatim>\<open>include/fds_volume.h\<close> and \<^verbatim>\<open>lib/misc/fds_volume.cpp\<close>) and
  the base class of the QoS dispatchers (\<^verbatim>\<open>FDS_QoSDispatcher\<close>, \<^verbatim>\<open>include/fds_qos.h\<close>). A plain
  \<^verbatim>\<open>assert\<close> is compiled into every build and stops the process; \<^verbatim>\<open>fds_assert\<close> checks nothing in a
  release build and is left out.
\<close>

section \<open>The queue of a volume\<close>

text \<open>
  The container is \<^verbatim>\<open>boost::lockfree::queue\<close>, a parameter of the model: \<open>lf_push\<close> says whether the
  push succeeded, \<open>lf_pop\<close> gives \<open>None\<close> when there was nothing to take. \<open>lf_ok\<close> states its
  documented behaviour, a first-in first-out queue that grows on demand; \<open>lf_items\<close> is
  what it holds.
\<close>

record ('q, 'io) lf_queue =
  lf_new :: "u32 \<Rightarrow> 'q"
  lf_push :: "'q \<Rightarrow> 'io \<Rightarrow> 'q \<times> bool"
  lf_pop :: "'q \<Rightarrow> 'q \<times> 'io option"
  lf_empty :: "'q \<Rightarrow> bool"
  lf_items :: "'q \<Rightarrow> 'io list"

definition lf_ok :: "('q, 'io) lf_queue \<Rightarrow> bool" where
  "lf_ok Q \<longleftrightarrow> (\<forall>n. lf_items Q (lf_new Q n) = []) \<and>
     (\<forall>q x. \<exists>q'. lf_push Q q x = (q', True) \<and> lf_items Q q' = lf_items Q q @ [x]) \<and>
     (\<forall>q. case lf_items Q q of
         [] \<Rightarrow> \<exists>q'. lf_pop Q q = (q', None) \<and> lf_items Q q' = []
       | x # xs \<Rightarrow> \<exists>q'. lf_pop Q q = (q', Some x) \<and> lf_items Q q' = xs) \<and>
     (\<forall>q. lf_empty Q q \<longleftrightarrow> lf_items Q q = [])"

datatype VolumeQState = FDS_VOL_Q_INACTIVE | FDS_VOL_Q_SUSPENDED | FDS_VOL_Q_QUIESCING | FDS_VOL_Q_ACTIVE
  | FDS_VOL_Q_STOP_DEQUEUE

record 'q FDS_VolumeQueue =
  volQueue :: 'q
  volQState :: VolumeQState
  iops_throttle :: int
  iops_assured :: int
  vq_priority :: u32
  vq_count :: u32

definition FDS_VolumeQueue_new :: "('q, 'io) lf_queue \<Rightarrow> u32 \<Rightarrow> int \<Rightarrow> int \<Rightarrow> u32 \<Rightarrow> 'q FDS_VolumeQueue" where
  "FDS_VolumeQueue_new Q cap throttle assured prio = \<lparr>volQueue = lf_new Q cap, volQState = FDS_VOL_Q_INACTIVE,
     iops_throttle = throttle, iops_assured = assured, vq_priority = prio, vq_count = 0\<rparr>"

definition modifyQosParams :: "int \<Rightarrow> int \<Rightarrow> u32 \<Rightarrow> 'q FDS_VolumeQueue \<Rightarrow> 'q FDS_VolumeQueue" where
  "modifyQosParams assured throttle prio q =
     q\<lparr>iops_throttle := throttle, iops_assured := assured, vq_priority := prio\<rparr>"

definition vq_activate :: "'q FDS_VolumeQueue \<Rightarrow> 'q FDS_VolumeQueue" where
  "vq_activate q = q\<lparr>volQState := FDS_VOL_Q_ACTIVE\<rparr>"

definition vq_stopDequeue :: "'q FDS_VolumeQueue \<Rightarrow> 'q FDS_VolumeQueue" where
  "vq_stopDequeue q = q\<lparr>volQState := FDS_VOL_Q_STOP_DEQUEUE\<rparr>"

definition vq_quiesceIOs :: "'q FDS_VolumeQueue \<Rightarrow> 'q FDS_VolumeQueue" where
  "vq_quiesceIOs q = q\<lparr>volQState := FDS_VOL_Q_QUIESCING\<rparr>"

definition vq_suspendIO :: "'q FDS_VolumeQueue \<Rightarrow> 'q FDS_VolumeQueue" where
  "vq_suspendIO q = q\<lparr>volQState := FDS_VOL_Q_SUSPENDED\<rparr>"

definition vq_resumeIO :: "'q FDS_VolumeQueue \<Rightarrow> 'q FDS_VolumeQueue" where
  "vq_resumeIO q = q\<lparr>volQState := FDS_VOL_Q_ACTIVE\<rparr>"

text \<open>The loop that pushes until it succeeds; \<open>None\<close> if it never does.\<close>

partial_function (option) push_loop :: "('q, 'io) lf_queue \<Rightarrow> 'q \<Rightarrow> 'io \<Rightarrow> 'q option" where
  "push_loop Q q x = (case lf_push Q q x of (q', b) \<Rightarrow> if b then Some q' else push_loop Q q' x)"

definition vq_enqueueIO :: "('q, 'io) lf_queue \<Rightarrow> 'q FDS_VolumeQueue \<Rightarrow> 'io \<Rightarrow>
    ('q FDS_VolumeQueue \<times> fds_errno) option" where
  "vq_enqueueIO Q q io =
     (if volQState q = FDS_VOL_Q_ACTIVE \<or> volQState q = FDS_VOL_Q_STOP_DEQUEUE then
        (case push_loop Q (volQueue q) io of
           None \<Rightarrow> None
         | Some l \<Rightarrow> Some (q\<lparr>volQueue := l, vq_count := vq_count q + 1\<rparr>, ERR_OK))
      else Some (q, ERR_NOT_READY))"

definition vq_dequeueIO :: "('q, 'io) lf_queue \<Rightarrow> 'q FDS_VolumeQueue \<Rightarrow> 'q FDS_VolumeQueue \<times> 'io option" where
  "vq_dequeueIO Q q =
     (if volQState q = FDS_VOL_Q_ACTIVE \<or> volQState q = FDS_VOL_Q_QUIESCING then
        (case lf_pop Q (volQueue q) of (l, io) \<Rightarrow>
           (q\<lparr>volQueue := l,
              volQState := (if volQState q = FDS_VOL_Q_QUIESCING \<and> lf_empty Q l then FDS_VOL_Q_SUSPENDED
                            else volQState q),
              vq_count := vq_count q - 1\<rparr>, io))
      else (q, None))"

definition vq_items :: "('q, 'io) lf_queue \<Rightarrow> 'q FDS_VolumeQueue \<Rightarrow> 'io list" where
  "vq_items Q q = lf_items Q (volQueue q)"

lemma lf_push_ok: "lf_ok Q \<Longrightarrow> \<exists>q'. lf_push Q q x = (q', True) \<and> lf_items Q q' = lf_items Q q @ [x]"
  by (simp add: lf_ok_def)

lemma lf_pop_ok: "lf_ok Q \<Longrightarrow> case lf_items Q q of
    [] \<Rightarrow> \<exists>q'. lf_pop Q q = (q', None) \<and> lf_items Q q' = []
  | x # xs \<Rightarrow> \<exists>q'. lf_pop Q q = (q', Some x) \<and> lf_items Q q' = xs"
  unfolding lf_ok_def by blast

lemma lf_pop_Nil: "lf_ok Q \<Longrightarrow> lf_items Q q = [] \<Longrightarrow> \<exists>q'. lf_pop Q q = (q', None) \<and> lf_items Q q' = []"
  using lf_pop_ok[of Q q] by simp

lemma lf_pop_Cons:
  "lf_ok Q \<Longrightarrow> lf_items Q q = x # xs \<Longrightarrow> \<exists>q'. lf_pop Q q = (q', Some x) \<and> lf_items Q q' = xs"
  using lf_pop_ok[of Q q] by simp

lemma lf_empty_iff: "lf_ok Q \<Longrightarrow> lf_empty Q q \<longleftrightarrow> lf_items Q q = []"
  by (simp add: lf_ok_def)

lemma enqueue_accepts:
  assumes "lf_ok Q" "volQState q = FDS_VOL_Q_ACTIVE \<or> volQState q = FDS_VOL_Q_STOP_DEQUEUE"
  shows "\<exists>q'. vq_enqueueIO Q q io = Some (q', ERR_OK) \<and> vq_items Q q' = vq_items Q q @ [io] \<and>
    volQState q' = volQState q \<and> vq_count q' = vq_count q + 1"
proof -
  obtain l where "lf_push Q (volQueue q) io = (l, True)" "lf_items Q l = lf_items Q (volQueue q) @ [io]"
    using lf_push_ok[OF assms(1)] by blast
  then show ?thesis
    using assms(2) by (simp add: vq_enqueueIO_def push_loop.simps vq_items_def)
qed

lemma enqueue_refuses:
  "volQState q \<noteq> FDS_VOL_Q_ACTIVE \<Longrightarrow> volQState q \<noteq> FDS_VOL_Q_STOP_DEQUEUE \<Longrightarrow>
   vq_enqueueIO Q q io = Some (q, ERR_NOT_READY)"
  by (simp add: vq_enqueueIO_def)

lemma dequeue_suspended: "volQState q = FDS_VOL_Q_SUSPENDED \<Longrightarrow> vq_dequeueIO Q q = (q, None)"
  by (simp add: vq_dequeueIO_def)

text \<open>Dequeue \<open>n\<close> times.\<close>

fun vq_drain :: "('q, 'io) lf_queue \<Rightarrow> nat \<Rightarrow> 'q FDS_VolumeQueue \<Rightarrow> 'q FDS_VolumeQueue \<times> 'io option list" where
  "vq_drain Q 0 q = (q, [])"
| "vq_drain Q (Suc n) q = (case vq_dequeueIO Q q of (q', x) \<Rightarrow> case vq_drain Q n q' of (q'', xs) \<Rightarrow> (q'', x # xs))"

lemma dequeue_quiescing:
  assumes "lf_ok Q" "volQState q = FDS_VOL_Q_QUIESCING" "vq_items Q q = x # xs"
  shows "\<exists>q'. vq_dequeueIO Q q = (q', Some x) \<and> vq_items Q q' = xs \<and> vq_count q' = vq_count q - 1 \<and>
    volQState q' = (if xs = [] then FDS_VOL_Q_SUSPENDED else FDS_VOL_Q_QUIESCING)"
proof -
  obtain l where "lf_pop Q (volQueue q) = (l, Some x)" "lf_items Q l = xs"
    using lf_pop_Cons[OF assms(1) assms(3)[unfolded vq_items_def]] by blast
  then show ?thesis
    using assms(2) lf_empty_iff[OF assms(1), of l] by (simp add: vq_dequeueIO_def vq_items_def)
qed

lemma drain_quiescing:
  assumes "lf_ok Q" "volQState q = FDS_VOL_Q_QUIESCING" "vq_items Q q = xs" "xs \<noteq> []"
  shows "\<exists>q'. vq_drain Q (length xs) q = (q', map Some xs) \<and> vq_items Q q' = [] \<and>
    volQState q' = FDS_VOL_Q_SUSPENDED \<and> vq_count q' = vq_count q - of_nat (length xs)"
  using assms(2-4)
proof (induction xs arbitrary: q)
  case (Cons x xs)
  then obtain q1 where q1: "vq_dequeueIO Q q = (q1, Some x)" "vq_items Q q1 = xs" "vq_count q1 = vq_count q - 1"
    "volQState q1 = (if xs = [] then FDS_VOL_Q_SUSPENDED else FDS_VOL_Q_QUIESCING)"
    using dequeue_quiescing[OF assms(1)] by blast
  show ?case
  proof (cases "xs = []")
    case True
    then show ?thesis using q1 by simp
  next
    case False
    then obtain q' where "vq_drain Q (length xs) q1 = (q', map Some xs)" "vq_items Q q' = []"
      "volQState q' = FDS_VOL_Q_SUSPENDED" "vq_count q' = vq_count q1 - of_nat (length xs)"
      using Cons.IH[of q1] q1 by auto
    then show ?thesis using q1 by (simp add: diff_diff_eq)
  qed
qed simp

text \<open>
  C40. Quiescing drains. Once a queue that holds requests is quiesced, new requests are refused
  with \<^verbatim>\<open>ERR_NOT_READY\<close>, the held ones come out in the order they went in, and with the last of
  them the queue is suspended: it gives nothing more.
\<close>

theorem quiesce_drains:
  assumes "lf_ok Q" "vq_items Q q = xs" "xs \<noteq> []"
  shows "vq_enqueueIO Q (vq_quiesceIOs q) io = Some (vq_quiesceIOs q, ERR_NOT_READY) \<and>
    (\<exists>q'. vq_drain Q (length xs) (vq_quiesceIOs q) = (q', map Some xs) \<and> volQState q' = FDS_VOL_Q_SUSPENDED \<and>
       vq_items Q q' = [] \<and> vq_dequeueIO Q q' = (q', None) \<and> vq_count q' = vq_count q - of_nat (length xs))"
proof -
  have q: "volQState (vq_quiesceIOs q) = FDS_VOL_Q_QUIESCING" "vq_items Q (vq_quiesceIOs q) = xs"
    "vq_count (vq_quiesceIOs q) = vq_count q"
    using assms(2) by (simp_all add: vq_quiesceIOs_def vq_items_def)
  show ?thesis
    using drain_quiescing[OF assms(1) q(1,2) assms(3)] q(1,3)
    by (simp add: enqueue_refuses) (metis dequeue_suspended)
qed

definition list_queue :: "('io list, 'io) lf_queue" where
  "list_queue = \<lparr>lf_new = (\<lambda>_. []), lf_push = (\<lambda>q x. (q @ [x], True)),
     lf_pop = (\<lambda>q. case q of [] \<Rightarrow> ([], None) | x # xs \<Rightarrow> (xs, Some x)), lf_empty = (\<lambda>q. q = []), lf_items = (\<lambda>q. q)\<rparr>"

lemma list_queue_ok: "lf_ok list_queue"
  by (simp add: lf_ok_def list_queue_def split: list.splits)

theorem quiesce_drains_witness:
  "\<exists>q'. vq_drain list_queue 2 (vq_quiesceIOs \<lparr>volQueue = [7, 8 :: nat], volQState = FDS_VOL_Q_ACTIVE,
      iops_throttle = 0, iops_assured = 0, vq_priority = 1, vq_count = 2\<rparr>) = (q', [Some 7, Some 8]) \<and>
    volQState q' = FDS_VOL_Q_SUSPENDED \<and> vq_count q' = 0"
  using quiesce_drains[OF list_queue_ok, of "\<lparr>volQueue = [7, 8 :: nat], volQState = FDS_VOL_Q_ACTIVE,
      iops_throttle = 0, iops_assured = 0, vq_priority = 1, vq_count = 2\<rparr>" "[7, 8]"]
  by (auto simp: vq_items_def list_queue_def numeral_2_eq_2)

text \<open>A take from an empty active queue finds nothing and still counts down, below zero.\<close>

lemma dequeue_empty_count:
  assumes "lf_ok Q" "volQState q = FDS_VOL_Q_ACTIVE" "vq_items Q q = []" "vq_count q = 0"
  shows "\<exists>q'. vq_dequeueIO Q q = (q', None) \<and> vq_count q' = 4294967295"
proof -
  obtain l where "lf_pop Q (volQueue q) = (l, None)"
    using lf_pop_Nil[OF assms(1) assms(3)[unfolded vq_items_def]] by blast
  then show ?thesis using assms(2,4) by (simp add: vq_dequeueIO_def)
qed

section \<open>The dispatcher\<close>

text \<open>
  Queue identifiers are signed; 0 stands for no queue. The derived classes extend the record.
  The members that only serve logging and the recorded times of a request are left out.
\<close>

type_synonym qid = int

record 'q FDS_QoSDispatcher =
  queue_map :: "qid \<Rightarrow> 'q FDS_VolumeQueue option"
  total_svc_iops :: int
  max_outstanding_ios :: u32
  num_pending_ios :: u32
  num_outstanding_ios :: u32
  bypass_dispatcher :: bool
  shuttingDown :: bool

definition FDS_QoSDispatcher_new :: "int \<Rightarrow> bool \<Rightarrow> 'q FDS_QoSDispatcher" where
  "FDS_QoSDispatcher_new iops bypass = \<lparr>queue_map = (\<lambda>_. None), total_svc_iops = iops, max_outstanding_ios = 0,
     num_pending_ios = 0, num_outstanding_ios = 0, bypass_dispatcher = bypass, shuttingDown = False\<rparr>"

definition dispatcher_stop :: "('q, 'z) FDS_QoSDispatcher_scheme \<Rightarrow> ('q, 'z) FDS_QoSDispatcher_scheme" where
  "dispatcher_stop d = d\<lparr>shuttingDown := True\<rparr>"

definition registerQueueWithLockHeld :: "qid \<Rightarrow> 'q FDS_VolumeQueue \<Rightarrow> ('q, 'z) FDS_QoSDispatcher_scheme \<Rightarrow>
    ('q, 'z) FDS_QoSDispatcher_scheme \<times> fds_errno" where
  "registerQueueWithLockHeld i q d =
     (if queue_map d i \<noteq> None then (d, ERR_DUPLICATE) else (d\<lparr>queue_map := (queue_map d)(i \<mapsto> q)\<rparr>, ERR_OK))"

definition modifyQueueQosWithLockHeld :: "qid \<Rightarrow> int \<Rightarrow> int \<Rightarrow> u32 \<Rightarrow> ('q, 'z) FDS_QoSDispatcher_scheme \<Rightarrow>
    ('q, 'z) FDS_QoSDispatcher_scheme \<times> fds_errno" where
  "modifyQueueQosWithLockHeld i assured throttle prio d = (case queue_map d i of
     None \<Rightarrow> (d, ERR_INVALID_ARG)
   | Some q \<Rightarrow> (d\<lparr>queue_map := (queue_map d)(i \<mapsto> modifyQosParams assured throttle prio q)\<rparr>, ERR_OK))"

definition deregisterQueueWithLockHeld :: "qid \<Rightarrow> ('q, 'z) FDS_QoSDispatcher_scheme \<Rightarrow>
    ('q, 'z) FDS_QoSDispatcher_scheme \<times> fds_errno" where
  "deregisterQueueWithLockHeld i d = (if queue_map d i = None then (d, ERR_INVALID_ARG)
     else (d\<lparr>queue_map := (queue_map d)(i := None)\<rparr>, ERR_OK))"

text \<open>The calls that change the state of one queue, or of all, if there is one.\<close>

definition onQueue :: "('q FDS_VolumeQueue \<Rightarrow> 'q FDS_VolumeQueue) \<Rightarrow> qid \<Rightarrow> ('q, 'z) FDS_QoSDispatcher_scheme \<Rightarrow>
    ('q, 'z) FDS_QoSDispatcher_scheme" where
  "onQueue f i d = (case queue_map d i of None \<Rightarrow> d | Some q \<Rightarrow> d\<lparr>queue_map := (queue_map d)(i \<mapsto> f q)\<rparr>)"

definition quiesceIOs :: "qid \<Rightarrow> ('q, 'z) FDS_QoSDispatcher_scheme \<Rightarrow> ('q, 'z) FDS_QoSDispatcher_scheme" where
  "quiesceIOs = onQueue vq_quiesceIOs"

definition quiesceIOs_all :: "('q, 'z) FDS_QoSDispatcher_scheme \<Rightarrow> ('q, 'z) FDS_QoSDispatcher_scheme" where
  "quiesceIOs_all d = d\<lparr>queue_map := (\<lambda>i. map_option vq_quiesceIOs (queue_map d i))\<rparr>"

definition suspendQueue :: "qid \<Rightarrow> ('q, 'z) FDS_QoSDispatcher_scheme \<Rightarrow> ('q, 'z) FDS_QoSDispatcher_scheme" where
  "suspendQueue = onQueue vq_suspendIO"

definition resumeQueue :: "qid \<Rightarrow> ('q, 'z) FDS_QoSDispatcher_scheme \<Rightarrow> ('q, 'z) FDS_QoSDispatcher_scheme" where
  "resumeQueue = onQueue vq_resumeIO"

definition stopDequeue :: "qid \<Rightarrow> ('q, 'z) FDS_QoSDispatcher_scheme \<Rightarrow> ('q, 'z) FDS_QoSDispatcher_scheme" where
  "stopDequeue = onQueue vq_stopDequeue"

definition getQueue :: "qid \<Rightarrow> ('q, 'z) FDS_QoSDispatcher_scheme \<Rightarrow> 'q FDS_VolumeQueue option" where
  "getQueue i d = queue_map d i"

definition queue_count :: "qid \<Rightarrow> ('q, 'z) FDS_QoSDispatcher_scheme \<Rightarrow> u32" where
  "queue_count i d = (case queue_map d i of None \<Rightarrow> 0 | Some q \<Rightarrow> vq_count q)"

text \<open>
  \<open>enqueue_hook\<close> is the derived class's \<^verbatim>\<open>ioProcessForEnqueue\<close>. In bypass mode the request is
  handed to \<^verbatim>\<open>processIO\<close> at once: the last component says so. The outer \<open>None\<close> is a push that
  never succeeds.
\<close>

definition enqueueIO :: "('q, 'io) lf_queue \<Rightarrow> (qid \<Rightarrow> ('q, 'z) FDS_QoSDispatcher_scheme \<Rightarrow>
    ('q, 'z) FDS_QoSDispatcher_scheme res) \<Rightarrow> qid \<Rightarrow> 'io \<Rightarrow> ('q, 'z) FDS_QoSDispatcher_scheme \<Rightarrow>
    (('q, 'z) FDS_QoSDispatcher_scheme \<times> fds_errno \<times> 'io option) res option" where
  "enqueueIO Q enqueue_hook i io d = (case queue_map d i of
     None \<Rightarrow> Some (Inr (d, ERR_VOL_NOT_FOUND, None))
   | Some q \<Rightarrow>
       if bypass_dispatcher d then Some (Inr (d, ERR_OK, Some io))
       else (case vq_enqueueIO Q q io of
         None \<Rightarrow> None
       | Some (q', err) \<Rightarrow>
           let d1 = d\<lparr>queue_map := (queue_map d)(i \<mapsto> q')\<rparr> in
           if err \<noteq> ERR_OK then Some (Inr (d1, err, None))
           else Some (bindR (enqueue_hook i d1) (\<lambda>d2.
             Inr (d2\<lparr>num_pending_ios := num_pending_ios d2 + 1\<rparr>, ERR_OK, None)))))"

text \<open>
  One round of \<^verbatim>\<open>dispatchIOs\<close> after its waits: \<open>next_queue\<close> is the derived class's
  \<^verbatim>\<open>getNextQueueForDispatch\<close>, \<open>dispatch_hook\<close> its \<^verbatim>\<open>ioProcessForDispatch\<close>; \<open>None\<close> is a call that
  does not return. The result carries the request handed to \<^verbatim>\<open>processIO\<close>, whose exceptions the
  loop swallows.
\<close>

definition dispatch_round :: "('q, 'io) lf_queue \<Rightarrow>
    (('q, 'z) FDS_QoSDispatcher_scheme \<Rightarrow> (('q, 'z) FDS_QoSDispatcher_scheme \<times> qid) res option) \<Rightarrow>
    (qid \<Rightarrow> ('q, 'z) FDS_QoSDispatcher_scheme \<Rightarrow> ('q, 'z) FDS_QoSDispatcher_scheme res option) \<Rightarrow>
    ('q, 'z) FDS_QoSDispatcher_scheme \<Rightarrow> (('q, 'z) FDS_QoSDispatcher_scheme \<times> 'io option) res option" where
  "dispatch_round Q next_queue dispatch_hook d = (case next_queue d of
     None \<Rightarrow> None
   | Some (Inl e) \<Rightarrow> Some (Inl e)
   | Some (Inr (d1, i)) \<Rightarrow>
       if i = 0 then Some (Inr (d1, None))
       else (case queue_map d1 i of
         None \<Rightarrow> Some (Inl NullDeref)
       | Some q \<Rightarrow> (case vq_dequeueIO Q q of (q', io) \<Rightarrow>
           let d2 = d1\<lparr>queue_map := (queue_map d1)(i \<mapsto> q')\<rparr> in
           (case io of
             None \<Rightarrow> Some (Inr (d2, None))
           | Some x \<Rightarrow> map_option (\<lambda>r. bindR r (\<lambda>d3.
               Inr (d3\<lparr>num_pending_ios := num_pending_ios d3 - 1,
                        num_outstanding_ios := num_outstanding_ios d3 + 1\<rparr>, Some x))) (dispatch_hook i d2)))))"

definition markIODone :: "('q, 'z) FDS_QoSDispatcher_scheme \<Rightarrow> (('q, 'z) FDS_QoSDispatcher_scheme \<times> u64) res" where
  "markIODone d =
     (if bypass_dispatcher d then Inr (d, 0)
      else (let n_oios = ucast (num_outstanding_ios d) in
        fds_verify (max_outstanding_ios d > 0 \<longrightarrow> n_oios < (ucast (2 * max_outstanding_ios d) :: u64))
          (Inr (d\<lparr>num_outstanding_ios := num_outstanding_ios d - 1\<rparr>, n_oios - 1))))"

section \<open>The dispatcher thread and its clients\<close>

text \<open>
  One thread runs \<^verbatim>\<open>dispatchIOs\<close>; \<open>dispatch_pc\<close> is where it stands: waiting for a pending request,
  waiting for a free slot, or past both waits. Other threads enqueue requests, report them done
  and change queues at any time. \<open>S\<close> holds the requests handed to \<^verbatim>\<open>processIO\<close> and not yet done.
\<close>

datatype dispatch_pc = AwaitPending | AwaitSlot | Pick

text \<open>
  The policy of the derived class may read the clock: \<open>c\<close> stands for its readings in one round.
  \<open>ctl\<close> are the calls of the derived class that register, change and remove queues.
\<close>

inductive qos_step :: "('q, 'io) lf_queue \<Rightarrow>
    ('c \<Rightarrow> ('q, 'z) FDS_QoSDispatcher_scheme \<Rightarrow> (('q, 'z) FDS_QoSDispatcher_scheme \<times> qid) res option) \<Rightarrow>
    (qid \<Rightarrow> ('q, 'z) FDS_QoSDispatcher_scheme \<Rightarrow> ('q, 'z) FDS_QoSDispatcher_scheme res) \<Rightarrow>
    ('c \<Rightarrow> qid \<Rightarrow> ('q, 'z) FDS_QoSDispatcher_scheme \<Rightarrow> ('q, 'z) FDS_QoSDispatcher_scheme res option) \<Rightarrow>
    (('q, 'z) FDS_QoSDispatcher_scheme \<Rightarrow> ('q, 'z) FDS_QoSDispatcher_scheme \<Rightarrow> bool) \<Rightarrow>
    ('q, 'z) FDS_QoSDispatcher_scheme \<times> dispatch_pc \<times> 'io multiset \<Rightarrow>
    ('q, 'z) FDS_QoSDispatcher_scheme \<times> dispatch_pc \<times> 'io multiset \<Rightarrow> bool"
  for Q nxt eh dh ctl where
  pending: "num_pending_ios d > 0 \<Longrightarrow> \<not> shuttingDown d \<Longrightarrow>
    qos_step Q nxt eh dh ctl (d, AwaitPending, S) (d, AwaitSlot, S)"
| slot: "max_outstanding_ios d = 0 \<or> num_outstanding_ios d < max_outstanding_ios d \<Longrightarrow>
    qos_step Q nxt eh dh ctl (d, AwaitSlot, S) (d, Pick, S)"
| idle: "dispatch_round Q (nxt c) (dh c) d = Some (Inr (d', None)) \<Longrightarrow>
    qos_step Q nxt eh dh ctl (d, Pick, S) (d', AwaitPending, S)"
| dispatch: "dispatch_round Q (nxt c) (dh c) d = Some (Inr (d', Some io)) \<Longrightarrow>
    qos_step Q nxt eh dh ctl (d, Pick, S) (d', AwaitPending, add_mset io S)"
| enqueue: "enqueueIO Q eh i io d = Some (Inr (d', err, None)) \<Longrightarrow>
    qos_step Q nxt eh dh ctl (d, pc, S) (d', pc, S)"
| finish: "io \<in># S \<Longrightarrow> markIODone d = Inr (d', n) \<Longrightarrow>
    qos_step Q nxt eh dh ctl (d, pc, S) (d', pc, S - {#io#})"
| queue_change: "qos_step Q nxt eh dh ctl (d, pc, S) (onQueue f i d, pc, S)"
| control: "ctl d d' \<Longrightarrow> qos_step Q nxt eh dh ctl (d, pc, S) (d', pc, S)"
| stop: "qos_step Q nxt eh dh ctl (d, pc, S) (dispatcher_stop d, pc, S)"

definition same_counters :: "('q, 'z) FDS_QoSDispatcher_scheme \<Rightarrow> ('q, 'z) FDS_QoSDispatcher_scheme \<Rightarrow> bool" where
  "same_counters d d' \<longleftrightarrow> num_outstanding_ios d' = num_outstanding_ios d \<and>
     max_outstanding_ios d' = max_outstanding_ios d \<and> bypass_dispatcher d' = bypass_dispatcher d"

lemma same_counters_refl [simp]: "same_counters d d"
  by (simp add: same_counters_def)

lemma same_counters_trans: "same_counters d d' \<Longrightarrow> same_counters d' d'' \<Longrightarrow> same_counters d d''"
  by (simp add: same_counters_def)

definition qos_inv :: "nat \<Rightarrow> ('q, 'z) FDS_QoSDispatcher_scheme \<times> dispatch_pc \<times> 'io multiset \<Rightarrow> bool" where
  "qos_inv m = (\<lambda>(d, pc, S). \<not> bypass_dispatcher d \<and> unat (max_outstanding_ios d) = m \<and>
     unat (num_outstanding_ios d) = size S \<and> size S \<le> m \<and> (pc = Pick \<longrightarrow> size S < m))"

text \<open>
  What the base class relies on in a derived class: its choice of a queue, its two
  notifications and its control calls leave the counters of the base class alone.
\<close>

locale dispatch_policy =
  fixes nxt :: "'c \<Rightarrow> ('q, 'z) FDS_QoSDispatcher_scheme \<Rightarrow> (('q, 'z) FDS_QoSDispatcher_scheme \<times> qid) res option"
    and eh :: "qid \<Rightarrow> ('q, 'z) FDS_QoSDispatcher_scheme \<Rightarrow> ('q, 'z) FDS_QoSDispatcher_scheme res"
    and dh :: "'c \<Rightarrow> qid \<Rightarrow> ('q, 'z) FDS_QoSDispatcher_scheme \<Rightarrow> ('q, 'z) FDS_QoSDispatcher_scheme res option"
    and ctl :: "('q, 'z) FDS_QoSDispatcher_scheme \<Rightarrow> ('q, 'z) FDS_QoSDispatcher_scheme \<Rightarrow> bool"
  assumes next_counters: "nxt c d = Some (Inr (d', i)) \<Longrightarrow> same_counters d d'"
    and enqueue_counters: "eh i d = Inr d' \<Longrightarrow> same_counters d d'"
    and dispatch_counters: "dh c i d = Some (Inr d') \<Longrightarrow> same_counters d d'"
    and control_counters: "ctl d d' \<Longrightarrow> same_counters d d'"
begin

lemma round_counters:
  assumes r: "dispatch_round Q (nxt c) (dh c) d = Some (Inr (d', r))"
  shows "max_outstanding_ios d' = max_outstanding_ios d \<and> bypass_dispatcher d' = bypass_dispatcher d \<and>
    num_outstanding_ios d' = num_outstanding_ios d + (if r = None then 0 else 1)"
proof -
  obtain d1 i where d1: "nxt c d = Some (Inr (d1, i))"
    using r by (auto simp: dispatch_round_def split: option.splits sum.splits)
  show ?thesis
    using r next_counters[OF d1] by (auto simp: dispatch_round_def d1 bindR_eq_Inr same_counters_def Let_def
      split: if_splits option.splits prod.splits dest!: dispatch_counters)
qed

lemma enqueueIO_counters:
  assumes "enqueueIO Q eh i io d = Some (Inr (d', err, None))"
  shows "same_counters d d'"
  using assms by (auto simp: enqueueIO_def bindR_eq_Inr same_counters_def Let_def
    split: if_splits option.splits dest!: enqueue_counters)

lemma inv_step:
  assumes m: "0 < m" "m < 2 ^ 31" and step: "qos_step Q nxt eh dh ctl s s'" and inv: "qos_inv m s"
  shows "qos_inv m s'"
  using step inv
proof cases
  case (slot d S)
  then show ?thesis
    using inv m by (auto simp: qos_inv_def word_less_nat_alt)
next
  case (idle c d d' S)
  then show ?thesis
    using inv round_counters[OF idle(3)] by (simp add: qos_inv_def)
next
  case (dispatch c d d' io S)
  then have "unat (num_outstanding_ios d) < m"
    using inv by (simp add: qos_inv_def)
  then have "unat (num_outstanding_ios d + 1) = Suc (unat (num_outstanding_ios d))"
    using m by (simp add: unat_word_ariths)
  then show ?thesis
    using inv dispatch round_counters[OF dispatch(3)] by (simp add: qos_inv_def)
next
  case (enqueue i io d d' err pc S)
  then show ?thesis
    using inv enqueueIO_counters[OF enqueue(3)] by (simp add: qos_inv_def same_counters_def)
next
  case (control d d' pc S)
  then show ?thesis
    using inv control_counters[OF control(3)] by (simp add: qos_inv_def same_counters_def)
next
  case (finish io S d d' n pc)
  have "size S \<noteq> 0" using finish(3) by auto
  then have "num_outstanding_ios d \<noteq> 0"
    using inv finish(1) by (auto simp: qos_inv_def)
  then have "unat (num_outstanding_ios d - 1) = size S - 1"
    using inv finish by (simp add: qos_inv_def unat_minus_one)
  then show ?thesis
    using inv finish by (auto simp: qos_inv_def markIODone_def Let_def size_Diff_singleton fds_verify_eq_Inr)
qed (auto simp: qos_inv_def onQueue_def dispatcher_stop_def split: option.splits)

lemma outstanding_run:
  assumes "0 < m" "m < 2 ^ 31" "\<not> bypass_dispatcher d0" "unat (max_outstanding_ios d0) = m" "num_outstanding_ios d0 = 0"
    and "(qos_step Q nxt eh dh ctl)\<^sup>*\<^sup>* (d0, AwaitPending, {#}) (d, pc, S)"
  shows "unat (num_outstanding_ios d) = size S \<and> size S \<le> m \<and> (\<exists>d' n. markIODone d = Inr (d', n))"
proof -
  have "qos_inv m (d0, AwaitPending, {#})"
    using assms(3-5) by (simp add: qos_inv_def)
  with assms(6) have inv: "qos_inv m (d, pc, S)"
    by (induction rule: rtranclp_induct) (auto intro: inv_step[OF assms(1,2)])
  have max: "unat (2 * max_outstanding_ios d) = 2 * m"
    using inv assms(2) by (subst unat_mult_lem[THEN iffD1]) (auto simp: qos_inv_def)
  have "(ucast (num_outstanding_ios d) :: u64) < ucast (2 * max_outstanding_ios d)"
    using inv assms(1) by (simp add: word_less_nat_alt unat_ucast_u32 max qos_inv_def)
  then show ?thesis
    using inv by (simp add: qos_inv_def markIODone_def Let_def)
qed

end

end
