(* ===== verification/Qos_Htb.thy ===== *)
theory Qos_Htb
  imports Token_Bucket Qos_Queue
begin

text \<open>
  The hierarchical token bucket dispatcher (\<^verbatim>\<open>lib/qos_htb.h\<close>, \<^verbatim>\<open>lib/misc/qos_htb.cpp\<close>) and the
  min-priority dispatcher (\<^verbatim>\<open>lib/misc/qos_min_prio.cpp\<close>) that shares its queue state. Floating point
  arithmetic is a parameter: nothing proved here depends on how it rounds. \<open>clk n\<close> is the
  \<open>n\<close>-th reading of the clock within a call. Rates are signed 64-bit in the source; they are kept
  below the total rate, far from overflow, and are integers here. The order in which a hash
  map is walked is the parameter \<open>walk\<close>.
\<close>

record 'd dbl =
  d_of_int :: "int \<Rightarrow> 'd"
  d_lit4 :: "nat \<Rightarrow> 'd"
  d_add :: "'d \<Rightarrow> 'd \<Rightarrow> 'd"
  d_sub :: "'d \<Rightarrow> 'd \<Rightarrow> 'd"
  d_mul :: "'d \<Rightarrow> 'd \<Rightarrow> 'd"
  d_div :: "'d \<Rightarrow> 'd \<Rightarrow> 'd"
  d_abs :: "'d \<Rightarrow> 'd"
  d_trunc :: "'d \<Rightarrow> int"
  d_less :: "'d \<Rightarrow> 'd \<Rightarrow> bool"
  d_le :: "'d \<Rightarrow> 'd \<Rightarrow> bool"

definition HTB_QUEUE_RATE_MIN :: int where "HTB_QUEUE_RATE_MIN = 20"

definition HTB_QUEUE_RATE_INFINITE_MAX :: int where "HTB_QUEUE_RATE_INFINITE_MAX = 500000"

definition DEFAULT_ASSURED_WAIT_MICROSEC :: u64 where "DEFAULT_ASSURED_WAIT_MICROSEC = 1000000"

definition HTB_WMA_SLOT_SIZE_MICROSEC :: u64 where "HTB_WMA_SLOT_SIZE_MICROSEC = 250000"

definition HTB_WMA_LENGTH :: nat where "HTB_WMA_LENGTH = 20"

text \<open>Conversions between signed rates and the unsigned fields of a bucket.\<close>

definition rate64 :: "int \<Rightarrow> u64" where
  "rate64 r = word_of_int r"

definition getRate :: "TokenBucket \<Rightarrow> int" where
  "getRate tb = sint (tb_rate tb)"

section \<open>The state of a queue\<close>

datatype tbStateType = TBQUEUE_STATE_QUEUE_EMPTY | TBQUEUE_STATE_NO_TOKENS | TBQUEUE_STATE_NO_ASSURED_TOKENS
  | TBQUEUE_STATE_OK

record TBQueueState =
  qs_id :: qid
  assured_rate :: int
  throttle_rate :: int
  qs_priority :: u32
  recent_iops :: "u32 list"
  next_hist_ts :: u64
  hist_slotix :: nat
  tb_assured :: TokenBucket
  tb_throttle :: TokenBucket
  queued_io_counter :: u32

definition TBQueueState_new :: "qid \<Rightarrow> int \<Rightarrow> int \<Rightarrow> u32 \<Rightarrow> u64 \<Rightarrow> u64 \<Rightarrow> (nat \<Rightarrow> u64) \<Rightarrow> TBQueueState res" where
  "TBQueueState_new i assured throttle prio wait burst clk =
     bindR (TokenBucket_new (rate64 assured) burst wait (clk 0)) (\<lambda>ta.
     bindR (TokenBucket_new (rate64 throttle) burst 0 (clk 1)) (\<lambda>tt.
     fds_verify (assured \<le> throttle)
       (Inr \<lparr>qs_id = i, assured_rate = assured, throttle_rate = throttle, qs_priority = prio,
             recent_iops = replicate HTB_WMA_LENGTH 0, next_hist_ts = clk 2 + HTB_WMA_SLOT_SIZE_MICROSEC,
             hist_slotix = 0, tb_assured = ta, tb_throttle = tt, queued_io_counter = 0\<rparr>)))"

definition setEffectiveMinMaxRates :: "int \<Rightarrow> int \<Rightarrow> u64 \<Rightarrow> (nat \<Rightarrow> u64) \<Rightarrow> TBQueueState \<Rightarrow> TBQueueState res" where
  "setEffectiveMinMaxRates assured throttle wait clk s =
     fds_verify (assured \<le> throttle)
       (bindR (modifyRate_burst (tb_assured s) (rate64 assured) wait (clk 0)) (\<lambda>ta.
        bindR (modifyRate (tb_throttle s) (rate64 throttle) (clk 1)) (\<lambda>tt.
        Inr (s\<lparr>tb_assured := ta, tb_throttle := tt\<rparr>))))"

definition handleIoEnqueue :: "TBQueueState \<Rightarrow> TBQueueState \<times> u32" where
  "handleIoEnqueue s = (s\<lparr>queued_io_counter := queued_io_counter s + 1\<rparr>, queued_io_counter s + 1)"

text \<open>
  The loop that closes history slots up to \<open>now\<close>. With a clock in the last quarter second
  before the counter wraps it need not end, so its result is optional.
\<close>

definition next_slot :: "TBQueueState \<Rightarrow> TBQueueState" where
  "next_slot s = (let ix = (hist_slotix s + 1) mod HTB_WMA_LENGTH in
     s\<lparr>next_hist_ts := next_hist_ts s + HTB_WMA_SLOT_SIZE_MICROSEC, hist_slotix := ix,
       recent_iops := (recent_iops s)[ix := 0]\<rparr>)"

partial_function (option) hist_loop :: "u64 \<Rightarrow> TBQueueState \<Rightarrow> TBQueueState option" where
  "hist_loop now s = (let s' = next_slot s in
     if now > next_hist_ts s' then hist_loop now s' else Some s')"

definition moveToNextHistTs :: "u64 \<Rightarrow> TBQueueState \<Rightarrow> TBQueueState option" where
  "moveToNextHistTs now s = (if now > next_hist_ts s then hist_loop now s else Some s)"

definition count_io :: "TBQueueState \<Rightarrow> TBQueueState" where
  "count_io s = s\<lparr>recent_iops := (recent_iops s)[hist_slotix s := recent_iops s ! hist_slotix s + 1]\<rparr>"

definition handleIoDispatch :: "u64 \<Rightarrow> TBQueueState \<Rightarrow> (TBQueueState \<times> u32) option" where
  "handleIoDispatch now s =
     (case (if now < next_hist_ts s then Some s else hist_loop now s) of
        None \<Rightarrow> None
      | Some s1 \<Rightarrow> (let s2 = count_io s1 in
          Some (s2\<lparr>queued_io_counter := queued_io_counter s2 - 1\<rparr>, queued_io_counter s2 - 1)))"

text \<open>Powers of 0.9 in units of 0.0001.\<close>

definition kweights :: "nat list" where
  "kweights = [10000, 9000, 8100, 7290, 6561, 5905, 5314, 4783, 4305, 3874,
     3487, 3138, 2824, 2541, 2288, 2059, 1853, 1668, 1501, 1351]"

fun wma_loop :: "'d dbl \<Rightarrow> u32 list \<Rightarrow> nat \<Rightarrow> nat \<Rightarrow> 'd \<Rightarrow> 'd" where
  "wma_loop F iops 0 ix wma = wma"
| "wma_loop F iops (Suc i) ix wma = wma_loop F iops i ((ix + 1) mod HTB_WMA_LENGTH)
     (d_add F wma (d_mul F (d_of_int F (uint (iops ! ix))) (d_lit4 F (kweights ! i))))"

definition getIOPerfWMA :: "'d dbl \<Rightarrow> TBQueueState \<Rightarrow> 'd" where
  "getIOPerfWMA F s = wma_loop F (recent_iops s) HTB_WMA_LENGTH ((hist_slotix s + 1) mod HTB_WMA_LENGTH)
     (d_of_int F 0)"

definition updateTokens :: "u64 \<Rightarrow> TBQueueState \<Rightarrow> (TBQueueState \<times> u64) res option" where
  "updateTokens now s = (case moveToNextHistTs now s of
     None \<Rightarrow> None
   | Some s1 \<Rightarrow> Some (bindR (updateTBState (tb_throttle s1) now) (\<lambda>(tt, _).
       bindR (updateTBState (tb_assured s1) now) (\<lambda>(ta, expired).
       Inr (s1\<lparr>tb_throttle := tt, tb_assured := ta\<rparr>, expired)))))"

definition tryToConsumeAssuredTokens :: "u32 \<Rightarrow> TBQueueState \<Rightarrow> TBQueueState \<times> tbStateType" where
  "tryToConsumeAssuredTokens cost s =
     (if queued_io_counter s = 0 then (s, TBQUEUE_STATE_QUEUE_EMPTY)
      else if \<not> hasTokens (tb_throttle s) cost then (s, TBQUEUE_STATE_NO_TOKENS)
      else (case tryToConsumeTokens (tb_assured s) cost of
        (ta, False) \<Rightarrow> (s\<lparr>tb_assured := ta\<rparr>, TBQUEUE_STATE_NO_ASSURED_TOKENS)
      | (ta, True) \<Rightarrow> (s\<lparr>tb_assured := ta, tb_throttle := fst (tryToConsumeTokens (tb_throttle s) cost)\<rparr>,
                        TBQUEUE_STATE_OK)))"

definition consumeTokens :: "u32 \<Rightarrow> TBQueueState \<Rightarrow> TBQueueState res" where
  "consumeTokens cost s = (case tryToConsumeTokens (tb_throttle s) cost of (tt, ok) \<Rightarrow>
     fds_verify ok (Inr (s\<lparr>tb_throttle := tt\<rparr>)))"

section \<open>The dispatcher\<close>

record ('q, 'd) QoSHTBDispatcher = "'q FDS_QoSDispatcher" +
  total_iops :: int
  total_assured_rate :: int
  wait_time_microsec :: u64
  default_que_burst_size :: u64
  max_burst_size :: u64
  current_throttle_level :: 'd
  avail_pool :: TokenBucket
  qstate_map :: "qid \<Rightarrow> TBQueueState option"
  last_dispatch_qid :: qid

definition QoSHTBDispatcher_new :: "'d dbl \<Rightarrow> int \<Rightarrow> bool \<Rightarrow> u64 \<Rightarrow> ('q, 'd) QoSHTBDispatcher res" where
  "QoSHTBDispatcher_new F iops bypass clock =
     bindR (TokenBucket_new (rate64 iops) 20 0 clock) (\<lambda>pool.
     Inr (FDS_QoSDispatcher.extend (FDS_QoSDispatcher_new iops bypass)
       (QoSHTBDispatcher.fields iops 0 DEFAULT_ASSURED_WAIT_MICROSEC 20 20 (d_of_int F 11) pool (\<lambda>_. None) 0)))"

definition modifyTotalRate :: "int \<Rightarrow> u64 \<Rightarrow> ('q, 'd) QoSHTBDispatcher \<Rightarrow>
    (('q, 'd) QoSHTBDispatcher \<times> fds_errno) res" where
  "modifyTotalRate iops clock d =
     (if iops \<le> total_assured_rate d then Inr (d, ERR_INVALID_ARG)
      else bindR (modifyRate (avail_pool d) (rate64 (iops - total_assured_rate d)) clock) (\<lambda>pool.
        Inr (d\<lparr>total_iops := iops, avail_pool := pool\<rparr>, ERR_OK)))"

definition effective_rates :: "int \<Rightarrow> int \<Rightarrow> int \<times> int" where
  "effective_rates assured throttle =
     (max HTB_QUEUE_RATE_MIN assured, if throttle = 0 then HTB_QUEUE_RATE_INFINITE_MAX else throttle)"

definition HTB_registerQueue :: "qid \<Rightarrow> 'q FDS_VolumeQueue \<Rightarrow> (nat \<Rightarrow> u64) \<Rightarrow> ('q, 'd) QoSHTBDispatcher \<Rightarrow>
    (('q, 'd) QoSHTBDispatcher \<times> fds_errno) res" where
  "HTB_registerQueue i q clk d = (case effective_rates (iops_assured q) (iops_throttle q) of (qa, qt) \<Rightarrow>
     bindR (TBQueueState_new i qa qt (vq_priority q) (wait_time_microsec d) (default_que_burst_size d) clk) (\<lambda>s.
       if qa + total_assured_rate d \<ge> total_iops d then Inr (d, ERR_EXCEED_MIN_IOPS)
       else (case registerQueueWithLockHeld i q d of (d1, err) \<Rightarrow>
         if err \<noteq> ERR_OK then Inr (d1, err)
         else (let avail = getRate (avail_pool d1);
                   new_avail = (if avail > qa then avail - qa else 0)
               in bindR (modifyRate (avail_pool d1) (rate64 new_avail) (clk 3)) (\<lambda>pool.
                    Inr (d1\<lparr>total_assured_rate := total_assured_rate d1 + qa, avail_pool := pool,
                            qstate_map := (qstate_map d1)(i \<mapsto> s)\<rparr>, err))))))"

text \<open>The new minimal and maximal rates of a queue under throttle level \<open>X.Y\<close>: \<open>x\<close> and \<open>frac\<close>.\<close>

definition throttled_rates :: "'d dbl \<Rightarrow> int \<Rightarrow> 'd \<Rightarrow> TBQueueState \<Rightarrow> int \<times> int" where
  "throttled_rates F x frac s =
     (if x \<ge> 0 then
        (if uint (qs_priority s) > x then (assured_rate s, assured_rate s)
         else if uint (qs_priority s) < x then (assured_rate s, throttle_rate s)
         else (assured_rate s, d_trunc F (d_add F (d_of_int F (assured_rate s))
                 (d_mul F frac (d_of_int F (throttle_rate s - assured_rate s))))))
      else (let share = d_div F (d_sub F (d_of_int F 10) (d_of_int F \<bar>x\<bar>)) (d_of_int F 10);
                a = max HTB_QUEUE_RATE_MIN (d_trunc F (d_mul F share (d_of_int F (assured_rate s))))
            in (a, a)))"

definition setQueueThrottleLevel :: "'d dbl \<Rightarrow> int \<Rightarrow> 'd \<Rightarrow> u64 \<Rightarrow> (nat \<Rightarrow> u64) \<Rightarrow> TBQueueState \<Rightarrow> TBQueueState res" where
  "setQueueThrottleLevel F x frac wait clk s = (case throttled_rates F x frac s of (a, t) \<Rightarrow>
     setEffectiveMinMaxRates a t wait clk s)"

definition level_frac :: "'d dbl \<Rightarrow> 'd \<Rightarrow> 'd" where
  "level_frac F level = d_abs F (d_sub F level (d_of_int F (d_trunc F level)))"

definition setQueueThrottleLevel_float :: "'d dbl \<Rightarrow> 'd \<Rightarrow> u64 \<Rightarrow> (nat \<Rightarrow> u64) \<Rightarrow> TBQueueState \<Rightarrow> TBQueueState res" where
  "setQueueThrottleLevel_float F level wait clk s =
     fds_verify (d_le F (d_of_int F (- 10)) level \<and> d_le F level (d_of_int F 11))
       (setQueueThrottleLevel F (d_trunc F level) (level_frac F level) wait clk s)"

definition HTB_setThrottleLevel :: "'d dbl \<Rightarrow> ((qid \<Rightarrow> TBQueueState option) \<Rightarrow> qid list) \<Rightarrow> (qid \<Rightarrow> nat \<Rightarrow> u64) \<Rightarrow> 'd \<Rightarrow>
    ('q, 'd) QoSHTBDispatcher \<Rightarrow> ('q, 'd) QoSHTBDispatcher res" where
  "HTB_setThrottleLevel F walk clk level d =
     fds_verify (d_le F (d_of_int F (- 10)) level \<and> d_le F level (d_of_int F 10))
       (bindR (foldR (\<lambda>i m. case m i of
            None \<Rightarrow> Inl Undefined
          | Some s \<Rightarrow> bindR (setQueueThrottleLevel F (d_trunc F level) (level_frac F level) (wait_time_microsec d) (clk i) s)
              (\<lambda>s'. Inr (m(i \<mapsto> s')))) (walk (qstate_map d)) (qstate_map d))
        (\<lambda>m. Inr (d\<lparr>qstate_map := m, current_throttle_level := level\<rparr>)))"

definition HTB_modifyQueueQosParams :: "'d dbl \<Rightarrow> qid \<Rightarrow> int \<Rightarrow> int \<Rightarrow> u32 \<Rightarrow> (nat \<Rightarrow> u64) \<Rightarrow>
    ('q, 'd) QoSHTBDispatcher \<Rightarrow> (('q, 'd) QoSHTBDispatcher \<times> fds_errno) res" where
  "HTB_modifyQueueQosParams F i assured throttle prio clk d = (case effective_rates assured throttle of (qa, qt) \<Rightarrow>
     (case qstate_map d i of
        None \<Rightarrow> Inr (d, ERR_NOT_FOUND)
      | Some s \<Rightarrow>
          if qa > assured_rate s \<and> qa - assured_rate s + total_assured_rate d \<ge> total_iops d
          then Inr (d, ERR_EXCEED_MIN_IOPS)
          else (case modifyQueueQosWithLockHeld i qa qt prio d of (d1, err) \<Rightarrow>
            if err \<noteq> ERR_OK then Inr (d1, err)
            else fds_verify (total_assured_rate d1 \<ge> assured_rate s)
              (let avail = getRate (avail_pool d1) + assured_rate s;
                   new_avail = (if avail > qa then avail - qa else 0)
               in bindR (modifyRate (avail_pool d1) (rate64 new_avail) (clk 0)) (\<lambda>pool.
                  bindR (setQueueThrottleLevel_float F (current_throttle_level d1) (wait_time_microsec d1)
                    (\<lambda>n. clk (Suc n)) (s\<lparr>assured_rate := qa, throttle_rate := qt, qs_priority := prio\<rparr>)) (\<lambda>s'.
                  Inr (d1\<lparr>total_assured_rate := total_assured_rate d1 - assured_rate s + qa, avail_pool := pool,
                          qstate_map := (qstate_map d1)(i \<mapsto> s')\<rparr>, err)))))))"

definition HTB_deregisterQueue :: "qid \<Rightarrow> u64 \<Rightarrow> ('q, 'd) QoSHTBDispatcher \<Rightarrow>
    (('q, 'd) QoSHTBDispatcher \<times> fds_errno) res" where
  "HTB_deregisterQueue i clock d = (case deregisterQueueWithLockHeld i d of (d1, err) \<Rightarrow>
     (case qstate_map d1 i of
        None \<Rightarrow> Inr (d1, ERR_NOT_FOUND)
      | Some s \<Rightarrow> fds_verify (assured_rate s \<le> total_assured_rate d1)
          (let ta = total_assured_rate d1 - assured_rate s;
               new_avail = (if total_iops d1 > ta then total_iops d1 - ta else 0)
           in bindR (modifyRate (avail_pool d1) (rate64 new_avail) clock) (\<lambda>pool.
              Inr (d1\<lparr>total_assured_rate := ta, avail_pool := pool, qstate_map := (qstate_map d1)(i := None)\<rparr>, err)))))"

text \<open>
  \<^verbatim>\<open>operator[]\<close> would create a null entry for an unknown queue and the next call follows it.
\<close>

definition HTB_ioProcessForEnqueue :: "qid \<Rightarrow> ('q, 'd) QoSHTBDispatcher \<Rightarrow> ('q, 'd) QoSHTBDispatcher res" where
  "HTB_ioProcessForEnqueue i d = (case qstate_map d i of
     None \<Rightarrow> Inl NullDeref
   | Some s \<Rightarrow> Inr (d\<lparr>qstate_map := (qstate_map d)(i \<mapsto> fst (handleIoEnqueue s))\<rparr>))"

definition HTB_ioProcessForDispatch :: "u64 \<Rightarrow> qid \<Rightarrow> ('q, 'd) QoSHTBDispatcher \<Rightarrow> ('q, 'd) QoSHTBDispatcher res option" where
  "HTB_ioProcessForDispatch now i d = (case qstate_map d i of
     None \<Rightarrow> Some (Inl NullDeref)
   | Some s \<Rightarrow> (case handleIoDispatch now s of
       None \<Rightarrow> None
     | Some (s', n) \<Rightarrow> Some (Inr (d\<lparr>qstate_map := (qstate_map d)(i \<mapsto> s')\<rparr>))))"

subsection \<open>Choosing the next queue\<close>

text \<open>The hash map walked in a circle from the queue served last, or from its start.\<close>

definition rotate_from :: "qid \<Rightarrow> qid list \<Rightarrow> qid list" where
  "rotate_from l qs = dropWhile (\<lambda>i. i \<noteq> l) qs @ takeWhile (\<lambda>i. i \<noteq> l) qs"

text \<open>
  The candidate for a shared token: lowest priority number, then lowest recent rate, then
  first seen.
\<close>

definition better :: "'d dbl \<Rightarrow> (qid \<times> u32 \<times> 'd) option \<Rightarrow> qid \<times> u32 \<times> 'd \<Rightarrow> (qid \<times> u32 \<times> 'd) option" where
  "better F best c = (case best of
     None \<Rightarrow> Some c
   | Some (i, prio, wma) \<Rightarrow>
       if fst (snd c) < prio \<or> (fst (snd c) = prio \<and> d_less F (snd (snd c)) wma) then Some c else best)"

datatype 'b scan_result = Served qid | Candidate 'b

fun htb_scan :: "'d dbl \<Rightarrow> (nat \<Rightarrow> u64) \<Rightarrow> nat \<Rightarrow> qid list \<Rightarrow> (qid \<times> u32 \<times> 'd) option \<Rightarrow> ('q, 'd) QoSHTBDispatcher \<Rightarrow>
    (('q, 'd) QoSHTBDispatcher \<times> (qid \<times> u32 \<times> 'd) option scan_result) res option" where
  "htb_scan F clk n [] best d = Some (Inr (d, Candidate best))"
| "htb_scan F clk n (i # qs) best d = (case qstate_map d i of
     None \<Rightarrow> Some (Inl Undefined)
   | Some s \<Rightarrow> (case updateTokens (clk n) s of
       None \<Rightarrow> None
     | Some (Inl e) \<Rightarrow> Some (Inl e)
     | Some (Inr (s1, expired)) \<Rightarrow>
         (case tryToConsumeAssuredTokens 1 s1 of (s2, st) \<Rightarrow>
           let pool = (if expired > 0 then addTokens (avail_pool d) expired else avail_pool d);
               d1 = d\<lparr>avail_pool := pool, qstate_map := (qstate_map d)(i \<mapsto> s2)\<rparr>
           in if st = TBQUEUE_STATE_OK then Some (Inr (d1\<lparr>last_dispatch_qid := i\<rparr>, Served i))
              else htb_scan F clk (Suc n) qs
                (if st = TBQUEUE_STATE_NO_ASSURED_TOKENS
                 then better F best (qs_id s2, qs_priority s2, getIOPerfWMA F s2) else best) d1)))"

text \<open>
  How long to sleep when nothing can be dispatched; the conversion to an unsigned number
  drops the fraction.
\<close>

definition htb_delay :: "'d dbl \<Rightarrow> ('q, 'd) QoSHTBDispatcher \<Rightarrow> int" where
  "htb_delay F d =
     (let per = (\<lambda>num den. d_trunc F (d_mul F (d_div F (d_of_int F num) (d_of_int F den)) (d_of_int F 1000000)));
          assured_delay = (if total_assured_rate d > 0 then per 1 (total_assured_rate d) else 0);
          delay = (if uint (tb_rate (avail_pool d)) > 0 then per 2 (uint (tb_rate (avail_pool d))) else 0)
      in if assured_delay > 0 \<and> delay > assured_delay then assured_delay else delay)"

datatype round_result = Dispatch qid | Sleep int

text \<open>
  One round of the loop in \<^verbatim>\<open>getNextQueueForDispatch\<close>. The loop repeats it until a round
  dispatches; it gives the lock away while it sleeps, so the maps may change between rounds.
\<close>

definition htb_round :: "'d dbl \<Rightarrow> ((qid \<Rightarrow> TBQueueState option) \<Rightarrow> qid list) \<Rightarrow> (nat \<Rightarrow> u64) \<Rightarrow>
    ('q, 'd) QoSHTBDispatcher \<Rightarrow> (('q, 'd) QoSHTBDispatcher \<times> round_result) res option" where
  "htb_round F walk clk d = (case updateTBState (avail_pool d) (clk 0) of
     Inl e \<Rightarrow> Some (Inl e)
   | Inr (pool, _) \<Rightarrow>
       (case htb_scan F clk 1 (rotate_from (last_dispatch_qid d) (walk (qstate_map d))) None (d\<lparr>avail_pool := pool\<rparr>) of
          None \<Rightarrow> None
        | Some (Inl e) \<Rightarrow> Some (Inl e)
        | Some (Inr (d1, Served i)) \<Rightarrow> Some (Inr (d1, Dispatch i))
        | Some (Inr (d1, Candidate None)) \<Rightarrow> Some (Inr (d1, Sleep (htb_delay F d1)))
        | Some (Inr (d1, Candidate (Some (i, prio, wma)))) \<Rightarrow>
            (case tryToConsumeTokens (avail_pool d1) 1 of
               (pool', False) \<Rightarrow> Some (Inr (d1, Sleep (htb_delay F d1)))
             | (pool', True) \<Rightarrow> (case qstate_map d1 i of
                 None \<Rightarrow> Some (Inl NullDeref)
               | Some s \<Rightarrow> Some (bindR (consumeTokens 1 s) (\<lambda>s'.
                   Inr (d1\<lparr>avail_pool := pool', qstate_map := (qstate_map d1)(i \<mapsto> s'), last_dispatch_qid := i\<rparr>,
                        Dispatch i)))))))"

section \<open>The history window\<close>

lemma next_slot_sel:
  "next_hist_ts (next_slot s) = next_hist_ts s + 250000"
  "hist_slotix (next_slot s) = (hist_slotix s + 1) mod 20"
  "recent_iops (next_slot s) = (recent_iops s)[(hist_slotix s + 1) mod 20 := 0]"
  by (simp_all add: next_slot_def Let_def HTB_WMA_SLOT_SIZE_MICROSEC_def HTB_WMA_LENGTH_def)

lemma next_slot_pow:
  "next_hist_ts ((next_slot ^^ k) s) = next_hist_ts s + of_nat k * 250000"
  "hist_slotix s < 20 \<Longrightarrow> hist_slotix ((next_slot ^^ k) s) = (hist_slotix s + k) mod 20"
  "length (recent_iops ((next_slot ^^ k) s)) = length (recent_iops s)"
proof -
  show "next_hist_ts ((next_slot ^^ k) s) = next_hist_ts s + of_nat k * 250000"
    by (induction k) (simp_all add: next_slot_sel algebra_simps)
  show "hist_slotix ((next_slot ^^ k) s) = (hist_slotix s + k) mod 20" if "hist_slotix s < 20"
    using that by (induction k) (simp_all add: next_slot_sel mod_simps)
  show "length (recent_iops ((next_slot ^^ k) s)) = length (recent_iops s)"
    by (induction k) (simp_all add: next_slot_sel)
qed

lemma next_slot_pow_zero:
  assumes "hist_slotix s < 20" "length (recent_iops s) = 20" "1 \<le> m" "m \<le> k"
  shows "recent_iops ((next_slot ^^ k) s) ! ((hist_slotix s + m) mod 20) = 0"
  using assms(3,4)
proof (induction k)
  case (Suc k)
  have ix: "(hist_slotix ((next_slot ^^ k) s) + 1) mod 20 = (hist_slotix s + Suc k) mod 20"
    using next_slot_pow(2)[OF assms(1)] by (simp add: mod_simps)
  have len: "length (recent_iops ((next_slot ^^ k) s)) = 20"
    using next_slot_pow(3) assms(2) by simp
  show ?case
  proof (cases "m = Suc k")
    case True
    then show ?thesis
      using ix len by (simp add: next_slot_sel)
  next
    case False
    then have "recent_iops ((next_slot ^^ k) s) ! ((hist_slotix s + m) mod 20) = 0"
      using Suc by simp
    then show ?thesis
      using ix len by (simp add: next_slot_sel nth_list_update)
  qed
qed simp

lemma next_slot_pow_clear:
  assumes "hist_slotix s < 20" "length (recent_iops s) = 20" "20 \<le> k"
  shows "recent_iops ((next_slot ^^ k) s) = replicate 20 0"
proof (rule nth_equalityI)
  fix j assume "j < length (recent_iops ((next_slot ^^ k) s))"
  then have j: "j < 20" using next_slot_pow(3) assms(2) by simp
  define m where "m = (if j > hist_slotix s then j - hist_slotix s else 20 + j - hist_slotix s)"
  have "1 \<le> m" "m \<le> 20" "(hist_slotix s + m) mod 20 = j"
    using j assms(1) by (auto simp: m_def)
  then show "recent_iops ((next_slot ^^ k) s) ! j = replicate 20 0 ! j"
    using next_slot_pow_zero[OF assms(1,2), of m k] assms(3) j by simp
qed (simp add: next_slot_pow(3) assms(2))

lemma hist_loop_steps:
  assumes "\<And>j. 1 \<le> j \<Longrightarrow> j < k \<Longrightarrow> next_hist_ts ((next_slot ^^ j) s) < now"
    and "now \<le> next_hist_ts ((next_slot ^^ k) s)" "1 \<le> k"
  shows "hist_loop now s = Some ((next_slot ^^ k) s)"
  using assms
proof (induction k arbitrary: s)
  case (Suc k)
  show ?case
  proof (cases k)
    case 0
    then show ?thesis
      using Suc.prems(2) by (subst hist_loop.simps) (simp add: Let_def leD)
  next
    case (Suc k')
    have "next_hist_ts (next_slot s) < now"
      using Suc.prems(1)[of 1] Suc by simp
    moreover have "hist_loop now (next_slot s) = Some ((next_slot ^^ k) (next_slot s))"
    proof (rule Suc.IH)
      show "next_hist_ts ((next_slot ^^ j) (next_slot s)) < now" if "1 \<le> j" "j < k" for j
        using Suc.prems(1)[of "Suc j"] that by (simp add: funpow_swap1)
    qed (use Suc.prems(2) Suc in \<open>simp_all add: funpow_swap1\<close>)
    ultimately show ?thesis
      by (subst hist_loop.simps) (simp add: Let_def funpow_swap1)
  qed
qed simp

lemma hist_loop_returns:
  assumes nx: "unat (next_hist_ts s) \<le> unat now" and now: "unat now + 250000 < 2 ^ 64"
  obtains k where "hist_loop now s = Some ((next_slot ^^ k) s)" "1 \<le> k"
    "unat now \<le> unat (next_hist_ts s) + k * 250000" "unat (next_hist_ts s) + k * 250000 \<le> unat now + 250000"
proof -
  let ?n = "unat (next_hist_ts s)"
  define k where "k = max 1 ((unat now - ?n + 249999) div 250000)"
  have hi: "unat now \<le> ?n + k * 250000" "?n + k * 250000 \<le> unat now + 250000"
    using nx by (auto simp: k_def max_def)
  have lo: "?n + j * 250000 < unat now" if "j < k" "1 \<le> j" for j
  proof -
    have "j + 1 \<le> (unat now - ?n + 249999) div 250000"
      using that by (auto simp: k_def max_def split: if_splits)
    then have "(j + 1) * 250000 \<le> unat now - ?n + 249999"
      by (simp add: less_eq_div_iff_mult_less_eq)
    then show ?thesis using nx by simp
  qed
  have unat_next: "unat (next_hist_ts ((next_slot ^^ j) s)) = ?n + j * 250000" if "j \<le> k" for j
  proof -
    have "?n + j * 250000 \<le> ?n + k * 250000" using that by simp
    then have "?n + j * 250000 < 2 ^ LENGTH(64)" using hi(2) now by simp
    then have "unat (of_nat (?n + j * 250000) :: u64) = ?n + j * 250000" by (rule unat_of_nat_lt)
    moreover have "next_hist_ts s + of_nat j * 250000 = of_nat (?n + j * 250000)" by simp
    ultimately show ?thesis by (simp only: next_slot_pow(1))
  qed
  have "hist_loop now s = Some ((next_slot ^^ k) s)"
  proof (rule hist_loop_steps)
    show "next_hist_ts ((next_slot ^^ j) s) < now" if "1 \<le> j" "j < k" for j
      using lo[OF that(2,1)] unat_next[of j] that by (simp add: word_less_nat_alt)
    show "now \<le> next_hist_ts ((next_slot ^^ k) s)"
      using hi(1) unat_next[of k] by (simp add: word_le_nat_alt)
  qed (simp add: k_def)
  then show thesis
    using that[of k] hi by (simp add: k_def)
qed

text \<open>
  The history loop ends. For a clock more than a quarter second before the wrap, moving the
  history of a queue to \<open>now\<close> returns, the open slot then reaches at least \<open>now\<close>, and a queue
  that was idle for the whole window has an empty history.
\<close>

theorem history_advances:
  assumes "hist_slotix s < 20" "length (recent_iops s) = 20" "unat now + 250000 < 2 ^ 64"
  shows "\<exists>s'. moveToNextHistTs now s = Some s' \<and> now \<le> next_hist_ts s' \<and> hist_slotix s' < 20 \<and>
    length (recent_iops s') = 20 \<and>
    (unat now > unat (next_hist_ts s) + 19 * 250000 \<longrightarrow> recent_iops s' = replicate 20 0)"
proof (cases "now > next_hist_ts s")
  case False
  then show ?thesis
    using assms by (auto simp: moveToNextHistTs_def word_less_nat_alt word_le_nat_alt)
next
  case True
  then obtain k where k: "hist_loop now s = Some ((next_slot ^^ k) s)" "1 \<le> k"
    "unat now \<le> unat (next_hist_ts s) + k * 250000" "unat (next_hist_ts s) + k * 250000 \<le> unat now + 250000"
    using hist_loop_returns[of s now] assms(3) by (auto simp: word_less_nat_alt)
  have small: "unat (next_hist_ts s) + k * 250000 < 2 ^ LENGTH(64)"
    using k(4) assms(3) by simp
  have "next_hist_ts s + of_nat k * 250000 = of_nat (unat (next_hist_ts s) + k * 250000)" by simp
  then have "unat (next_hist_ts ((next_slot ^^ k) s)) = unat (next_hist_ts s) + k * 250000"
    using unat_of_nat_lt[OF small] by (simp only: next_slot_pow(1))
  moreover have "20 \<le> k" if "unat now > unat (next_hist_ts s) + 19 * 250000"
    using that k(3) by simp
  ultimately show ?thesis
    using True k next_slot_pow(2)[OF assms(1), of k] next_slot_pow(3)[of k s] assms(2)
      next_slot_pow_clear[OF assms(1,2), of k]
    by (auto simp: moveToNextHistTs_def word_le_nat_alt)
qed

definition idle_queue :: TBQueueState where
  "idle_queue = \<lparr>qs_id = 1, assured_rate = 20, throttle_rate = 100, qs_priority = 1,
     recent_iops = replicate 20 5, next_hist_ts = 250000, hist_slotix = 0,
     tb_assured = \<lparr>tb_rate = 20, tb_burst = 20, tb_last = 0, tb_tokens = 0\<rparr>,
     tb_throttle = \<lparr>tb_rate = 100, tb_burst = 20, tb_last = 0, tb_tokens = 0\<rparr>, queued_io_counter = 0\<rparr>"

theorem history_advances_witness:
  "\<exists>s'. moveToNextHistTs 60000000 idle_queue = Some s' \<and> 60000000 \<le> next_hist_ts s' \<and>
    recent_iops s' = replicate 20 0"
proof -
  have q: "hist_slotix idle_queue < 20" "length (recent_iops idle_queue) = 20"
    "unat (next_hist_ts idle_queue) = 250000"
    by (simp_all add: idle_queue_def)
  have "unat (60000000 :: u64) + 250000 < 2 ^ 64" "unat (60000000 :: u64) > 250000 + 19 * 250000" by simp_all
  then show ?thesis
    using history_advances[OF q(1,2), of 60000000] q(3) by auto
qed

section \<open>The rates of a dispatcher add up\<close>

datatype ('q, 'd) htb_op = HRegister qid "'q FDS_VolumeQueue" "nat \<Rightarrow> u64" | HModify qid int int u32 "nat \<Rightarrow> u64"
  | HDeregister qid u64 | HTotal int u64 | HThrottle 'd "qid \<Rightarrow> nat \<Rightarrow> u64"

fun htb_exec :: "'d dbl \<Rightarrow> ((qid \<Rightarrow> TBQueueState option) \<Rightarrow> qid list) \<Rightarrow> ('q, 'd) QoSHTBDispatcher \<Rightarrow> ('q, 'd) htb_op \<Rightarrow>
    (('q, 'd) QoSHTBDispatcher \<times> fds_errno) res" where
  "htb_exec F walk d (HRegister i q clk) = HTB_registerQueue i q clk d"
| "htb_exec F walk d (HModify i assured throttle prio clk) = HTB_modifyQueueQosParams F i assured throttle prio clk d"
| "htb_exec F walk d (HDeregister i clock) = HTB_deregisterQueue i clock d"
| "htb_exec F walk d (HTotal iops clock) = modifyTotalRate iops clock d"
| "htb_exec F walk d (HThrottle level clk) =
     bindR (HTB_setThrottleLevel F walk clk level d) (\<lambda>d'. Inr (d', ERR_OK))"

text \<open>The signed 64-bit range of the total rate.\<close>

fun htb_op_ok :: "('q, 'd) htb_op \<Rightarrow> bool" where
  "htb_op_ok (HTotal iops clock) = (iops < 2 ^ 63)"
| "htb_op_ok _ = True"

definition sum_assured :: "(qid \<Rightarrow> TBQueueState option) \<Rightarrow> int" where
  "sum_assured m = (\<Sum>i\<in>dom m. assured_rate (the (m i)))"

definition htb_ok :: "('q, 'd) QoSHTBDispatcher \<Rightarrow> bool" where
  "htb_ok d \<longleftrightarrow> finite (dom (qstate_map d)) \<and> dom (queue_map d) = dom (qstate_map d) \<and>
     (\<forall>s\<in>ran (qstate_map d). 0 < assured_rate s) \<and>
     total_assured_rate d = sum_assured (qstate_map d) \<and>
     total_assured_rate d < total_iops d \<and> total_iops d < 2 ^ 63 \<and>
     getRate (avail_pool d) = total_iops d - total_assured_rate d"

lemma sum_assured_upd:
  assumes "finite (dom m)"
  shows "sum_assured (m(i \<mapsto> s)) = sum_assured m - (case m i of None \<Rightarrow> 0 | Some s0 \<Rightarrow> assured_rate s0) + assured_rate s"
proof -
  have *: "sum_assured m = sum_assured (m(i := None)) + (case m i of None \<Rightarrow> 0 | Some s0 \<Rightarrow> assured_rate s0)"
    if "finite (dom m)" for m
  proof (cases "m i")
    case None
    then have "m(i := None) = m" by auto
    then show ?thesis using None by simp
  next
    case (Some s0)
    then have "i \<in> dom m" by auto
    then have "sum_assured m = assured_rate s0 + (\<Sum>j\<in>dom m - {i}. assured_rate (the (m j)))"
      unfolding sum_assured_def using that Some by (subst sum.remove[of _ i]) auto
    also have "(\<Sum>j\<in>dom m - {i}. assured_rate (the (m j))) = sum_assured (m(i := None))"
      unfolding sum_assured_def by (rule sum.cong) auto
    finally show ?thesis using Some by simp
  qed
  have "sum_assured (m(i \<mapsto> s)) = sum_assured (m(i := None)) + assured_rate s"
    using *[of "m(i \<mapsto> s)"] assms by simp
  then show ?thesis using *[OF assms] by simp
qed

lemma sum_assured_del:
  assumes "finite (dom m)" "m i = Some s"
  shows "sum_assured (m(i := None)) = sum_assured m - assured_rate s"
proof -
  have "(m(i := None))(i \<mapsto> s) = m" using assms(2) by auto
  then show ?thesis
    using sum_assured_upd[of "m(i := None)" i s] assms(1) by simp
qed

lemma sint_rate64: "sint (word_of_int r :: u64) = signed_take_bit 63 r"
  by transfer simp

lemma modifyRate_getRate:
  assumes "modifyRate tb (rate64 r) clock = Inr tb'" "0 < r" "r < 2 ^ 63"
  shows "getRate tb' = r"
proof -
  have "sint (word_of_int r :: u64) = r"
    using assms(2,3) by (simp add: sint_rate64 signed_take_bit_int_eq_self)
  moreover have "(word_of_int r :: u64) \<noteq> 0"
    using calculation assms(2) by force
  ultimately show ?thesis
    using assms(1) by (auto simp: modifyRate_def modifyParams_def bindR_eq_Inr getRate_def rate64_def)
qed

lemma setEffective_assured: "setEffectiveMinMaxRates a t wait clk s = Inr s' \<Longrightarrow> assured_rate s' = assured_rate s"
  by (auto simp: setEffectiveMinMaxRates_def res_simps)

lemma setQueueThrottleLevel_assured:
  "setQueueThrottleLevel F x frac wait clk s = Inr s' \<Longrightarrow> assured_rate s' = assured_rate s"
  by (auto simp: setQueueThrottleLevel_def setEffective_assured split: prod.splits)

definition same_assured :: "(qid \<Rightarrow> TBQueueState option) \<Rightarrow> (qid \<Rightarrow> TBQueueState option) \<Rightarrow> bool" where
  "same_assured m m' \<longleftrightarrow> (\<forall>i. map_option assured_rate (m' i) = map_option assured_rate (m i))"

lemma same_assured_facts:
  assumes "same_assured m m'"
  shows "dom m' = dom m" "sum_assured m' = sum_assured m"
    "(\<forall>s\<in>ran m. 0 < assured_rate s) \<Longrightarrow> (\<forall>s\<in>ran m'. 0 < assured_rate s)"
proof -
  have eq: "map_option assured_rate (m' i) = map_option assured_rate (m i)" for i
    using assms by (simp add: same_assured_def)
  have "i \<in> dom m' \<longleftrightarrow> i \<in> dom m" for i
    using arg_cong[OF eq[of i], of "\<lambda>x. x = None"] by (simp add: domIff)
  then show dom: "dom m' = dom m" by blast
  have "assured_rate (the (m' i)) = assured_rate (the (m i))" if "i \<in> dom m" for i
    using eq[of i] that dom by (auto simp: domIff)
  then show "sum_assured m' = sum_assured m"
    unfolding sum_assured_def dom by (intro sum.cong) auto
  show "\<forall>s\<in>ran m'. 0 < assured_rate s" if pos: "\<forall>s\<in>ran m. 0 < assured_rate s"
  proof
    fix s assume "s \<in> ran m'"
    then obtain i where i: "m' i = Some s" by (auto simp: ran_def)
    then obtain s0 where "m i = Some s0" "assured_rate s0 = assured_rate s"
      using eq[of i] by (cases "m i") auto
    then show "0 < assured_rate s" using pos by (metis ranI)
  qed
qed

lemma throttle_same_assured:
  assumes "foldR (\<lambda>i m. case m i of None \<Rightarrow> Inl Undefined
    | Some s \<Rightarrow> bindR (setQueueThrottleLevel F x frac wait (clk i) s) (\<lambda>s'. Inr (m(i \<mapsto> s')))) qs m = Inr m'"
  shows "same_assured m m'"
  using assms
proof (induction qs arbitrary: m)
  case Nil
  then show ?case by (simp add: same_assured_def)
next
  case (Cons i qs)
  then obtain s s' where s: "m i = Some s" "setQueueThrottleLevel F x frac wait (clk i) s = Inr s'"
    and rest: "same_assured (m(i \<mapsto> s')) m'"
    by (auto simp: bindR_eq_Inr split: option.splits)
  have "map_option assured_rate ((m(i \<mapsto> s')) j) = map_option assured_rate (m j)" for j
    using s(1) setQueueThrottleLevel_assured[OF s(2)] by simp
  then show ?case
    using rest by (simp add: same_assured_def)
qed

lemma sum_assured_nonneg: "htb_ok d \<Longrightarrow> 0 \<le> sum_assured (qstate_map d)"
  unfolding sum_assured_def htb_ok_def
  by (intro sum_nonneg) (auto simp: ran_def intro: order.strict_implies_order)

lemma htb_ok_throttle:
  assumes "htb_ok d" "HTB_setThrottleLevel F walk clk level d = Inr d'"
  shows "htb_ok d'"
proof -
  obtain m where m: "same_assured (qstate_map d) m" and d': "d' = d\<lparr>qstate_map := m, current_throttle_level := level\<rparr>"
    using assms(2) by (auto simp: HTB_setThrottleLevel_def res_simps dest: throttle_same_assured)
  show ?thesis
    using assms(1) same_assured_facts[OF m] by (simp add: htb_ok_def d')
qed

lemma htb_ok_total:
  assumes "htb_ok d" "modifyTotalRate iops clock d = Inr (d', err)" "iops < 2 ^ 63"
  shows "htb_ok d'"
proof (cases "iops \<le> total_assured_rate d")
  case True
  then show ?thesis using assms by (simp add: modifyTotalRate_def)
next
  case False
  then obtain pool where pool: "modifyRate (avail_pool d) (rate64 (iops - total_assured_rate d)) clock = Inr pool"
    and d': "d' = d\<lparr>total_iops := iops, avail_pool := pool\<rparr>"
    using assms(2) by (auto simp: modifyTotalRate_def bindR_eq_Inr)
  have "getRate pool = iops - total_assured_rate d"
    using modifyRate_getRate[OF pool] False assms(1,3) sum_assured_nonneg[OF assms(1)] by (simp add: htb_ok_def)
  then show ?thesis
    using assms(1,3) False by (simp add: htb_ok_def d')
qed

lemma htb_ok_deregister:
  assumes ok: "htb_ok d" and r: "HTB_deregisterQueue i clock d = Inr (d', err)"
  shows "htb_ok d'"
proof (cases "qstate_map d i")
  case None
  then have "queue_map d i = None"
    using ok by (auto simp: htb_ok_def)
  then show ?thesis
    using None r ok by (auto simp: HTB_deregisterQueue_def deregisterQueueWithLockHeld_def)
next
  case (Some s)
  then have q: "queue_map d i \<noteq> None" and pos: "0 < assured_rate s"
    using ok by (auto simp: htb_ok_def ran_def)
  let ?ta = "total_assured_rate d - assured_rate s"
  have ta: "?ta < total_iops d" "?ta = sum_assured ((qstate_map d)(i := None))"
    using ok pos sum_assured_del[of "qstate_map d" i s] Some by (simp_all add: htb_ok_def)
  have dom: "i \<in> dom (qstate_map d)" using Some by auto
  obtain pool where pool: "modifyRate (avail_pool d) (rate64 (total_iops d - ?ta)) clock = Inr pool"
    and d': "d' = d\<lparr>queue_map := (queue_map d)(i := None), total_assured_rate := ?ta, avail_pool := pool,
      qstate_map := (qstate_map d)(i := None)\<rparr>" and nonneg: "0 \<le> ?ta"
    using r Some q ta(1)
    by (auto simp: HTB_deregisterQueue_def deregisterQueueWithLockHeld_def res_simps Let_def)
  have "getRate pool = total_iops d - ?ta"
    using modifyRate_getRate[OF pool] nonneg ta(1) ok by (simp add: htb_ok_def)
  then show ?thesis
    using ok ta by (auto simp: htb_ok_def d' ran_def)
qed

lemma htb_ok_register:
  assumes ok: "htb_ok d" and r: "HTB_registerQueue i q clk d = Inr (d', err)"
  shows "htb_ok d'"
proof -
  obtain qa qt where rates: "effective_rates (iops_assured q) (iops_throttle q) = (qa, qt)"
    by (cases "effective_rates (iops_assured q) (iops_throttle q)")
  have qa: "0 < qa" using rates by (auto simp: effective_rates_def HTB_QUEUE_RATE_MIN_def)
  obtain s where s: "TBQueueState_new i qa qt (vq_priority q) (wait_time_microsec d) (default_que_burst_size d) clk = Inr s"
    using r by (auto simp: HTB_registerQueue_def rates bindR_eq_Inr)
  have s_rate: "assured_rate s = qa"
    using s by (auto simp: TBQueueState_new_def res_simps)
  show ?thesis
  proof (cases "qa + total_assured_rate d \<ge> total_iops d \<or> queue_map d i \<noteq> None")
    case True
    then show ?thesis
      using r ok by (auto simp: HTB_registerQueue_def rates s registerQueueWithLockHeld_def split: if_splits)
  next
    case False
    then have none: "queue_map d i = None" "qstate_map d i = None" and room: "qa + total_assured_rate d < total_iops d"
      using ok by (auto simp: htb_ok_def)
    have avail: "getRate (avail_pool d) = total_iops d - total_assured_rate d"
      using ok by (simp add: htb_ok_def)
    obtain pool where pool: "modifyRate (avail_pool d) (rate64 (total_iops d - total_assured_rate d - qa)) (clk 3) = Inr pool"
      and d': "d' = d\<lparr>queue_map := (queue_map d)(i \<mapsto> q), total_assured_rate := total_assured_rate d + qa,
        avail_pool := pool, qstate_map := (qstate_map d)(i \<mapsto> s)\<rparr>"
      using r none(1) room avail
      by (auto simp: HTB_registerQueue_def rates s registerQueueWithLockHeld_def Let_def bindR_eq_Inr)
    have ta: "total_assured_rate d = sum_assured (qstate_map d)" "total_iops d < 2 ^ 63"
      using ok by (simp_all add: htb_ok_def)
    have "getRate pool = total_iops d - total_assured_rate d - qa"
      using modifyRate_getRate[OF pool] room ta sum_assured_nonneg[OF ok] qa by simp
    moreover have "sum_assured ((qstate_map d)(i \<mapsto> s)) = total_assured_rate d + qa"
      using sum_assured_upd[of "qstate_map d" i s] ok none(2) s_rate by (simp add: htb_ok_def)
    ultimately show ?thesis
      using ok room qa s_rate none(2) by (auto simp: htb_ok_def d')
  qed
qed

lemma htb_ok_modify:
  assumes ok: "htb_ok d" and r: "HTB_modifyQueueQosParams F i assured throttle prio clk d = Inr (d', err)"
  shows "htb_ok d'"
proof -
  obtain qa qt where rates: "effective_rates assured throttle = (qa, qt)"
    by (cases "effective_rates assured throttle")
  have qa: "0 < qa" using rates by (auto simp: effective_rates_def HTB_QUEUE_RATE_MIN_def)
  show ?thesis
  proof (cases "qstate_map d i")
    case None
    then show ?thesis using r ok by (auto simp: HTB_modifyQueueQosParams_def rates)
  next
    case (Some s)
    then obtain q where q: "queue_map d i = Some q"
      using ok by (auto simp: htb_ok_def)
    show ?thesis
    proof (cases "qa > assured_rate s \<and> qa - assured_rate s + total_assured_rate d \<ge> total_iops d")
      case True
      then show ?thesis using r ok Some by (auto simp: HTB_modifyQueueQosParams_def rates)
    next
      case False
      let ?ta = "total_assured_rate d - assured_rate s + qa"
      have room: "?ta < total_iops d"
        using False ok by (auto simp: htb_ok_def)
      have avail: "getRate (avail_pool d) + assured_rate s - qa = total_iops d - ?ta"
        using ok by (simp add: htb_ok_def)
      obtain pool s' where pool: "modifyRate (avail_pool d) (rate64 (total_iops d - ?ta)) (clk 0) = Inr pool"
        and s': "assured_rate s' = qa"
        and d': "d' = d\<lparr>queue_map := (queue_map d)(i \<mapsto> modifyQosParams qa qt prio q), total_assured_rate := ?ta,
          avail_pool := pool, qstate_map := (qstate_map d)(i \<mapsto> s')\<rparr>"
        and nonneg: "0 \<le> ?ta - qa"
        using r False q Some room avail
        by (auto simp: HTB_modifyQueueQosParams_def rates modifyQueueQosWithLockHeld_def Let_def res_simps
          setQueueThrottleLevel_float_def dest!: setQueueThrottleLevel_assured)
      have sums: "sum_assured ((qstate_map d)(i \<mapsto> s')) = ?ta"
        using sum_assured_upd[of "qstate_map d" i s'] ok Some s' by (simp add: htb_ok_def)
      have "getRate pool = total_iops d - ?ta"
        using modifyRate_getRate[OF pool] nonneg room qa ok by (simp add: htb_ok_def)
      then show ?thesis
        using ok room qa s' sums Some q by (auto simp: htb_ok_def d' ran_def)
    qed
  qed
qed

lemma htb_ok_run:
  assumes "htb_ok d" "\<forall>a\<in>set as. htb_op_ok a" "run_ops (htb_exec F walk) d as = Inr (d', outs)"
  shows "htb_ok d'"
  using assms
proof (induction as arbitrary: d outs)
  case (Cons a as)
  then obtain d1 r outs' where d1: "htb_exec F walk d a = Inr (d1, r)"
    and rest: "run_ops (htb_exec F walk) d1 as = Inr (d', outs')"
    by (auto simp: bindR_eq_Inr)
  have "htb_ok d1"
    using Cons.prems(1,2) d1
    by (cases a) (auto simp: bindR_eq_Inr intro: htb_ok_register htb_ok_modify htb_ok_deregister htb_ok_total htb_ok_throttle)
  then show ?case
    using Cons.IH[OF _ _ rest] Cons.prems(2) by simp
qed simp

lemma htb_ok_new:
  assumes "QoSHTBDispatcher_new F iops bypass clock = Inr d" "0 < iops" "iops < 2 ^ 63"
  shows "htb_ok d"
proof -
  have r: "sint (word_of_int iops :: u64) = iops"
    using assms(2,3) by (simp add: sint_rate64 signed_take_bit_int_eq_self)
  then have "(word_of_int iops :: u64) \<noteq> 0"
    using assms(2) by force
  then show ?thesis
    using assms r by (auto simp: QoSHTBDispatcher_new_def TokenBucket_new_def res_simps rate64_def getRate_def htb_ok_def
      sum_assured_def FDS_QoSDispatcher_new_def QoSHTBDispatcher.defs FDS_QoSDispatcher.defs)
qed


text \<open>Whole numbers in place of floating point, for concrete runs.\<close>

definition int_dbl :: "int dbl" where
  "int_dbl = \<lparr>d_of_int = (\<lambda>n. n), d_lit4 = (\<lambda>n. int n div 10000), d_add = (+), d_sub = (-), d_mul = (*),
     d_div = (div), d_abs = abs, d_trunc = (\<lambda>n. n), d_less = (<), d_le = (\<le>)\<rparr>"

definition sample_queue :: "int \<Rightarrow> nat list FDS_VolumeQueue" where
  "sample_queue assured = \<lparr>volQueue = [], volQState = FDS_VOL_Q_ACTIVE, iops_throttle = 0, iops_assured = assured,
     vq_priority = 1, vq_count = 0\<rparr>"


section \<open>Every dispatch is paid for\<close>

lemma hist_loop_keeps:
  assumes "hist_loop now s = Some s'"
  shows "queued_io_counter s' = queued_io_counter s \<and> qs_id s' = qs_id s"
proof (rule hist_loop.raw_induct[where P = "\<lambda>now s s'. queued_io_counter s' = queued_io_counter s \<and> qs_id s' = qs_id s",
    OF _ assms])
  fix loop now s s'
  assume IH: "\<And>now s s'. loop now s = Some s' \<Longrightarrow> queued_io_counter s' = queued_io_counter s \<and> qs_id s' = qs_id s"
    and body: "(let s' = next_slot s in if next_hist_ts s' < now then loop now s' else Some s') = Some s'"
  have "queued_io_counter (next_slot s) = queued_io_counter s" "qs_id (next_slot s) = qs_id s"
    by (simp_all add: next_slot_def Let_def)
  then show "queued_io_counter s' = queued_io_counter s \<and> qs_id s' = qs_id s"
    using body IH[of now "next_slot s" s'] by (auto simp: Let_def split: if_splits)
qed

lemma updateTokens_keeps:
  assumes "updateTokens now s = Some (Inr (s1, e))"
  shows "queued_io_counter s1 = queued_io_counter s \<and> qs_id s1 = qs_id s"
  using assms by (auto simp: updateTokens_def moveToNextHistTs_def res_simps split: option.splits if_splits
    dest!: hist_loop_keeps)

text \<open>
  Queue \<open>i\<close> was brought up to date from \<open>s\<close> to \<open>s1\<close>, has a request waiting and a token under its
  throttle rate; \<open>paid\<close> says that the token is gone.
\<close>

definition eligible :: "TBQueueState \<Rightarrow> TBQueueState \<Rightarrow> bool" where
  "eligible s s1 \<longleftrightarrow> (\<exists>now e. updateTokens now s = Some (Inr (s1, e))) \<and> queued_io_counter s \<noteq> 0 \<and>
     hasTokens (tb_throttle s1) 1"

definition paid :: "TBQueueState \<Rightarrow> TBQueueState \<Rightarrow> bool" where
  "paid s s2 \<longleftrightarrow> (\<exists>s1. eligible s s1 \<and> unat (tb_tokens (tb_throttle s1)) = unat (tb_tokens (tb_throttle s2)) + 1)"

lemma consume_one:
  assumes "hasTokens tb 1"
  shows "unat (tb_tokens tb) = unat (tb_tokens (fst (tryToConsumeTokens tb 1))) + 1"
  using consume_facts(4,5)[of tb 1] assms by simp

lemma try_assured_cases:
  assumes up: "updateTokens now s = Some (Inr (s1, e))" and t: "tryToConsumeAssuredTokens 1 s1 = (s2, st)"
  shows "qs_id s2 = qs_id s" "st = TBQUEUE_STATE_OK \<Longrightarrow> paid s s2"
    "st = TBQUEUE_STATE_NO_ASSURED_TOKENS \<Longrightarrow> eligible s s1 \<and> tb_throttle s2 = tb_throttle s1"
proof -
  note keeps = updateTokens_keeps[OF up]
  show "qs_id s2 = qs_id s"
    using t keeps by (auto simp: tryToConsumeAssuredTokens_def split: if_splits prod.splits bool.splits)
  show "st = TBQUEUE_STATE_NO_ASSURED_TOKENS \<Longrightarrow> eligible s s1 \<and> tb_throttle s2 = tb_throttle s1"
    using t keeps up by (auto simp: tryToConsumeAssuredTokens_def eligible_def split: if_splits prod.splits bool.splits)
  assume ok: "st = TBQUEUE_STATE_OK"
  then have "eligible s s1" "tb_throttle s2 = fst (tryToConsumeTokens (tb_throttle s1) 1)"
    using t keeps up by (auto simp: tryToConsumeAssuredTokens_def eligible_def split: if_splits prod.splits bool.splits)
  then show "paid s s2"
    using consume_one[of "tb_throttle s1"] by (auto simp: paid_def eligible_def)
qed

definition keys_ok :: "(qid \<Rightarrow> TBQueueState option) \<Rightarrow> bool" where
  "keys_ok m \<longleftrightarrow> (\<forall>i s. m i = Some s \<longrightarrow> qs_id s = i)"

definition candidate_ok :: "(qid \<Rightarrow> TBQueueState option) \<Rightarrow> (qid \<Rightarrow> TBQueueState option) \<Rightarrow> qid \<Rightarrow> bool" where
  "candidate_ok m m' i \<longleftrightarrow> (\<exists>s s1 s2. m i = Some s \<and> m' i = Some s2 \<and> eligible s s1 \<and> tb_throttle s2 = tb_throttle s1)"

lemma htb_scan_result:
  assumes "htb_scan F clk n qs best d = Some (Inr (d1, r))" "distinct qs" "keys_ok (qstate_map d)"
  shows "(\<forall>j. j \<notin> set qs \<longrightarrow> qstate_map d1 j = qstate_map d j) \<and>
    (case r of
       Served i \<Rightarrow> i \<in> set qs \<and> last_dispatch_qid d1 = i \<and>
         (\<exists>s s2. qstate_map d i = Some s \<and> qstate_map d1 i = Some s2 \<and> paid s s2)
     | Candidate best' \<Rightarrow> best' = best \<or>
         (\<exists>i c. best' = Some (i, c) \<and> i \<in> set qs \<and> candidate_ok (qstate_map d) (qstate_map d1) i))"
  using assms
proof (induction qs arbitrary: n best d)
  case Nil
  then show ?case by auto
next
  case (Cons i qs)
  obtain s s1 e s2 st where s: "qstate_map d i = Some s" and up: "updateTokens (clk n) s = Some (Inr (s1, e))"
    and t: "tryToConsumeAssuredTokens 1 s1 = (s2, st)"
    using Cons.prems(1) by (fastforce split: option.splits sum.splits prod.splits)
  define d' where "d' = d\<lparr>avail_pool := (if e > 0 then addTokens (avail_pool d) e else avail_pool d),
    qstate_map := (qstate_map d)(i \<mapsto> s2)\<rparr>"
  have m': "qstate_map d' = (qstate_map d)(i \<mapsto> s2)" by (simp add: d'_def)
  have id: "qs_id s2 = i"
    using try_assured_cases(1)[OF up t] Cons.prems(3) s by (simp add: keys_ok_def)
  show ?case
  proof (cases "st = TBQUEUE_STATE_OK")
    case True
    then have "d1 = d'\<lparr>last_dispatch_qid := i\<rparr>" "r = Served i"
      using Cons.prems(1) by (simp_all add: s up t d'_def Let_def)
    then show ?thesis
      using try_assured_cases(2)[OF up t True] s by (auto simp: m')
  next
    case False
    define best' where "best' = (if st = TBQUEUE_STATE_NO_ASSURED_TOKENS
      then better F best (qs_id s2, qs_priority s2, getIOPerfWMA F s2) else best)"
    have rest: "htb_scan F clk (Suc n) qs best' d' = Some (Inr (d1, r))"
      using Cons.prems(1) False by (simp add: s up t d'_def best'_def Let_def)
    have "keys_ok (qstate_map d')" using Cons.prems(3) id by (simp add: m' keys_ok_def)
    note IH = Cons.IH[OF rest _ this]
    have same: "qstate_map d1 i = Some s2" using IH Cons.prems(2) by (simp add: m')
    have lift: "qstate_map d j = qstate_map d' j" if "j \<in> set qs" for j
      using that Cons.prems(2) by (auto simp: m')
    have best: "best' = best \<or> (best' = Some (i, qs_priority s2, getIOPerfWMA F s2) \<and>
        candidate_ok (qstate_map d) (qstate_map d1) i)"
      using try_assured_cases(3)[OF up t] s same
      by (auto simp: best'_def better_def id candidate_ok_def split: option.splits)
    have frame: "\<forall>j. j \<notin> set (i # qs) \<longrightarrow> qstate_map d1 j = qstate_map d j"
      using IH Cons.prems(2) by (simp add: m')
    show ?thesis
    proof (cases r)
      case (Served j)
      then show ?thesis using IH Cons.prems(2) frame lift by auto
    next
      case (Candidate b)
      then show ?thesis using IH Cons.prems(2) frame lift best by (auto simp: candidate_ok_def)
    qed
  qed
qed

lemma rotate_from_walk:
  assumes "distinct qs"
  shows "distinct (rotate_from l qs)" "set (rotate_from l qs) = set qs"
proof -
  have "rotate_from l qs = rotate (length (takeWhile (\<lambda>i. i \<noteq> l) qs)) qs"
    by (metis rotate_append rotate_from_def takeWhile_dropWhile_id)
  then show "distinct (rotate_from l qs)" "set (rotate_from l qs) = set qs"
    using assms by simp_all
qed

lemma candidate_pays:
  assumes "candidate_ok m m' i" "m' i = Some s2" "consumeTokens 1 s2 = Inr s'"
  shows "\<exists>s. m i = Some s \<and> paid s s'"
proof -
  obtain s s1 where s: "m i = Some s" "eligible s s1" "tb_throttle s2 = tb_throttle s1"
    using assms(1,2) by (auto simp: candidate_ok_def)
  have "tb_throttle s' = fst (tryToConsumeTokens (tb_throttle s1) 1)"
    using assms(3) s(3) by (auto simp: consumeTokens_def res_simps split: prod.splits)
  then have "unat (tb_tokens (tb_throttle s1)) = unat (tb_tokens (tb_throttle s')) + 1"
    using consume_one[of "tb_throttle s1"] s(2) by (simp add: eligible_def)
  then show ?thesis using s by (auto simp: paid_def)
qed

text \<open>
  C36. Every dispatch is paid for. When a round of the dispatcher picks a queue, that queue had a
  request waiting and, once its buckets were brought up to date, a token under its throttle
  rate, and exactly one such token is taken: no queue is served above its throttle rate,
  whether the request counts against its assured rate or against the shared pool.
\<close>

theorem htb_round_pays:
  assumes "hash_walk walk" "finite (dom (qstate_map d))" "keys_ok (qstate_map d)"
    and "htb_round F walk clk d = Some (Inr (d', Dispatch i))"
  shows "last_dispatch_qid d' = i \<and> (\<exists>s s'. qstate_map d i = Some s \<and> qstate_map d' i = Some s' \<and> paid s s')"
proof -
  let ?qs = "rotate_from (last_dispatch_qid d) (walk (qstate_map d))"
  have dist: "distinct ?qs"
    using assms(1,2) by (simp add: hash_walk_def rotate_from_walk)
  obtain pool e where pool: "updateTBState (avail_pool d) (clk 0) = Inr (pool, e)"
    using assms(4) by (auto simp: htb_round_def split: sum.splits)
  obtain d1 r where scan: "htb_scan F clk (Suc 0) ?qs None (d\<lparr>avail_pool := pool\<rparr>) = Some (Inr (d1, r))"
    using assms(4) by (auto simp: htb_round_def pool split: option.splits sum.splits)
  note res = htb_scan_result[OF scan dist, simplified, OF assms(3)]
  show ?thesis
  proof (cases r)
    case (Served j)
    then have "d' = d1" "j = i"
      using assms(4) by (auto simp: htb_round_def pool scan)
    then show ?thesis using res Served by simp
  next
    case (Candidate best)
    then obtain c where best: "best = Some (i, c)"
      using assms(4) by (auto simp: htb_round_def pool scan res_simps split: option.splits prod.splits bool.splits)
    then have cand: "candidate_ok (qstate_map d) (qstate_map d1) i"
      using res Candidate by auto
    obtain s2 s' where "qstate_map d1 i = Some s2" "consumeTokens 1 s2 = Inr s'"
      "last_dispatch_qid d' = i" "qstate_map d' i = Some s'"
      using assms(4) Candidate best
      by (auto simp: htb_round_def pool scan res_simps split: option.splits prod.splits bool.splits)
    then show ?thesis
      using candidate_pays[OF cand] by auto
  qed
qed

theorem htb_round_pays_witness:
  "\<exists>d d' s s'. htb_round int_dbl (\<lambda>m. sorted_list_of_set (dom m)) (\<lambda>_. 0) (d :: (nat list, int) QoSHTBDispatcher) =
      Some (Inr (d', Dispatch 1)) \<and> qstate_map d 1 = Some s \<and> qstate_map d' 1 = Some s' \<and> paid s s'"
proof -
  define q where "q = idle_queue\<lparr>queued_io_counter := 1,
    tb_throttle := \<lparr>tb_rate = 100, tb_burst = 20, tb_last = 0, tb_tokens = 5\<rparr>\<rparr>"
  define d :: "(nat list, int) QoSHTBDispatcher" where "d = FDS_QoSDispatcher.extend (FDS_QoSDispatcher_new 1000 False)
    (QoSHTBDispatcher.fields 1000 20 1000000 20 20 11 \<lparr>tb_rate = 980, tb_burst = 20, tb_last = 0, tb_tokens = 3\<rparr>
      [1 \<mapsto> q] 0)"
  have m: "qstate_map d = [1 \<mapsto> q]"
    by (simp add: d_def QoSHTBDispatcher.defs FDS_QoSDispatcher.defs)
  have walk: "hash_walk (\<lambda>m. sorted_list_of_set (dom (m :: qid \<Rightarrow> TBQueueState option)))"
    by (simp add: hash_walk_def)
  have keys: "finite (dom (qstate_map d))" "keys_ok (qstate_map d)"
    by (simp_all add: m keys_ok_def q_def idle_queue_def)
  obtain d' where round: "htb_round int_dbl (\<lambda>m. sorted_list_of_set (dom m)) (\<lambda>_. 0) d = Some (Inr (d', Dispatch 1))"
    by (simp add: htb_round_def d_def QoSHTBDispatcher.defs FDS_QoSDispatcher.defs updateTBState_def updateTokensOnly_def
      expireTokens_def rotate_from_def updateTokens_def moveToNextHistTs_def q_def idle_queue_def
      tryToConsumeAssuredTokens_def tryToConsumeTokens_def hasTokens_def consumeTokens_def better_def Let_def
      FDS_QoSDispatcher_new_def)
  show ?thesis
    using htb_round_pays[OF walk keys round] round by blast
qed

section \<open>The min-priority dispatcher\<close>

record 'q QoSMinPrioDispatcher = "'q FDS_QoSDispatcher" +
  mp_wait_time_microsec :: u64
  mp_qstate_map :: "qid \<Rightarrow> TBQueueState option"
  mp_last_dispatch_qid :: qid

definition QoSMinPrioDispatcher_new :: "u32 \<Rightarrow> bool \<Rightarrow> 'q QoSMinPrioDispatcher" where
  "QoSMinPrioDispatcher_new rate bypass =
     FDS_QoSDispatcher.extend ((FDS_QoSDispatcher_new (uint rate) bypass)\<lparr>max_outstanding_ios := 20\<rparr>)
       (QoSMinPrioDispatcher.fields 250000 (\<lambda>_. None) 0)"

definition MP_registerQueue :: "qid \<Rightarrow> 'q FDS_VolumeQueue \<Rightarrow> (nat \<Rightarrow> u64) \<Rightarrow> 'q QoSMinPrioDispatcher \<Rightarrow>
    ('q QoSMinPrioDispatcher \<times> fds_errno) res" where
  "MP_registerQueue i q clk d =
     bindR (TBQueueState_new i (iops_assured q) 10000 (vq_priority q) (mp_wait_time_microsec d) 20 clk) (\<lambda>s.
       case registerQueueWithLockHeld i q d of (d1, err) \<Rightarrow>
         if err \<noteq> ERR_OK then Inr (d1, err)
         else Inr (d1\<lparr>mp_qstate_map := (mp_qstate_map d1)(i \<mapsto> s)\<rparr>, err))"

definition MP_deregisterQueue :: "qid \<Rightarrow> 'q QoSMinPrioDispatcher \<Rightarrow> 'q QoSMinPrioDispatcher \<times> fds_errno" where
  "MP_deregisterQueue i d = (case deregisterQueueWithLockHeld i d of (d1, err) \<Rightarrow>
     if mp_qstate_map d1 i = None then (d1, ERR_DUPLICATE)
     else (d1\<lparr>mp_qstate_map := (mp_qstate_map d1)(i := None)\<rparr>, err))"

definition MP_ioProcessForEnqueue :: "qid \<Rightarrow> 'q QoSMinPrioDispatcher \<Rightarrow> 'q QoSMinPrioDispatcher res" where
  "MP_ioProcessForEnqueue i d = (case mp_qstate_map d i of
     None \<Rightarrow> Inl NullDeref
   | Some s \<Rightarrow> Inr (d\<lparr>mp_qstate_map := (mp_qstate_map d)(i \<mapsto> fst (handleIoEnqueue s))\<rparr>))"

definition MP_ioProcessForDispatch :: "u64 \<Rightarrow> qid \<Rightarrow> 'q QoSMinPrioDispatcher \<Rightarrow> 'q QoSMinPrioDispatcher res option" where
  "MP_ioProcessForDispatch now i d = (case mp_qstate_map d i of
     None \<Rightarrow> Some (Inl NullDeref)
   | Some s \<Rightarrow> (case handleIoDispatch now s of
       None \<Rightarrow> None
     | Some (s', n) \<Rightarrow> Some (Inr (d\<lparr>mp_qstate_map := (mp_qstate_map d)(i \<mapsto> s')\<rparr>))))"

fun mp_scan :: "'d dbl \<Rightarrow> (nat \<Rightarrow> u64) \<Rightarrow> nat \<Rightarrow> qid list \<Rightarrow> (qid \<times> u32 \<times> 'd) option \<Rightarrow> 'q QoSMinPrioDispatcher \<Rightarrow>
    ('q QoSMinPrioDispatcher \<times> (qid \<times> u32 \<times> 'd) option scan_result) res option" where
  "mp_scan F clk n [] best d = Some (Inr (d, Candidate best))"
| "mp_scan F clk n (i # qs) best d = (case mp_qstate_map d i of
     None \<Rightarrow> Some (Inl Undefined)
   | Some s \<Rightarrow> (case updateTokens (clk n) s of
       None \<Rightarrow> None
     | Some (Inl e) \<Rightarrow> Some (Inl e)
     | Some (Inr (s1, expired)) \<Rightarrow>
         (case tryToConsumeAssuredTokens 1 s1 of (s2, st) \<Rightarrow>
           let d1 = d\<lparr>mp_last_dispatch_qid := qs_id s, mp_qstate_map := (mp_qstate_map d)(i \<mapsto> s2)\<rparr>
           in if st = TBQUEUE_STATE_OK then Some (Inr (d1\<lparr>mp_last_dispatch_qid := i\<rparr>, Served i))
              else mp_scan F clk (Suc n) qs
                (if st = TBQUEUE_STATE_NO_ASSURED_TOKENS
                 then better F best (qs_id s2, qs_priority s2, getIOPerfWMA F s2) else best) d1)))"

definition MP_getNextQueueForDispatch :: "'d dbl \<Rightarrow> ((qid \<Rightarrow> TBQueueState option) \<Rightarrow> qid list) \<Rightarrow> (nat \<Rightarrow> u64) \<Rightarrow>
    'q QoSMinPrioDispatcher \<Rightarrow> ('q QoSMinPrioDispatcher \<times> qid) res option" where
  "MP_getNextQueueForDispatch F walk clk d =
     (case mp_scan F clk 0 (rotate_from (mp_last_dispatch_qid d) (walk (mp_qstate_map d))) None d of
        None \<Rightarrow> None
      | Some (Inl e) \<Rightarrow> Some (Inl e)
      | Some (Inr (d1, Served i)) \<Rightarrow> Some (Inr (d1, i))
      | Some (Inr (d1, Candidate best)) \<Rightarrow>
          Some (fds_verify (best \<noteq> None) (let i = fst (the best) in Inr (d1\<lparr>mp_last_dispatch_qid := i\<rparr>, i))))"

definition mp_control :: "'q QoSMinPrioDispatcher \<Rightarrow> 'q QoSMinPrioDispatcher \<Rightarrow> bool" where
  "mp_control d d' \<longleftrightarrow> (\<exists>i q clk err. MP_registerQueue i q clk d = Inr (d', err)) \<or> (\<exists>i. d' = fst (MP_deregisterQueue i d))"

lemma mp_scan_counters: "mp_scan F clk n qs best d = Some (Inr (d', r)) \<Longrightarrow> same_counters d d'"
proof (induction qs arbitrary: n best d)
  case (Cons i qs)
  obtain s where s: "mp_qstate_map d i = Some s"
    using Cons.prems by (auto split: option.splits)
  obtain s1 e where s1: "updateTokens (clk n) s = Some (Inr (s1, e))"
    using Cons.prems by (auto simp: s split: option.splits sum.splits)
  obtain s2 st where s2: "tryToConsumeAssuredTokens 1 s1 = (s2, st)" by (cases "tryToConsumeAssuredTokens 1 s1")
  let ?d = "d\<lparr>mp_last_dispatch_qid := qs_id s, mp_qstate_map := (mp_qstate_map d)(i \<mapsto> s2)\<rparr>"
  have same: "same_counters ?d e \<Longrightarrow> same_counters d e" for e
    by (simp add: same_counters_def)
  show ?case
  proof (cases "st = TBQUEUE_STATE_OK")
    case True
    then show ?thesis using Cons.prems by (auto simp: s s1 s2 Let_def same_counters_def)
  next
    case False
    then show ?thesis using Cons.prems by (auto simp: s s1 s2 Let_def intro!: same dest!: Cons.IH)
  qed
qed simp

interpretation mp: dispatch_policy "MP_getNextQueueForDispatch F walk" MP_ioProcessForEnqueue
    "\<lambda>clk. MP_ioProcessForDispatch (clk 0)" mp_control
  for F :: "'d dbl" and walk
proof unfold_locales
  fix clk d d' i
  assume "MP_getNextQueueForDispatch F walk clk d = Some (Inr (d', i))"
  then show "same_counters d d'"
    by (auto simp: MP_getNextQueueForDispatch_def fds_verify_eq_Inr Let_def same_counters_def[of d d']
      split: option.splits sum.splits scan_result.splits dest!: mp_scan_counters) (simp_all add: same_counters_def)
qed (auto simp: MP_ioProcessForEnqueue_def MP_ioProcessForDispatch_def mp_control_def MP_registerQueue_def MP_deregisterQueue_def
  bindR_eq_Inr registerQueueWithLockHeld_def deregisterQueueWithLockHeld_def same_counters_def split: option.splits if_splits prod.splits)

text \<open>The limit on outstanding requests under this policy.\<close>

lemmas mp_outstanding = mp.outstanding_run

text \<open>
  A queue the dispatcher does not know is reported as a duplicate, although the base class
  answers \<^verbatim>\<open>ERR_INVALID_ARG\<close>; the base class has removed its own entry by then.
\<close>

lemma MP_deregister_missing:
  "mp_qstate_map d i = None \<Longrightarrow> snd (MP_deregisterQueue i d) = ERR_DUPLICATE"
  by (auto simp: MP_deregisterQueue_def deregisterQueueWithLockHeld_def split: option.splits)

end
