(* ===== verification/Qos_Wfq.thy ===== *)
theory Qos_Wfq
  imports Qos_Htb Ordered_Map
begin

text \<open>
  The weighted fair queueing dispatcher (\<^verbatim>\<open>lib/QoSWFQDispatcher.h\<close>,
  \<^verbatim>\<open>lib/misc/QoSWFQDispatcher.cpp\<close>). A ring with one slot per request and second is divided among
  the queues according to their assured rates; slot value 0 is a free slot. The descriptor of a
  queue points to the queue object that \<^verbatim>\<open>queue_map\<close> holds under the same id (both maps are
  filled and emptied together), so it is read through that map here. The theory shows that the
  ring and the books about it agree after any sequence of registrations, changes and removals,
  and that a dispatch always finds a queue when an active one has a request. Single precision
  arithmetic is a parameter like double precision: its values are values of the wider type.
\<close>

record 'd flt = "'d dbl" +
  f_of_u64 :: "u64 \<Rightarrow> 'd"
  f_mul :: "'d \<Rightarrow> 'd \<Rightarrow> 'd"
  f_div :: "'d \<Rightarrow> 'd \<Rightarrow> 'd"

section \<open>State\<close>

record WFQQueueDesc =
  queue_id :: qid
  queue_rate :: u64
  queue_priority :: u32
  rate_based_weight :: int
  priority_based_weight :: u32
  rate_based_rr_spots :: "u64 list"
  num_priority_based_ios_dispatched :: u32
  num_rate_based_credits :: u32
  max_rate_based_credits :: u32
  qd_num_pending_ios :: u32
  qd_num_outstanding_ios :: u32

record 'q QoSWFQDispatcher = "'q FDS_QoSDispatcher" +
  total_capacity :: u64
  cur_total_min_rate :: u64
  queue_desc_map :: "(qid, WFQQueueDesc) omap"
  rate_based_qlist :: "qid list"
  next_rate_based_spot :: u64
  total_rate_based_spots :: u64
  next_priority_based_queue :: qid
  num_ios_dispatched :: u64
  num_rate_based_slots_serviced :: u64
  last_reset_time :: u64

definition desc_of :: "'q QoSWFQDispatcher \<Rightarrow> qid \<Rightarrow> WFQQueueDesc option" where
  "desc_of d = map_of (queue_desc_map d)"

text \<open>A change of the descriptor the map points to.\<close>

definition at_desc :: "qid \<Rightarrow> (WFQQueueDesc \<Rightarrow> WFQQueueDesc) \<Rightarrow> 'q QoSWFQDispatcher \<Rightarrow> 'q QoSWFQDispatcher" where
  "at_desc i f d = d\<lparr>queue_desc_map := map (\<lambda>(k, qd). (k, if k = i then f qd else qd)) (queue_desc_map d)\<rparr>"

definition priority_to_wfq_weight :: "u32 \<Rightarrow> u32 res" where
  "priority_to_wfq_weight priority = fds_verify (priority \<le> 10) (Inr (11 - priority))"

fun next_key :: "qid \<Rightarrow> qid list \<Rightarrow> qid option" where
  "next_key i (k # k' # ks) = (if k = i then Some k' else next_key i (k' # ks))"
| "next_key i ks = None"

definition getNextQueueInPriorityWFQList :: "qid \<Rightarrow> 'q QoSWFQDispatcher \<Rightarrow> qid" where
  "getNextQueueInPriorityWFQList i d = (case map fst (queue_desc_map d) of
     [] \<Rightarrow> 0
   | k # ks \<Rightarrow> (case next_key i (k # ks) of Some k' \<Rightarrow> k' | None \<Rightarrow> k))"

definition WFQQueueDesc_new :: "qid \<Rightarrow> u64 \<Rightarrow> u32 \<Rightarrow> WFQQueueDesc" where
  "WFQQueueDesc_new i rate prio = \<lparr>queue_id = i, queue_rate = rate, queue_priority = prio, rate_based_weight = 0,
     priority_based_weight = 0, rate_based_rr_spots = [], num_priority_based_ios_dispatched = 0,
     num_rate_based_credits = 0, max_rate_based_credits = 0, qd_num_pending_ios = 0, qd_num_outstanding_ios = 0\<rparr>"

definition pendingActiveCount :: "'q QoSWFQDispatcher \<Rightarrow> WFQQueueDesc \<Rightarrow> u32" where
  "pendingActiveCount d qd = (case queue_map d (queue_id qd) of
     None \<Rightarrow> 0
   | Some q \<Rightarrow> if volQState q = FDS_VOL_Q_ACTIVE \<or> volQState q = FDS_VOL_Q_QUIESCING
       then qd_num_pending_ios qd else 0)"

text \<open>
  The constructor fills the ring in a loop with a 32-bit counter, which does not end if the
  capacity is larger than the counter can reach.
\<close>

definition QoSWFQDispatcher_new :: "int \<Rightarrow> u32 \<Rightarrow> bool \<Rightarrow> u64 \<Rightarrow> 'q QoSWFQDispatcher option" where
  "QoSWFQDispatcher_new iops max_outstanding bypass now =
     (let cap = (word_of_int iops :: u64) in
      if unat cap < 2 ^ 32 then
        Some (FDS_QoSDispatcher.extend
          ((FDS_QoSDispatcher_new iops bypass)\<lparr>max_outstanding_ios := max_outstanding\<rparr>)
          (QoSWFQDispatcher.fields cap 0 [] (replicate (unat cap) 0) 0 0 0 0 0 now))
      else None)"

section \<open>The ring of slots\<close>

text \<open>The search for a free slot, at most \<open>n\<close> steps on; reading outside the ring is undefined.\<close>

fun find_spot :: "qid list \<Rightarrow> u64 \<Rightarrow> nat \<Rightarrow> u64 \<Rightarrow> u64 res" where
  "find_spot ql cap n cur =
     (if length ql \<le> unat cur then Inl Undefined
      else if ql ! unat cur = 0 then Inr cur
      else (case n of 0 \<Rightarrow> Inr cur | Suc n' \<Rightarrow> find_spot ql cap n' ((cur + 1) mod cap)))"

declare find_spot.simps [simp del]

fun assign_loop :: "u64 \<Rightarrow> qid \<Rightarrow> u64 \<Rightarrow> nat \<Rightarrow> u64 \<Rightarrow> qid list \<Rightarrow> u64 list \<Rightarrow> (qid list \<times> u64 list) res" where
  "assign_loop cap i stride 0 cur ql spots = Inr (ql, spots)"
| "assign_loop cap i stride (Suc n) cur ql spots = bindR (find_spot ql cap (unat cap) cur) (\<lambda>p.
     fds_verify (ql ! unat p = 0)
       (assign_loop cap i stride n ((p + stride) mod cap) (ql[unat p := i]) (spots @ [p])))"

text \<open>\<open>iops\<close> is the assured rate of the queue object.\<close>

definition assignSpotsToQueue :: "int \<Rightarrow> WFQQueueDesc \<Rightarrow> 'q QoSWFQDispatcher \<Rightarrow>
    (WFQQueueDesc \<times> 'q QoSWFQDispatcher) res" where
  "assignSpotsToQueue iops qd d =
     bindR (assign_loop (total_capacity d) (queue_id qd) (total_capacity d div word_of_int iops) (nat iops) 0
              (rate_based_qlist d) (rate_based_rr_spots qd)) (\<lambda>(ql, spots).
       Inr (qd\<lparr>rate_based_rr_spots := spots\<rparr>,
            d\<lparr>rate_based_qlist := ql, total_rate_based_spots := total_rate_based_spots d + word_of_int iops\<rparr>))"

definition revoke_one :: "u64 list \<Rightarrow> nat \<Rightarrow> qid list \<Rightarrow> qid list res" where
  "revoke_one spots i ql =
     (if length spots \<le> i then Inl Undefined
      else let s = unat (ucast (spots ! i) :: u32) in
        if length ql \<le> s then Inl Undefined else Inr (ql[s := 0]))"

definition revokeSpotsFromQueue :: "WFQQueueDesc \<Rightarrow> 'q QoSWFQDispatcher \<Rightarrow>
    (WFQQueueDesc \<times> 'q QoSWFQDispatcher) res" where
  "revokeSpotsFromQueue qd d =
     bindR (foldR (revoke_one (rate_based_rr_spots qd)) [0..<unat (queue_rate qd)] (rate_based_qlist d)) (\<lambda>ql.
       Inr (qd\<lparr>rate_based_rr_spots := []\<rparr>,
            d\<lparr>rate_based_qlist := ql, total_rate_based_spots := total_rate_based_spots d - queue_rate qd\<rparr>))"

section \<open>Queues come, change and go\<close>

text \<open>Signed division by two drops the fraction.\<close>

definition half :: "int \<Rightarrow> int" where
  "half n = (if n < 0 then - ((- n) div 2) else n div 2)"

text \<open>The caller's queue object is changed as well; it is part of the result.\<close>

definition WFQ_registerQueue :: "qid \<Rightarrow> 'q FDS_VolumeQueue \<Rightarrow> 'q QoSWFQDispatcher \<Rightarrow>
    ('q QoSWFQDispatcher \<times> 'q FDS_VolumeQueue \<times> fds_errno) res" where
  "WFQ_registerQueue i q0 d =
     (let q = (if iops_assured q0 = 0 then q0\<lparr>iops_assured := 1\<rparr> else q0);
          rate = (word_of_int (iops_assured q) :: u64)
      in bindR (priority_to_wfq_weight (vq_priority q)) (\<lambda>w.
         let qd = (WFQQueueDesc_new i rate (vq_priority q))
                    \<lparr>rate_based_weight := iops_assured q, priority_based_weight := w,
                     max_rate_based_credits := word_of_int (half (iops_assured q) + 1)\<rparr>
         in if rate + cur_total_min_rate d > total_capacity d then Inr (d, q, ERR_EXCEED_MIN_IOPS)
            else (case registerQueueWithLockHeld i q d of (d1, err) \<Rightarrow>
              if err \<noteq> ERR_OK then Inr (d1, q, err)
              else if desc_of d1 i \<noteq> None then Inr (d1, q, ERR_DUPLICATE)
              else bindR (assignSpotsToQueue (iops_assured q) qd
                       (d1\<lparr>cur_total_min_rate := cur_total_min_rate d1 + rate\<rparr>)) (\<lambda>(qd', d2).
                Inr (d2\<lparr>queue_desc_map := omap_put i qd' (queue_desc_map d2),
                        queue_map := (queue_map d2)(i \<mapsto> q)\<rparr>, q, err)))))"

definition WFQ_modifyQueueQosParams :: "qid \<Rightarrow> u64 \<Rightarrow> u64 \<Rightarrow> u32 \<Rightarrow> 'q QoSWFQDispatcher \<Rightarrow>
    ('q QoSWFQDispatcher \<times> fds_errno) res" where
  "WFQ_modifyQueueQosParams i iops_min iops_max prio d =
     (let q_min_rate = (if iops_min < 1 then 1 else iops_min) in
      case desc_of d i of
        None \<Rightarrow> Inr (d, ERR_NOT_FOUND)
      | Some qd \<Rightarrow> fds_verify (queue_rate qd \<le> cur_total_min_rate d)
          (if q_min_rate > queue_rate qd \<and> q_min_rate - queue_rate qd + cur_total_min_rate d > total_capacity d
           then Inr (d, ERR_EXCEED_MIN_IOPS)
           else (case modifyQueueQosWithLockHeld i (sint iops_min) (sint iops_max) prio d of (d1, err) \<Rightarrow>
             if err \<noteq> ERR_OK then Inr (d1, err)
             else bindR (revokeSpotsFromQueue qd d1) (\<lambda>(qd1, d2).
               bindR (priority_to_wfq_weight prio) (\<lambda>w.
               let d3 = d2\<lparr>cur_total_min_rate := cur_total_min_rate d2 - queue_rate qd + q_min_rate\<rparr>;
                   qd2 = qd1\<lparr>queue_rate := q_min_rate, queue_priority := prio, rate_based_weight := sint q_min_rate,
                             priority_based_weight := w, max_rate_based_credits := ucast (q_min_rate div 2 + 1)\<rparr>
               in bindR (assignSpotsToQueue (sint iops_min) qd2 d3) (\<lambda>(qd3, d4).
                    Inr (at_desc i (\<lambda>_. qd3) d4, err)))))))"

definition reset_round :: "qid \<Rightarrow> 'q QoSWFQDispatcher \<Rightarrow> 'q QoSWFQDispatcher" where
  "reset_round i = at_desc i (\<lambda>qd. qd\<lparr>num_priority_based_ios_dispatched := 0\<rparr>)"

definition WFQ_deregisterQueue :: "qid \<Rightarrow> 'q QoSWFQDispatcher \<Rightarrow> ('q QoSWFQDispatcher \<times> fds_errno) res" where
  "WFQ_deregisterQueue i d = (case desc_of d i of
     None \<Rightarrow> Inr (d, ERR_INVALID_ARG)
   | Some qd \<Rightarrow> fds_verify (queue_rate qd \<le> cur_total_min_rate d)
       (bindR (revokeSpotsFromQueue qd (d\<lparr>cur_total_min_rate := cur_total_min_rate d - queue_rate qd\<rparr>)) (\<lambda>(qd1, d1).
         let nxt = getNextQueueInPriorityWFQList i d1;
             d2 = (if next_priority_based_queue d1 = i
                   then reset_round nxt (d1\<lparr>next_priority_based_queue := nxt\<rparr>) else d1);
             d3 = d2\<lparr>queue_desc_map := omap_erase i (queue_desc_map d2), queue_map := (queue_map d2)(i := None)\<rparr>
         in Inr (deregisterQueueWithLockHeld i d3))))"

section \<open>Requests come and go\<close>

definition WFQ_ioProcessForEnqueue :: "qid \<Rightarrow> 'q QoSWFQDispatcher \<Rightarrow> 'q QoSWFQDispatcher res" where
  "WFQ_ioProcessForEnqueue i d = (case desc_of d i of
     None \<Rightarrow> Inl NullDeref
   | Some qd \<Rightarrow> Inr (at_desc i (\<lambda>qd. qd\<lparr>qd_num_pending_ios := qd_num_pending_ios qd + 1\<rparr>) d))"

definition WFQ_ioProcessForDispatch :: "qid \<Rightarrow> 'q QoSWFQDispatcher \<Rightarrow> 'q QoSWFQDispatcher res" where
  "WFQ_ioProcessForDispatch i d = (case desc_of d i of
     None \<Rightarrow> Inl NullDeref
   | Some qd \<Rightarrow> fds_verify (qd_num_pending_ios qd \<ge> 1)
       (Inr (at_desc i (\<lambda>qd. qd\<lparr>qd_num_pending_ios := qd_num_pending_ios qd - 1\<rparr>) d)))"

section \<open>The choice of the next queue\<close>

definition inc_num_ios_dispatched :: "u64 \<Rightarrow> 'q QoSWFQDispatcher \<Rightarrow> 'q QoSWFQDispatcher" where
  "inc_num_ios_dispatched now d =
     (if num_ios_dispatched d + 1 \<ge> total_capacity d
      then d\<lparr>num_ios_dispatched := 0, num_rate_based_slots_serviced := 0, last_reset_time := now\<rparr>
      else d\<lparr>num_ios_dispatched := num_ios_dispatched d + 1\<rparr>)"

definition accumulated_credits :: "'d flt \<Rightarrow> WFQQueueDesc \<Rightarrow> 'd" where
  "accumulated_credits F qd =
     f_div F (f_of_u64 F (ucast (num_rate_based_credits qd))) (f_of_u64 F (ucast (max_rate_based_credits qd)))"

definition more_credits :: "'d flt \<Rightarrow> 'q QoSWFQDispatcher \<Rightarrow> qid \<times> WFQQueueDesc \<Rightarrow> qid \<times> 'd \<Rightarrow> qid \<times> 'd" where
  "more_credits F d kq best =
     (if pendingActiveCount d (snd kq) > 0 \<and> d_less F (snd best) (accumulated_credits F (snd kq))
      then (fst kq, accumulated_credits F (snd kq)) else best)"

definition get_non_empty_queue_with_highest_credits :: "'d flt \<Rightarrow> 'q QoSWFQDispatcher \<Rightarrow> qid" where
  "get_non_empty_queue_with_highest_credits F d = fst (fold (more_credits F d) (queue_desc_map d) (0, f_of_u64 F 0))"

text \<open>One slot of the ring; \<open>n\<close> and \<open>late\<close> are the values the previous slot left.\<close>

definition serve_slot :: "'d flt \<Rightarrow> u64 \<Rightarrow> 'd \<Rightarrow> 'q QoSWFQDispatcher \<Rightarrow> u32 \<Rightarrow> bool \<Rightarrow>
    ('q QoSWFQDispatcher \<times> qid \<times> u32 \<times> bool) res" where
  "serve_slot F elapsed expected d n late =
     (let spot = unat (next_rate_based_spot d) in
      if length (rate_based_qlist d) \<le> spot then Inl Undefined
      else let i = rate_based_qlist d ! spot;
               d1 = d\<lparr>next_rate_based_spot := (next_rate_based_spot d + 1) mod total_capacity d\<rparr>
           in if i = 0 then Inr (d1, 0, n, late)
              else (case desc_of d1 i of
                None \<Rightarrow> Inl NullDeref
              | Some qd \<Rightarrow>
                  let served = num_rate_based_slots_serviced d1 + 1;
                      rate = f_div F (f_of_u64 F (served * 1000000)) (f_of_u64 F elapsed);
                      n' = pendingActiveCount d1 qd;
                      d2 = d1\<lparr>num_rate_based_slots_serviced := served\<rparr>;
                      d3 = (if n' = 0 \<and> num_rate_based_credits qd < max_rate_based_credits qd
                            then at_desc i (\<lambda>qd. qd\<lparr>num_rate_based_credits := num_rate_based_credits qd + 1\<rparr>) d2
                            else d2)
                  in Inr (d3, i, n', d_less F rate (d_mul F (d_lit4 F 9000) expected))))"

partial_function (option) slot_loop :: "'d flt \<Rightarrow> u64 \<Rightarrow> 'd \<Rightarrow> 'q QoSWFQDispatcher \<Rightarrow> u32 \<Rightarrow> bool \<Rightarrow>
    ('q QoSWFQDispatcher \<times> qid \<times> u32 \<times> bool) res option" where
  "slot_loop F elapsed expected d n late = (case serve_slot F elapsed expected d n late of
     Inl e \<Rightarrow> Some (Inl e)
   | Inr (d1, i, n1, late1) \<Rightarrow>
       if late1 \<and> (i = 0 \<or> n1 = 0) then slot_loop F elapsed expected d1 n1 late1
       else Some (Inr (d1, i, n1, late1)))"

definition pending_of :: "'q QoSWFQDispatcher \<Rightarrow> qid \<Rightarrow> u32" where
  "pending_of d i = (case desc_of d i of None \<Rightarrow> 0 | Some qd \<Rightarrow> pendingActiveCount d qd)"

fun prio_loop :: "nat \<Rightarrow> 'q QoSWFQDispatcher \<Rightarrow> qid \<Rightarrow> u32 \<Rightarrow> 'q QoSWFQDispatcher \<times> qid \<times> u32" where
  "prio_loop 0 d i n = (d, i, n)"
| "prio_loop (Suc k) d i n =
     (if desc_of d i = None \<or> n = 0 then
        (let d1 = reset_round i d;
             i' = getNextQueueInPriorityWFQList i d1;
             d2 = d1\<lparr>next_priority_based_queue := i'\<rparr>
         in case desc_of d2 i' of
              None \<Rightarrow> prio_loop k d2 i' n
            | Some qd \<Rightarrow> prio_loop k (reset_round i' d2) i' (pendingActiveCount d2 qd))
      else (d, i, n))"

definition after_prio :: "u64 \<Rightarrow> qid \<Rightarrow> WFQQueueDesc \<Rightarrow> 'q QoSWFQDispatcher \<Rightarrow> 'q QoSWFQDispatcher" where
  "after_prio now i qd d =
     (let d1 = at_desc i (\<lambda>qd. qd\<lparr>num_priority_based_ios_dispatched := num_priority_based_ios_dispatched qd + 1\<rparr>) d;
          d2 = (if num_priority_based_ios_dispatched qd + 1 \<ge> priority_based_weight qd then
                  (let nxt = getNextQueueInPriorityWFQList i d1
                   in reset_round nxt ((reset_round i d1)\<lparr>next_priority_based_queue := nxt\<rparr>))
                else d1)
      in inc_num_ios_dispatched now d2)"

definition by_priority :: "u64 \<Rightarrow> 'q QoSWFQDispatcher \<Rightarrow> 'q QoSWFQDispatcher \<times> qid" where
  "by_priority now d =
     (let i0 = next_priority_based_queue d in
      case prio_loop (length (queue_desc_map d)) d i0 (pending_of d i0) of (d1, i, n) \<Rightarrow>
        (case desc_of d1 i of
           None \<Rightarrow> (d1, 0)
         | Some qd \<Rightarrow> if n = 0 then (d1, 0) else (after_prio now i qd d1, i)))"

definition open_slot :: "'d flt \<Rightarrow> u64 \<Rightarrow> 'q QoSWFQDispatcher \<Rightarrow> ('q QoSWFQDispatcher \<times> qid) res" where
  "open_slot F now d =
     (let i = get_non_empty_queue_with_highest_credits F d in
      if i \<noteq> 0 then
        (case desc_of d i of
           None \<Rightarrow> Inl NullDeref
         | Some qd \<Rightarrow> fds_verify (num_rate_based_credits qd > 0)
             (Inr (inc_num_ios_dispatched now
                     (at_desc i (\<lambda>qd. qd\<lparr>num_rate_based_credits := num_rate_based_credits qd - 1\<rparr>) d), i)))
      else Inr (by_priority now d))"

definition WFQ_getNextQueueForDispatch :: "'d flt \<Rightarrow> (nat \<Rightarrow> u64) \<Rightarrow> 'q QoSWFQDispatcher \<Rightarrow>
    ('q QoSWFQDispatcher \<times> qid) res option" where
  "WFQ_getNextQueueForDispatch F clk d =
     (let elapsed = clk 0 - last_reset_time d;
          rate = f_div F (f_mul F (f_of_u64 F (num_rate_based_slots_serviced d)) (f_of_u64 F 1000000)) (f_of_u64 F elapsed);
          expected = f_of_u64 F (total_rate_based_spots d);
          late = d_less F rate (d_mul F (d_lit4 F 9000) expected);
          ahead = d_less F (d_mul F (d_lit4 F 12000) expected) rate
      in if ahead then Some (open_slot F (clk 1) d)
         else (case slot_loop F elapsed expected d 0 late of
           None \<Rightarrow> None
         | Some (Inl e) \<Rightarrow> Some (Inl e)
         | Some (Inr (d1, i, n, late1)) \<Rightarrow>
             if i \<noteq> 0 \<and> n > 0 then Some (Inr (inc_num_ios_dispatched (clk 1) d1, i))
             else Some (fds_verify (\<not> late1) (open_slot F (clk 1) d1))))"

section \<open>Assigning and revoking slots\<close>

definition occupied :: "qid list \<Rightarrow> nat" where
  "occupied ql = card {s. s < length ql \<and> ql ! s \<noteq> 0}"

definition slots_of :: "qid \<Rightarrow> qid list \<Rightarrow> nat set" where
  "slots_of i ql = {s. s < length ql \<and> ql ! s = i}"

text \<open>A capacity that leaves room for the sums of the search.\<close>

definition cap_ok :: "u64 \<Rightarrow> qid list \<Rightarrow> bool" where
  "cap_ok cap ql \<longleftrightarrow> 0 < unat cap \<and> unat cap < 2 ^ 32 \<and> length ql = unat cap"

lemma unat_add_mod:
  assumes "unat a < 2 ^ 63" "unat b < 2 ^ 63"
  shows "unat ((a + b) mod (c :: u64)) = (unat a + unat b) mod unat c"
proof -
  have "unat (a + b) = unat a + unat b"
    using assms by (intro unat_add_lem[THEN iffD1]) simp
  then show ?thesis by (simp add: unat_mod)
qed

lemma find_spot_finds:
  assumes "cap_ok cap ql" "unat cur < unat cap" "k \<le> n" "ql ! ((unat cur + k) mod unat cap) = 0"
  shows "\<exists>p. find_spot ql cap n cur = Inr p \<and> unat p < unat cap \<and> ql ! unat p = 0"
  using assms(2-4)
proof (induction n arbitrary: cur k)
  case 0
  then show ?case using assms(1) by (simp add: find_spot.simps cap_ok_def)
next
  case (Suc n)
  show ?case
  proof (cases "ql ! unat cur = 0")
    case True
    then show ?thesis using assms(1) Suc.prems(1) by (simp add: find_spot.simps cap_ok_def)
  next
    case False
    have nxt: "unat ((cur + 1) mod cap) = (unat cur + 1) mod unat cap"
      using unat_add_mod[of cur 1 cap] assms(1) Suc.prems(1) by (simp add: cap_ok_def)
    obtain k' where k: "k = Suc k'"
      using False Suc.prems by (cases k) auto
    have "(unat ((cur + 1) mod cap) + k') mod unat cap = (unat cur + k) mod unat cap"
      by (simp add: nxt k mod_simps)
    then have "\<exists>p. find_spot ql cap n ((cur + 1) mod cap) = Inr p \<and> unat p < unat cap \<and> ql ! unat p = 0"
      using Suc.IH[of "(cur + 1) mod cap" k'] Suc.prems k nxt assms(1) by (simp add: cap_ok_def)
    then show ?thesis
      using False assms(1) Suc.prems(1) by (subst find_spot.simps) (simp add: cap_ok_def)
  qed
qed

lemma find_spot_free:
  assumes "cap_ok cap ql" "unat cur < unat cap" "occupied ql < unat cap"
  shows "\<exists>p. find_spot ql cap (unat cap) cur = Inr p \<and> unat p < unat cap \<and> ql ! unat p = 0"
proof -
  have "\<exists>s<unat cap. ql ! s = 0"
  proof (rule ccontr)
    assume "\<not> (\<exists>s<unat cap. ql ! s = 0)"
    then have "{s. s < length ql \<and> ql ! s \<noteq> 0} = {..<unat cap}"
      using assms(1) by (auto simp: cap_ok_def)
    then show False using assms(3) by (simp add: occupied_def)
  qed
  then obtain s where s: "s < unat cap" "ql ! s = 0"
    by blast
  define k where "k = (if unat cur \<le> s then s - unat cur else unat cap - unat cur + s)"
  have "(unat cur + k) mod unat cap = s" "k \<le> unat cap"
    using s(1) assms(2) by (auto simp: k_def)
  then show ?thesis
    using find_spot_finds[OF assms(1,2), of k "unat cap"] s(2) by simp
qed

lemma occupied_update:
  assumes "p < length ql" "ql ! p = 0" "i \<noteq> 0"
  shows "occupied (ql[p := i]) = Suc (occupied ql)"
proof -
  have "{s. s < length (ql[p := i]) \<and> ql[p := i] ! s \<noteq> 0} = insert p {s. s < length ql \<and> ql ! s \<noteq> 0}"
    using assms by (auto simp: nth_list_update)
  then show ?thesis using assms(2) by (simp add: occupied_def)
qed

text \<open>\<open>fill ql P i\<close> is the ring in which \<open>i\<close> has taken the slots \<open>P\<close>.\<close>

definition fill :: "qid list \<Rightarrow> nat set \<Rightarrow> qid \<Rightarrow> qid list" where
  "fill ql P i = map (\<lambda>s. if s \<in> P then i else ql ! s) [0..<length ql]"

lemma fill_simps [simp]:
  "length (fill ql P i) = length ql"
  "s < length ql \<Longrightarrow> fill ql P i ! s = (if s \<in> P then i else ql ! s)"
  by (simp_all add: fill_def)

lemma fill_step: "p < length ql \<Longrightarrow> fill (ql[p := i]) P i = fill ql (insert p P) i"
  by (auto simp: list_eq_iff_nth_eq nth_list_update)

lemma fill_empty [simp]: "fill ql {} i = ql"
  by (simp add: list_eq_iff_nth_eq)

lemma assign_loop_ok:
  assumes "cap_ok cap ql" "unat cur < unat cap" "unat stride < 2 ^ 63" "i \<noteq> 0" "occupied ql + n \<le> unat cap"
  shows "\<exists>new. assign_loop cap i stride n cur ql spots = Inr (fill ql (unat ` set new) i, spots @ new) \<and>
    length new = n \<and> distinct new \<and> (\<forall>p\<in>set new. unat p < unat cap \<and> ql ! unat p = 0)"
  using assms(1,2,5)
proof (induction n arbitrary: cur ql spots)
  case 0
  then show ?case by (intro exI[of _ "[]"]) simp
next
  case (Suc n)
  obtain p where p: "find_spot ql cap (unat cap) cur = Inr p" "unat p < unat cap" "ql ! unat p = 0"
    using find_spot_free[OF Suc.prems(1,2)] Suc.prems(3) by auto
  let ?ql = "ql[unat p := i]"
  have len: "unat p < length ql" "cap_ok cap ?ql"
    using p(2) Suc.prems(1) by (simp_all add: cap_ok_def)
  have lt: "unat ((p + stride) mod cap) < unat cap"
    using Suc.prems(1) by (simp add: unat_mod cap_ok_def)
  have occ: "occupied ?ql + n \<le> unat cap"
    using occupied_update[OF len(1) p(3) assms(4)] Suc.prems(3) by simp
  obtain new where new: "assign_loop cap i stride n ((p + stride) mod cap) ?ql (spots @ [p]) =
      Inr (fill ?ql (unat ` set new) i, (spots @ [p]) @ new)" "length new = n" "distinct new"
      "\<forall>p'\<in>set new. unat p' < unat cap \<and> ?ql ! unat p' = 0"
    using Suc.IH[OF len(2) lt occ] by blast
  have "p \<notin> set new"
    using new(4) len(1) assms(4) by auto
  have "?ql ! unat p' = ql ! unat p'" if "p' \<in> set new" for p'
    using that \<open>p \<notin> set new\<close> by (metis nth_list_update_neq word_unat_eq_iff)
  then have "\<forall>p'\<in>set (p # new). unat p' < unat cap \<and> ql ! unat p' = 0"
    using new(4) p by auto
  then show ?case
    using new(1-3) \<open>p \<notin> set new\<close> p len(1) by (intro exI[of _ "p # new"]) (simp add: fill_step)
qed

lemma occupied_fill:
  assumes "i \<noteq> 0" "\<forall>p\<in>P. p < length ql \<and> ql ! p = 0" "finite P"
  shows "occupied (fill ql P i) = occupied ql + card P"
proof -
  have "{s. s < length (fill ql P i) \<and> fill ql P i ! s \<noteq> 0} = {s. s < length ql \<and> ql ! s \<noteq> 0} \<union> P"
    using assms by auto
  moreover have "{s. s < length ql \<and> ql ! s \<noteq> 0} \<inter> P = {}"
    using assms(2) by auto
  ultimately show ?thesis
    using assms(3) by (simp add: occupied_def card_Un_disjoint)
qed

lemma occupied_clear:
  assumes "P \<subseteq> {s. s < length ql \<and> ql ! s \<noteq> 0}"
  shows "occupied (fill ql P 0) + card P = occupied ql"
proof -
  have "{s. s < length (fill ql P 0) \<and> fill ql P 0 ! s \<noteq> 0} = {s. s < length ql \<and> ql ! s \<noteq> 0} - P"
    by (auto split: if_splits)
  moreover have "finite P"
    using assms by (rule finite_subset) simp
  ultimately show ?thesis
    using assms card_mono[OF _ assms] by (simp add: occupied_def card_Diff_subset)
qed

lemma slots_of_fill:
  assumes "\<forall>p\<in>P. p < length ql"
  shows "slots_of j (fill ql P i) = (if j = i then slots_of j ql \<union> P else slots_of j ql - P)"
  using assms by (auto simp: slots_of_def split: if_splits)

lemma revoke_steps:
  assumes "\<forall>p\<in>set spots. unat p < length ql \<and> unat p < 2 ^ 32" "n \<le> length spots"
  shows "foldR (revoke_one spots) [0..<n] ql = Inr (fill ql (unat ` set (take n spots)) 0)"
  using assms(2)
proof (induction n)
  case (Suc n)
  have p: "unat (spots ! n) < length ql" "unat (spots ! n) < 2 ^ 32"
    using bspec[OF assms(1), of "spots ! n"] Suc.prems by simp_all
  then have "unat (ucast (spots ! n) :: u32) = unat (spots ! n)"
    by (simp add: unsigned_ucast_eq take_bit_nat_eq_self)
  then have "revoke_one spots n ql' = Inr (ql'[unat (spots ! n) := 0])" if "length ql' = length ql" for ql'
    using p Suc.prems that by (simp add: revoke_one_def Let_def)
  moreover have "(fill ql P 0)[unat (spots ! n) := 0] = fill ql (insert (unat (spots ! n)) P) 0" for P
    using p by (auto simp: list_eq_iff_nth_eq nth_list_update)
  ultimately show ?case
    using Suc by (simp add: foldR_append take_Suc_conv_app_nth)
qed simp

section \<open>The books of the ring\<close>

text \<open>Every queue holds as many slots as its rate says and lists them; no slot is held by an unknown queue.\<close>

definition desc_ok :: "qid list \<Rightarrow> qid \<Rightarrow> WFQQueueDesc \<Rightarrow> bool" where
  "desc_ok ql i qd \<longleftrightarrow> i \<noteq> 0 \<and> queue_id qd = i \<and> 0 < unat (queue_rate qd) \<and>
     length (rate_based_rr_spots qd) = unat (queue_rate qd) \<and> distinct (rate_based_rr_spots qd) \<and>
     unat ` set (rate_based_rr_spots qd) = slots_of i ql"

definition ring_ok :: "qid list \<Rightarrow> (qid \<Rightarrow> WFQQueueDesc option) \<Rightarrow> bool" where
  "ring_ok ql m \<longleftrightarrow> (\<forall>s<length ql. ql ! s = 0 \<or> m (ql ! s) \<noteq> None) \<and> (\<forall>i qd. m i = Some qd \<longrightarrow> desc_ok ql i qd)"

definition wfq_ok :: "'q QoSWFQDispatcher \<Rightarrow> bool" where
  "wfq_ok d \<longleftrightarrow> omap_ok (queue_desc_map d) \<and> dom (desc_of d) = dom (queue_map d) \<and>
     cap_ok (total_capacity d) (rate_based_qlist d) \<and> unat (next_rate_based_spot d) < unat (total_capacity d) \<and>
     unat (cur_total_min_rate d) = occupied (rate_based_qlist d) \<and> total_rate_based_spots d = cur_total_min_rate d \<and>
     ring_ok (rate_based_qlist d) (desc_of d)"

lemma card_new:
  assumes "distinct (new :: u64 list)"
  shows "card (unat ` set new) = length new"
proof -
  have "inj_on unat (set new)"
    by (rule inj_onI) (simp add: word_unat_eq_iff)
  then show ?thesis using assms by (simp add: card_image distinct_card)
qed

lemma card_slots:
  assumes "desc_ok ql i qd"
  shows "card (slots_of i ql) = unat (queue_rate qd)"
proof -
  have "slots_of i ql = unat ` set (rate_based_rr_spots qd)" "distinct (rate_based_rr_spots qd)"
    "length (rate_based_rr_spots qd) = unat (queue_rate qd)"
    using assms by (simp_all add: desc_ok_def)
  then show ?thesis by (simp add: card_new)
qed

lemma ring_ok_unknown: "ring_ok ql m \<Longrightarrow> m i = None \<Longrightarrow> i \<noteq> 0 \<Longrightarrow> slots_of i ql = {}"
  by (auto simp: ring_ok_def slots_of_def)

lemma ring_ok_add:
  assumes "ring_ok ql m" "m i = None" "i \<noteq> 0" "\<forall>p\<in>set new. unat p < length ql \<and> ql ! unat p = 0"
    and "queue_id qd = i" "rate_based_rr_spots qd = new" "distinct new" "length new = unat (queue_rate qd)" "0 < length new"
  shows "ring_ok (fill ql (unat ` set new) i) (m(i \<mapsto> qd))"
proof -
  let ?P = "unat ` set new"
  have P: "\<forall>p\<in>?P. p < length ql"
    using assms(4) by auto
  have "desc_ok (fill ql ?P i) i qd"
    using assms(3,5-9) ring_ok_unknown[OF assms(1-3)] by (simp add: desc_ok_def slots_of_fill[OF P])
  moreover have "slots_of j (fill ql ?P i) = slots_of j ql" if "j \<noteq> i" "j \<noteq> 0" for j
    using that assms(4) by (auto simp: slots_of_fill[OF P]) (auto simp: slots_of_def)
  then have "desc_ok (fill ql ?P i) j qd'" if "m j = Some qd'" "j \<noteq> i" for j qd'
    using assms(1) that by (auto simp: ring_ok_def desc_ok_def)
  ultimately show ?thesis
    using assms(1) by (auto simp: ring_ok_def)
qed

lemma ring_ok_del:
  assumes "ring_ok ql m" "m i = Some qd"
  shows "ring_ok (fill ql (slots_of i ql) 0) (m(i := None))"
proof -
  have P: "\<forall>p\<in>slots_of i ql. p < length ql"
    by (simp add: slots_of_def)
  have "slots_of j (fill ql (slots_of i ql) 0) = slots_of j ql" if "j \<noteq> i" "j \<noteq> 0" for j
    using that by (auto simp: slots_of_fill[OF P]) (auto simp: slots_of_def)
  then have "desc_ok (fill ql (slots_of i ql) 0) j qd'" if "m j = Some qd'" "j \<noteq> i" for j qd'
    using assms(1) that by (auto simp: ring_ok_def desc_ok_def)
  then show ?thesis
    using assms(1) by (auto simp: ring_ok_def slots_of_def)
qed

lemma assignSpots_ok:
  assumes "cap_ok (total_capacity d) (rate_based_qlist d)" "queue_id qd \<noteq> 0" "rate_based_rr_spots qd = []"
    and "0 < iops" "iops < 2 ^ 63" "occupied (rate_based_qlist d) + nat iops \<le> unat (total_capacity d)"
  obtains new where "assignSpotsToQueue iops qd d = Inr (qd\<lparr>rate_based_rr_spots := new\<rparr>,
      d\<lparr>rate_based_qlist := fill (rate_based_qlist d) (unat ` set new) (queue_id qd),
        total_rate_based_spots := total_rate_based_spots d + word_of_int iops\<rparr>)"
    and "length new = nat iops" "distinct new"
    and "\<forall>p\<in>set new. unat p < unat (total_capacity d) \<and> rate_based_qlist d ! unat p = 0"
proof -
  have "unat (total_capacity d div word_of_int iops) \<le> unat (total_capacity d)"
    by (simp add: unat_div div_le_dividend)
  then have stride: "unat (total_capacity d div word_of_int iops) < 2 ^ 63"
    using assms(1) by (simp add: cap_ok_def)
  have "unat (0 :: u64) < unat (total_capacity d)"
    using assms(1) by (simp add: cap_ok_def)
  then show ?thesis
    using assign_loop_ok[OF assms(1) _ stride assms(2,6), of 0 "[]"] that assms(3)
    by (auto simp: assignSpotsToQueue_def)
qed

lemma revokeSpots_ok:
  assumes "cap_ok (total_capacity d) (rate_based_qlist d)" "desc_ok (rate_based_qlist d) i qd"
  shows "revokeSpotsFromQueue qd d = Inr (qd\<lparr>rate_based_rr_spots := []\<rparr>,
    d\<lparr>rate_based_qlist := fill (rate_based_qlist d) (slots_of i (rate_based_qlist d)) 0,
      total_rate_based_spots := total_rate_based_spots d - queue_rate qd\<rparr>)"
proof -
  have "unat ` set (rate_based_rr_spots qd) \<subseteq> {..<unat (total_capacity d)}"
    using assms by (auto simp: desc_ok_def slots_of_def cap_ok_def)
  then have "\<forall>p\<in>set (rate_based_rr_spots qd). unat p < length (rate_based_qlist d) \<and> unat p < 2 ^ 32"
    using assms(1) by (auto simp: cap_ok_def)
  from revoke_steps[OF this order_refl] show ?thesis
    using assms(2) by (simp add: revokeSpotsFromQueue_def desc_ok_def)
qed

lemma occupied_revoke:
  assumes "desc_ok ql i qd"
  shows "occupied (fill ql (slots_of i ql) 0) + unat (queue_rate qd) = occupied ql"
proof -
  have "slots_of i ql \<subseteq> {s. s < length ql \<and> ql ! s \<noteq> 0}"
    using assms by (auto simp: desc_ok_def slots_of_def)
  from occupied_clear[OF this] show ?thesis by (simp add: card_slots[OF assms])
qed

lemma desc_of_at_desc [simp]:
  "desc_of (at_desc i f d) k = (if k = i then map_option f (desc_of d k) else desc_of d k)"
proof -
  have "map_of (map (\<lambda>(k, qd). (k, if k = i then f qd else qd)) m) k =
      (if k = i then map_option f (map_of m k) else map_of m k)" for m :: "(qid, WFQQueueDesc) omap"
    by (induction m) auto
  then show ?thesis by (simp add: desc_of_def at_desc_def)
qed

lemma keys_at_desc [simp]: "map fst (queue_desc_map (at_desc i f d)) = map fst (queue_desc_map d)"
  by (simp add: at_desc_def comp_def case_prod_beta)

lemma at_desc_sel [simp]:
  "queue_map (at_desc i f d) = queue_map d" "total_capacity (at_desc i f d) = total_capacity d"
  "rate_based_qlist (at_desc i f d) = rate_based_qlist d" "next_rate_based_spot (at_desc i f d) = next_rate_based_spot d"
  "cur_total_min_rate (at_desc i f d) = cur_total_min_rate d"
  "total_rate_based_spots (at_desc i f d) = total_rate_based_spots d"
  "next_priority_based_queue (at_desc i f d) = next_priority_based_queue d"
  "omap_ok (queue_desc_map (at_desc i f d)) = omap_ok (queue_desc_map d)"
  "length (queue_desc_map (at_desc i f d)) = length (queue_desc_map d)"
  by (simp_all add: at_desc_def omap_ok_def comp_def case_prod_beta)

lemma desc_of_update [simp]:
  "desc_of (d\<lparr>queue_map := a\<rparr>) = desc_of d" "desc_of (d\<lparr>cur_total_min_rate := b\<rparr>) = desc_of d"
  "desc_of (d\<lparr>rate_based_qlist := c\<rparr>) = desc_of d" "desc_of (d\<lparr>total_rate_based_spots := e\<rparr>) = desc_of d"
  "desc_of (d\<lparr>next_priority_based_queue := f\<rparr>) = desc_of d" "desc_of (d\<lparr>next_rate_based_spot := g\<rparr>) = desc_of d"
  "desc_of (d\<lparr>num_rate_based_slots_serviced := h\<rparr>) = desc_of d" "desc_of (d\<lparr>num_ios_dispatched := h\<rparr>) = desc_of d"
  "desc_of (d\<lparr>last_reset_time := h\<rparr>) = desc_of d"
  by (simp_all add: desc_of_def)

text \<open>The three changes keep the books.\<close>

lemma unat_iops: "0 \<le> n \<Longrightarrow> n < 2 ^ 63 \<Longrightarrow> unat (word_of_int n :: u64) = nat n"
  by (simp add: unat_eq_nat_uint uint_word_of_int)

lemma unat_sum_lt: "unat a < 2 ^ 63 \<Longrightarrow> unat b < 2 ^ 63 \<Longrightarrow> unat (a + b :: u64) = unat a + unat b"
  by (intro unat_add_lem[THEN iffD1]) simp

lemma occupied_le: "occupied ql \<le> length ql"
  using card_mono[of "{..<length ql}" "{s. s < length ql \<and> ql ! s \<noteq> 0}"] by (auto simp: occupied_def)

lemma wfq_ok_rate_le:
  assumes "wfq_ok d" "desc_of d i = Some qd"
  shows "queue_rate qd \<le> cur_total_min_rate d" "desc_ok (rate_based_qlist d) i qd"
proof -
  show ok: "desc_ok (rate_based_qlist d) i qd"
    using assms by (simp add: wfq_ok_def ring_ok_def)
  show "queue_rate qd \<le> cur_total_min_rate d"
    using occupied_revoke[OF ok] assms(1) by (simp add: word_le_nat_alt wfq_ok_def)
qed

lemma wfq_ok_assign:
  assumes ok: "omap_ok (queue_desc_map d)" "cap_ok (total_capacity d) (rate_based_qlist d)"
    "unat (next_rate_based_spot d) < unat (total_capacity d)"
    "ring_ok (rate_based_qlist d) m" "m i = None"
    "unat (total_rate_based_spots d) = occupied (rate_based_qlist d)"
    and qd: "queue_id qd = i" "i \<noteq> 0" "rate_based_rr_spots qd = []" "queue_rate qd = word_of_int iops"
    and iops: "0 < iops" "iops < 2 ^ 63" "occupied (rate_based_qlist d) + nat iops \<le> unat (total_capacity d)"
    and cur: "cur_total_min_rate d = total_rate_based_spots d + word_of_int iops"
  obtains qd' d' where "assignSpotsToQueue iops qd d = Inr (qd', d')"
    "ring_ok (rate_based_qlist d') (m(i \<mapsto> qd'))" "unat (cur_total_min_rate d') = occupied (rate_based_qlist d')"
    "total_rate_based_spots d' = cur_total_min_rate d'" "cap_ok (total_capacity d') (rate_based_qlist d')"
    "unat (next_rate_based_spot d') < unat (total_capacity d')" "queue_map d' = queue_map d"
    "queue_desc_map d' = queue_desc_map d" "total_capacity d' = total_capacity d"
proof -
  obtain new where new: "assignSpotsToQueue iops qd d = Inr (qd\<lparr>rate_based_rr_spots := new\<rparr>,
      d\<lparr>rate_based_qlist := fill (rate_based_qlist d) (unat ` set new) i,
        total_rate_based_spots := total_rate_based_spots d + word_of_int iops\<rparr>)"
    "length new = nat iops" "distinct new"
    "\<forall>p\<in>set new. unat p < unat (total_capacity d) \<and> rate_based_qlist d ! unat p = 0"
    using assignSpots_ok[OF ok(2) _ qd(3) iops(1-3)] qd(1,2) by metis
  have free: "\<forall>p\<in>set new. unat p < length (rate_based_qlist d) \<and> rate_based_qlist d ! unat p = 0"
    using new(4) ok(2) by (simp add: cap_ok_def)
  have len: "unat (word_of_int iops :: u64) = nat iops"
    using iops by (intro unat_iops) simp_all
  have ring: "ring_ok (fill (rate_based_qlist d) (unat ` set new) i) (m(i \<mapsto> qd\<lparr>rate_based_rr_spots := new\<rparr>))"
    using ring_ok_add[OF ok(4,5) qd(2) free, of "qd\<lparr>rate_based_rr_spots := new\<rparr>"] new qd iops(1) len by simp
  have "unat (cur_total_min_rate d) = occupied (rate_based_qlist d) + nat iops"
    using unat_sum_lt[of "total_rate_based_spots d" "word_of_int iops"] cur ok(2,6) iops len occupied_le[of "rate_based_qlist d"]
    by (simp add: cap_ok_def)
  moreover have "occupied (fill (rate_based_qlist d) (unat ` set new) i) = occupied (rate_based_qlist d) + nat iops"
    using occupied_fill[OF qd(2), of "unat ` set new" "rate_based_qlist d"] free card_new[OF new(3)] new(2) by auto
  ultimately show thesis
    using that[OF new(1)] ring ok(2,3) cur by (simp add: cap_ok_def)
qed

lemma WFQ_registerQueue_ok:
  assumes "wfq_ok d" "i \<noteq> 0" "0 \<le> iops_assured q" "iops_assured q < 2 ^ 63" "vq_priority q \<le> 10"
  shows "\<exists>d' q' err. WFQ_registerQueue i q d = Inr (d', q', err) \<and> wfq_ok d' \<and> total_capacity d' = total_capacity d"
proof -
  define q1 where "q1 = (if iops_assured q = 0 then q\<lparr>iops_assured := 1\<rparr> else q)"
  let ?n = "iops_assured q1"
  let ?rate = "word_of_int ?n :: u64"
  have n: "0 < ?n" "?n < 2 ^ 63" "vq_priority q1 \<le> 10"
    using assms(3-5) by (auto simp: q1_def)
  have rate: "unat ?rate = nat ?n"
    using n by (intro unat_iops) simp_all
  have cur: "unat (cur_total_min_rate d) = occupied (rate_based_qlist d)" "unat (cur_total_min_rate d) < 2 ^ 63"
    using assms(1) occupied_le[of "rate_based_qlist d"] by (auto simp: wfq_ok_def cap_ok_def)
  have sum: "unat (?rate + cur_total_min_rate d) = nat ?n + occupied (rate_based_qlist d)"
    using unat_sum_lt[of ?rate "cur_total_min_rate d"] rate cur n by simp
  show ?thesis
  proof (cases "total_capacity d < ?rate + cur_total_min_rate d \<or> queue_map d i \<noteq> None")
    case True
    then show ?thesis
      using assms(1) n(3) by (auto simp: WFQ_registerQueue_def priority_to_wfq_weight_def Let_def q1_def[symmetric] registerQueueWithLockHeld_def)
  next
    case False
    then have new: "desc_of d i = None" "queue_map d i = None"
      using assms(1) by (auto simp: wfq_ok_def)
    define qd where "qd = (WFQQueueDesc_new i ?rate (vq_priority q1))\<lparr>rate_based_weight := ?n,
      priority_based_weight := 11 - vq_priority q1, max_rate_based_credits := word_of_int (half ?n) + 1\<rparr>"
    define d1 where "d1 = d\<lparr>queue_map := (queue_map d)(i \<mapsto> q1), cur_total_min_rate := cur_total_min_rate d + ?rate\<rparr>"
    have room: "occupied (rate_based_qlist d1) + nat ?n \<le> unat (total_capacity d1)"
      using False sum by (simp add: d1_def word_less_nat_alt)
    have d1: "omap_ok (queue_desc_map d1)" "cap_ok (total_capacity d1) (rate_based_qlist d1)"
      "unat (next_rate_based_spot d1) < unat (total_capacity d1)" "ring_ok (rate_based_qlist d1) (desc_of d)"
      "unat (total_rate_based_spots d1) = occupied (rate_based_qlist d1)"
      "cur_total_min_rate d1 = total_rate_based_spots d1 + ?rate"
      using assms(1) by (simp_all add: d1_def wfq_ok_def)
    have qd: "queue_id qd = i" "rate_based_rr_spots qd = []" "queue_rate qd = ?rate"
      by (simp_all add: qd_def WFQQueueDesc_new_def)
    obtain qd' d' where a: "assignSpotsToQueue ?n qd d1 = Inr (qd', d')"
      "ring_ok (rate_based_qlist d') ((desc_of d)(i \<mapsto> qd'))" "unat (cur_total_min_rate d') = occupied (rate_based_qlist d')"
      "total_rate_based_spots d' = cur_total_min_rate d'" "cap_ok (total_capacity d') (rate_based_qlist d')"
      "unat (next_rate_based_spot d') < unat (total_capacity d')" "queue_map d' = queue_map d1"
      "queue_desc_map d' = queue_desc_map d1" "total_capacity d' = total_capacity d1"
      by (rule wfq_ok_assign[OF d1(1-4) new(1) d1(5) qd(1) assms(2) qd(2,3) n(1,2) room d1(6)])
    let ?d = "d'\<lparr>queue_desc_map := omap_put i qd' (queue_desc_map d'), queue_map := (queue_map d')(i \<mapsto> q1)\<rparr>"
    have reg: "WFQ_registerQueue i q d = Inr (?d, q1, ERR_OK)"
      using False n(3) new a(1) by (simp add: WFQ_registerQueue_def priority_to_wfq_weight_def Let_def q1_def[symmetric]
        registerQueueWithLockHeld_def qd_def[symmetric] d1_def[symmetric])
    have "omap_ok (queue_desc_map d)" "dom (desc_of d) = dom (queue_map d)"
      using assms(1) by (simp_all add: wfq_ok_def)
    moreover from this have "desc_of ?d = (desc_of d)(i \<mapsto> qd')"
      using a(8) by (auto simp: desc_of_def d1_def map_of_omap_put)
    ultimately have "wfq_ok ?d"
      using a by (simp add: wfq_ok_def omap_ok_put d1_def)
    then show ?thesis
      using reg a(9) by (simp add: d1_def)
  qed
qed

lemma sint_rate:
  assumes "unat r < 2 ^ 63"
  shows "sint (r :: u64) = int (unat r)" "sint r < 2 ^ 63" "nat (sint r) = unat r" "0 < unat r \<Longrightarrow> 0 < sint r"
proof -
  have "uint r < 2 ^ 63"
    using assms[folded of_nat_less_iff[where 'a = int]] by simp
  moreover have "- (2 ^ 63) \<le> uint r"
    by (rule order_trans[of _ 0]) simp_all
  ultimately have "signed_take_bit 63 (uint r) = uint r"
    by (intro signed_take_bit_int_eq_self)
  then show r: "sint r = int (unat r)" by (simp add: sint_uint)
  show "sint r < 2 ^ 63" using \<open>uint r < 2 ^ 63\<close> by (simp add: r)
  show "nat (sint r) = unat r" unfolding r by (rule nat_int)
  show "0 < sint r" if "0 < unat r" using that unfolding r by (rule of_nat_0_less_iff[THEN iffD2])
qed

text \<open>The rate a change is admitted with fits beside the slots of the other queues.\<close>

lemma admit_room:
  assumes "wfq_ok d" "desc_of d i = Some qd" "unat r < 2 ^ 63"
    and "\<not> (queue_rate qd < r \<and> total_capacity d < r - queue_rate qd + cur_total_min_rate d)"
  shows "occupied (fill (rate_based_qlist d) (slots_of i (rate_based_qlist d)) 0) + unat r \<le> unat (total_capacity d)"
proof -
  note rate = wfq_ok_rate_le[OF assms(1,2)]
  have cur: "unat (cur_total_min_rate d) = occupied (rate_based_qlist d)"
    "occupied (rate_based_qlist d) \<le> unat (total_capacity d)" "unat (total_capacity d) < 2 ^ 32"
    using assms(1) occupied_le[of "rate_based_qlist d"] by (auto simp: wfq_ok_def cap_ok_def)
  note occ = occupied_revoke[OF rate(2)]
  show ?thesis
  proof (cases "queue_rate qd < r")
    case True
    then have diff: "unat (r - queue_rate qd) = unat r - unat (queue_rate qd)" "unat (queue_rate qd) < unat r"
      by (simp_all add: unat_sub word_less_nat_alt less_imp_le)
    have "unat (r - queue_rate qd + cur_total_min_rate d) \<le> unat (total_capacity d)"
      using True assms(4) by (simp add: word_less_nat_alt)
    then have "unat r - unat (queue_rate qd) + occupied (rate_based_qlist d) \<le> unat (total_capacity d)"
      using unat_sum_lt[of "r - queue_rate qd" "cur_total_min_rate d"] assms(3) cur diff by simp
    then show ?thesis using occ diff by linarith
  next
    case False
    then show ?thesis using occ cur by (simp add: word_less_nat_alt)
  qed
qed

lemma WFQ_modify_ok:
  assumes "wfq_ok d" "0 < unat iops_min" "unat iops_min < 2 ^ 63" "prio \<le> 10"
  shows "\<exists>d' err. WFQ_modifyQueueQosParams i iops_min iops_max prio d = Inr (d', err) \<and> wfq_ok d' \<and>
    total_capacity d' = total_capacity d"
proof (cases "desc_of d i")
  case None
  then show ?thesis using assms(1) by (simp add: WFQ_modifyQueueQosParams_def Let_def)
next
  case (Some qd)
  note rate = wfq_ok_rate_le[OF assms(1) Some]
  have min: "\<not> iops_min < 1"
    using assms(2) by (simp add: word_less_nat_alt)
  let ?ql = "rate_based_qlist d"
  let ?q0 = "fill ?ql (slots_of i ?ql) 0"
  show ?thesis
  proof (cases "iops_min > queue_rate qd \<and> iops_min - queue_rate qd + cur_total_min_rate d > total_capacity d")
    case True
    then show ?thesis using assms(1) rate(1) min by (simp add: WFQ_modifyQueueQosParams_def Let_def Some)
  next
    case False
    obtain q where q: "queue_map d i = Some q"
      using assms(1) Some by (auto simp: wfq_ok_def)
    define d1 where "d1 = d\<lparr>queue_map := (queue_map d)(i \<mapsto> modifyQosParams (sint iops_min) (sint iops_max) prio q),
      rate_based_qlist := ?q0, total_rate_based_spots := total_rate_based_spots d - queue_rate qd,
      cur_total_min_rate := cur_total_min_rate d - queue_rate qd + iops_min\<rparr>"
    define qd1 where "qd1 = qd\<lparr>rate_based_rr_spots := [], queue_rate := iops_min, queue_priority := prio,
      rate_based_weight := sint iops_min, priority_based_weight := 11 - prio,
      max_rate_based_credits := ucast (iops_min div 2 + 1)\<rparr>"
    note r = sint_rate[OF assms(3)]
    have room: "occupied (rate_based_qlist d1) + nat (sint iops_min) \<le> unat (total_capacity d1)"
      using admit_room[OF assms(1) Some assms(3) False] by (simp add: d1_def r(3))
    have tot: "unat (total_rate_based_spots d - queue_rate qd) = occupied ?q0"
      using occupied_revoke[OF rate(2)] assms(1) rate(1) by (simp add: unat_sub wfq_ok_def)
    have d1: "omap_ok (queue_desc_map d1)" "cap_ok (total_capacity d1) (rate_based_qlist d1)"
      "unat (next_rate_based_spot d1) < unat (total_capacity d1)" "ring_ok (rate_based_qlist d1) ((desc_of d)(i := None))"
      "cur_total_min_rate d1 = total_rate_based_spots d1 + word_of_int (sint iops_min)"
      "unat (total_rate_based_spots d1) = occupied (rate_based_qlist d1)"
      using assms(1) ring_ok_del[of ?ql "desc_of d" i qd] Some tot by (simp_all add: d1_def wfq_ok_def cap_ok_def)
    have qd1: "queue_id qd1 = i" "i \<noteq> 0" "rate_based_rr_spots qd1 = []" "queue_rate qd1 = word_of_int (sint iops_min)"
      using rate(2) by (simp_all add: qd1_def desc_ok_def)
    obtain qd' d' where a: "assignSpotsToQueue (sint iops_min) qd1 d1 = Inr (qd', d')"
      "ring_ok (rate_based_qlist d') ((desc_of d)(i := None, i \<mapsto> qd'))" "unat (cur_total_min_rate d') = occupied (rate_based_qlist d')"
      "total_rate_based_spots d' = cur_total_min_rate d'" "cap_ok (total_capacity d') (rate_based_qlist d')"
      "unat (next_rate_based_spot d') < unat (total_capacity d')" "queue_map d' = queue_map d1"
      "queue_desc_map d' = queue_desc_map d1" "total_capacity d' = total_capacity d1"
      by (rule wfq_ok_assign[OF d1(1-4) _ d1(6) qd1 r(4)[OF assms(2)] r(2) room d1(5)]) simp
    have mod: "WFQ_modifyQueueQosParams i iops_min iops_max prio d = Inr (at_desc i (\<lambda>_. qd') d', ERR_OK)"
    proof -
      let ?d = "d\<lparr>queue_map := (queue_map d)(i \<mapsto> modifyQosParams (sint iops_min) (sint iops_max) prio q)\<rparr>"
      have rev: "revokeSpotsFromQueue qd ?d = Inr (qd\<lparr>rate_based_rr_spots := []\<rparr>,
          ?d\<lparr>rate_based_qlist := ?q0, total_rate_based_spots := total_rate_based_spots d - queue_rate qd\<rparr>)"
        using revokeSpots_ok[of ?d i qd] assms(1) rate(2) by (simp add: wfq_ok_def)
      have "qd\<lparr>rate_based_rr_spots := [], queue_rate := iops_min, queue_priority := prio,
          rate_based_weight := sint iops_min, priority_based_weight := 11 - prio,
          max_rate_based_credits := ucast (iops_min div 2 + 1)\<rparr> = qd1"
        by (simp add: qd1_def)
      moreover have "?d\<lparr>rate_based_qlist := ?q0, total_rate_based_spots := total_rate_based_spots d - queue_rate qd,
          cur_total_min_rate := cur_total_min_rate d - queue_rate qd + iops_min\<rparr> = d1"
        by (simp add: d1_def)
      ultimately show ?thesis
        using False a(1) rate(1) min assms(4)
        by (simp add: WFQ_modifyQueueQosParams_def Let_def Some modifyQueueQosWithLockHeld_def q rev priority_to_wfq_weight_def)
    qed
    have "desc_of (at_desc i (\<lambda>_. qd') d') = (desc_of d)(i \<mapsto> qd')"
    proof -
      have "desc_of d' = desc_of d" using a(8) by (simp add: desc_of_def d1_def)
      then show ?thesis using Some by (simp add: fun_eq_iff)
    qed
    moreover have "dom (queue_map d') = dom (desc_of d)"
      using a(7) q assms(1) by (auto simp: d1_def wfq_ok_def)
    ultimately have "wfq_ok (at_desc i (\<lambda>_. qd') d')"
      using a d1(1) Some by (simp add: wfq_ok_def insert_absorb domI)
    then show ?thesis
      using mod a(9) by (simp add: d1_def)
  qed
qed

text \<open>
  Changes that leave the books alone: of a descriptor only the credits and the counters of the
  priority round may change.
\<close>

definition books :: "WFQQueueDesc \<Rightarrow> qid \<times> u64 \<times> u64 list \<times> u32" where
  "books qd = (queue_id qd, queue_rate qd, rate_based_rr_spots qd, qd_num_pending_ios qd)"

definition wfq_frame :: "'q QoSWFQDispatcher \<Rightarrow> 'q QoSWFQDispatcher \<Rightarrow> bool" where
  "wfq_frame d d' \<longleftrightarrow> queue_map d' = queue_map d \<and> total_capacity d' = total_capacity d \<and>
     rate_based_qlist d' = rate_based_qlist d \<and> cur_total_min_rate d' = cur_total_min_rate d \<and>
     total_rate_based_spots d' = total_rate_based_spots d \<and> map fst (queue_desc_map d') = map fst (queue_desc_map d) \<and>
     (\<forall>i. map_option books (desc_of d' i) = map_option books (desc_of d i))"

lemma wfq_frame_refl [simp]: "wfq_frame d d"
  by (simp add: wfq_frame_def)

lemma wfq_frame_trans: "wfq_frame d d' \<Longrightarrow> wfq_frame d' d'' \<Longrightarrow> wfq_frame d d''"
  by (simp add: wfq_frame_def)

lemma wfq_frame_at_desc: "(\<And>qd. books (f qd) = books qd) \<Longrightarrow> wfq_frame d (at_desc i f d)"
  by (simp add: wfq_frame_def option.map_comp comp_def)

lemma wfq_frame_update [simp]:
  "wfq_frame d (e\<lparr>next_priority_based_queue := a\<rparr>) = wfq_frame d e"
  "wfq_frame d (e\<lparr>next_rate_based_spot := b\<rparr>) = wfq_frame d e"
  "wfq_frame d (e\<lparr>num_rate_based_slots_serviced := c\<rparr>) = wfq_frame d e"
  "wfq_frame d (e\<lparr>num_ios_dispatched := c\<rparr>) = wfq_frame d e"
  "wfq_frame d (e\<lparr>last_reset_time := c\<rparr>) = wfq_frame d e"
  by (simp_all add: wfq_frame_def)

lemma wfq_frame_reset [simp]: "wfq_frame d (reset_round i d)"
  by (simp add: reset_round_def wfq_frame_at_desc books_def)

lemma wfq_frame_desc:
  assumes "wfq_frame d d'" "desc_of d' i = Some qd'"
  obtains qd where "desc_of d i = Some qd" "books qd' = books qd"
  using assms by (cases "desc_of d i") (auto simp: wfq_frame_def dest: spec[of _ i])

lemma wfq_frame_dom: "wfq_frame d d' \<Longrightarrow> desc_of d' i = None \<longleftrightarrow> desc_of d i = None"
  by (cases "desc_of d i"; cases "desc_of d' i") (auto simp: wfq_frame_def dest: spec[of _ i])

lemma ring_ok_books:
  assumes "\<forall>i. map_option books (m' i) = map_option books (m i)" "ring_ok ql m"
  shows "ring_ok ql m'"
proof -
  have "desc_ok ql i qd'" if m': "m' i = Some qd'" for i qd'
  proof -
    obtain qd where "m i = Some qd" "books qd' = books qd"
      using spec[OF assms(1), of i] m' by (cases "m i") auto
    then show ?thesis using assms(2) by (auto simp: ring_ok_def desc_ok_def books_def)
  qed
  moreover have "m' i = None \<longleftrightarrow> m i = None" for i
    using spec[OF assms(1), of i] by (cases "m i"; cases "m' i") auto
  ultimately show ?thesis using assms(2) by (auto simp: ring_ok_def)
qed

lemma wfq_ok_frame:
  assumes "wfq_frame d d'" "wfq_ok d" "unat (next_rate_based_spot d') < unat (total_capacity d)"
  shows "wfq_ok d'"
proof -
  have "ring_ok (rate_based_qlist d) (desc_of d')"
    using ring_ok_books[of "desc_of d'" "desc_of d"] assms(1,2) by (simp add: wfq_ok_def wfq_frame_def)
  moreover have "dom (desc_of d') = dom (desc_of d)"
    using wfq_frame_dom[OF assms(1)] by (auto simp: dom_def)
  ultimately show ?thesis
    using assms by (auto simp: wfq_ok_def wfq_frame_def omap_ok_def)
qed

lemma WFQ_deregister_ok:
  assumes "wfq_ok d"
  shows "\<exists>d'. WFQ_deregisterQueue i d = Inr (d', ERR_INVALID_ARG) \<and> wfq_ok d' \<and> total_capacity d' = total_capacity d \<and>
    dom (desc_of d') = dom (desc_of d) - {i} \<and> dom (queue_map d') = dom (queue_map d) - {i}"
proof (cases "desc_of d i")
  case None
  then show ?thesis using assms by (auto simp: WFQ_deregisterQueue_def wfq_ok_def)
next
  case (Some qd)
  note rate = wfq_ok_rate_le[OF assms Some]
  let ?q0 = "fill (rate_based_qlist d) (slots_of i (rate_based_qlist d)) 0"
  define d1 where "d1 = d\<lparr>cur_total_min_rate := cur_total_min_rate d - queue_rate qd, rate_based_qlist := ?q0,
    total_rate_based_spots := total_rate_based_spots d - queue_rate qd\<rparr>"
  define nxt where "nxt = getNextQueueInPriorityWFQList i d1"
  define d2 where "d2 = (if next_priority_based_queue d1 = i then reset_round nxt (d1\<lparr>next_priority_based_queue := nxt\<rparr>) else d1)"
  define d3 where "d3 = d2\<lparr>queue_desc_map := omap_erase i (queue_desc_map d2), queue_map := (queue_map d2)(i := None)\<rparr>"
  have rev: "revokeSpotsFromQueue qd (d\<lparr>cur_total_min_rate := cur_total_min_rate d - queue_rate qd\<rparr>) =
      Inr (qd\<lparr>rate_based_rr_spots := []\<rparr>, d1)"
    using revokeSpots_ok[of "d\<lparr>cur_total_min_rate := cur_total_min_rate d - queue_rate qd\<rparr>" i qd] assms rate(2)
    by (simp add: wfq_ok_def d1_def)
  have der: "WFQ_deregisterQueue i d = Inr (d3, ERR_INVALID_ARG)"
    using rate(1) by (simp add: WFQ_deregisterQueue_def Some rev Let_def nxt_def[symmetric] d2_def[symmetric] d3_def[symmetric]
      deregisterQueueWithLockHeld_def) (simp add: d3_def d2_def)
  have fr: "wfq_frame d1 d2"
    using wfq_frame_trans[of d1 "d1\<lparr>next_priority_based_queue := nxt\<rparr>"] by (simp add: d2_def)
  have desc: "desc_of d3 = (desc_of d2)(i := None)"
    by (auto simp: d3_def desc_of_def map_of_omap_erase)
  have "ring_ok ?q0 ((desc_of d1)(i := None))"
    using ring_ok_del[of "rate_based_qlist d" "desc_of d" i qd] Some assms by (simp add: d1_def wfq_ok_def)
  then have ring: "ring_ok ?q0 (desc_of d3)"
    using ring_ok_books[of "desc_of d3" "(desc_of d1)(i := None)" ?q0] fr by (simp add: desc wfq_frame_def)
  have "dom (desc_of d2) = dom (desc_of d)"
    using wfq_frame_dom[OF fr] by (auto simp: d1_def dom_def)
  moreover have "unat (cur_total_min_rate d - queue_rate qd) = occupied ?q0"
    using occupied_revoke[OF rate(2)] assms rate(1) by (simp add: unat_sub wfq_ok_def)
  moreover have "queue_map d2 = queue_map d" "rate_based_qlist d2 = ?q0" "total_capacity d2 = total_capacity d"
    "next_rate_based_spot d2 = next_rate_based_spot d" "cur_total_min_rate d2 = cur_total_min_rate d - queue_rate qd"
    "total_rate_based_spots d2 = total_rate_based_spots d - queue_rate qd" "omap_ok (queue_desc_map d2)"
    using assms by (simp_all add: d2_def d1_def reset_round_def wfq_ok_def)
  ultimately show ?thesis
    using assms der ring desc by (simp add: wfq_ok_def d3_def omap_ok_erase cap_ok_def)
qed

section \<open>Runs of the dispatcher\<close>

datatype 'q wfq_op = WRegister qid "'q FDS_VolumeQueue" | WModify qid u64 u64 u32 | WDeregister qid

fun wfq_exec :: "'q QoSWFQDispatcher \<Rightarrow> 'q wfq_op \<Rightarrow> ('q QoSWFQDispatcher \<times> fds_errno) res" where
  "wfq_exec d (WRegister i q) = bindR (WFQ_registerQueue i q d) (\<lambda>(d', q', err). Inr (d', err))"
| "wfq_exec d (WModify i iops_min iops_max prio) = WFQ_modifyQueueQosParams i iops_min iops_max prio d"
| "wfq_exec d (WDeregister i) = WFQ_deregisterQueue i d"

text \<open>
  Id 0 marks a free slot, priorities end at 10, rates are not negative, and a change asks for at
  least one request per second.
\<close>

fun wfq_op_ok :: "'q wfq_op \<Rightarrow> bool" where
  "wfq_op_ok (WRegister i q) \<longleftrightarrow> i \<noteq> 0 \<and> 0 \<le> iops_assured q \<and> iops_assured q < 2 ^ 63 \<and> vq_priority q \<le> 10"
| "wfq_op_ok (WModify i iops_min iops_max prio) \<longleftrightarrow> 0 < unat iops_min \<and> unat iops_min < 2 ^ 63 \<and> prio \<le> 10"
| "wfq_op_ok (WDeregister i) \<longleftrightarrow> True"

lemma wfq_exec_ok:
  assumes "wfq_ok d" "wfq_op_ok a"
  shows "\<exists>d' err. wfq_exec d a = Inr (d', err) \<and> wfq_ok d' \<and> total_capacity d' = total_capacity d"
proof (cases a)
  case (WRegister i q)
  then show ?thesis using WFQ_registerQueue_ok[OF assms(1), of i q] assms(2) by auto
next
  case (WModify i iops_min iops_max prio)
  then show ?thesis using WFQ_modify_ok[OF assms(1), of iops_min prio i iops_max] assms(2) by auto
next
  case (WDeregister i)
  then show ?thesis using WFQ_deregister_ok[OF assms(1), of i] by auto
qed

lemma wfq_run_ok:
  assumes "wfq_ok d" "\<forall>a\<in>set as. wfq_op_ok a"
  shows "\<exists>d' rs. run_ops wfq_exec d as = Inr (d', rs) \<and> wfq_ok d' \<and> total_capacity d' = total_capacity d"
  using assms
proof (induction as arbitrary: d)
  case (Cons a as)
  obtain d1 err where d1: "wfq_exec d a = Inr (d1, err)" "wfq_ok d1" "total_capacity d1 = total_capacity d"
    using wfq_exec_ok[OF Cons.prems(1), of a] Cons.prems(2) by auto
  obtain d' rs where "run_ops wfq_exec d1 as = Inr (d', rs)" "wfq_ok d'" "total_capacity d' = total_capacity d1"
    using Cons.IH[OF d1(2)] Cons.prems(2) by auto
  then show ?case using d1 by simp
qed simp

lemma wfq_ok_new:
  assumes "0 < iops" "iops < 2 ^ 32" "QoSWFQDispatcher_new iops mo bypass now = Some d"
  shows "wfq_ok d \<and> unat (total_capacity d) = nat iops"
proof -
  have cap: "unat (word_of_int iops :: u64) = nat iops" "0 < nat iops" "nat iops < 2 ^ 32"
    using assms(1,2) unat_iops[of iops] by (simp_all add: nat_less_iff)
  then have d: "d = FDS_QoSDispatcher.extend ((FDS_QoSDispatcher_new iops bypass)\<lparr>max_outstanding_ios := mo\<rparr>)
      (QoSWFQDispatcher.fields (word_of_int iops) 0 [] (replicate (nat iops) 0) 0 0 0 0 0 now)"
    using assms(3) by (simp add: QoSWFQDispatcher_new_def)
  have "{s. s < nat iops \<and> replicate (nat iops) (0 :: qid) ! s \<noteq> 0} = {}" by auto
  then have "occupied (replicate (nat iops) 0) = 0" by (simp add: occupied_def)
  then show ?thesis
    using cap by (simp add: d wfq_ok_def QoSWFQDispatcher.defs FDS_QoSDispatcher.defs desc_of_def cap_ok_def ring_ok_def
      FDS_QoSDispatcher_new_def omap_ok_def)
qed



text \<open>
  A change to zero requests per second records rate 1 but assigns no slot; removing the queue
  then reads its empty slot list.
\<close>

lemma WFQ_modify_zero_breaks:
  assumes "wfq_ok d" "desc_of d i = Some qd" "prio \<le> 10"
  shows "\<exists>d'. WFQ_modifyQueueQosParams i 0 iops_max prio d = Inr (d', ERR_OK) \<and> WFQ_deregisterQueue i d' = Inl Undefined"
proof -
  note rate = wfq_ok_rate_le[OF assms(1,2)]
  obtain q where q: "queue_map d i = Some q"
    using assms(1,2) by (auto simp: wfq_ok_def)
  let ?d = "d\<lparr>queue_map := (queue_map d)(i \<mapsto> modifyQosParams 0 (sint iops_max) prio q)\<rparr>"
  obtain ql where rev: "revokeSpotsFromQueue qd ?d = Inr (qd\<lparr>rate_based_rr_spots := []\<rparr>,
      ?d\<lparr>rate_based_qlist := ql, total_rate_based_spots := total_rate_based_spots d - queue_rate qd\<rparr>)"
    using revokeSpots_ok[of ?d i qd] assms(1) rate(2) by (simp add: wfq_ok_def)
  let ?cur = "cur_total_min_rate d - queue_rate qd"
  have "unat ?cur < 2 ^ 63"
    using assms(1) rate(1) occupied_le[of "rate_based_qlist d"] by (auto simp: wfq_ok_def cap_ok_def unat_sub)
  then have cur: "1 \<le> ?cur + 1"
    using unat_sum_lt[of ?cur 1] by (simp add: word_le_nat_alt)
  have "\<not> queue_rate qd < 1"
    using rate(2) by (simp add: desc_ok_def word_less_nat_alt)
  then have "WFQ_modifyQueueQosParams i 0 iops_max prio d = Inr (at_desc i (\<lambda>_. qd\<lparr>rate_based_rr_spots := [], queue_rate := 1,
        queue_priority := prio, rate_based_weight := sint (1 :: u64), priority_based_weight := 11 - prio,
        max_rate_based_credits := ucast ((1 :: u64) div 2 + 1)\<rparr>)
      (?d\<lparr>rate_based_qlist := ql, total_rate_based_spots := total_rate_based_spots d - queue_rate qd, cur_total_min_rate := ?cur + 1\<rparr>), ERR_OK)"
    using rate(1) assms(3) rev by (simp add: WFQ_modifyQueueQosParams_def assms(2) modifyQueueQosWithLockHeld_def q
      priority_to_wfq_weight_def assignSpotsToQueue_def)
  then show ?thesis
    using cur assms(2) by (simp add: WFQ_deregisterQueue_def revokeSpotsFromQueue_def revoke_one_def)
qed

section \<open>The dispatcher conserves work\<close>

lemma pending_of_frame: "wfq_frame d d' \<Longrightarrow> pending_of d' i = pending_of d i"
proof (cases "desc_of d' i")
  case None
  assume "wfq_frame d d'"
  then show ?thesis using None wfq_frame_dom[of d d' i] by (simp add: pending_of_def)
next
  case (Some qd')
  assume fr: "wfq_frame d d'"
  obtain qd where "desc_of d i = Some qd" "books qd' = books qd"
    by (rule wfq_frame_desc[OF fr Some])
  then show ?thesis
    using Some fr by (simp add: pending_of_def pendingActiveCount_def books_def wfq_frame_def split: option.split)
qed

lemma inc_num_frame [simp]:
  "wfq_frame d (inc_num_ios_dispatched now e) = wfq_frame d e"
  "next_rate_based_spot (inc_num_ios_dispatched now e) = next_rate_based_spot e"
  by (simp_all add: inc_num_ios_dispatched_def)

lemma serve_slot_ok:
  assumes "wfq_ok d"
  obtains d' n' late' where "serve_slot F el ex d n late =
      Inr (d', rate_based_qlist d ! unat (next_rate_based_spot d), n', late')"
    "wfq_frame d d'" "wfq_ok d'" "unat (next_rate_based_spot d') = (unat (next_rate_based_spot d) + 1) mod unat (total_capacity d)"
    "rate_based_qlist d ! unat (next_rate_based_spot d) \<noteq> 0 \<longrightarrow>
      n' = pending_of d (rate_based_qlist d ! unat (next_rate_based_spot d))"
proof -
  let ?s = "unat (next_rate_based_spot d)"
  let ?i = "rate_based_qlist d ! ?s"
  let ?d1 = "d\<lparr>next_rate_based_spot := (next_rate_based_spot d + 1) mod total_capacity d\<rparr>"
  have s: "?s < length (rate_based_qlist d)" "0 < unat (total_capacity d)" "?s < 2 ^ 63"
    using assms by (auto simp: wfq_ok_def cap_ok_def)
  have spot: "unat ((next_rate_based_spot d + 1) mod total_capacity d) = (?s + 1) mod unat (total_capacity d)"
    using unat_add_mod[of "next_rate_based_spot d" 1 "total_capacity d"] s(3) by simp
  show thesis
  proof (cases "?i = 0")
    case True
    have "wfq_ok ?d1"
      using wfq_ok_frame[of d ?d1] assms spot s(2) by simp
    with True spot s show thesis
      by (intro that[of ?d1 n late]) (simp_all add: serve_slot_def Let_def)
  next
    case False
    then obtain qd where qd: "desc_of d ?i = Some qd"
      using assms s(1) by (auto simp: wfq_ok_def ring_ok_def)
    let ?d2 = "?d1\<lparr>num_rate_based_slots_serviced := num_rate_based_slots_serviced d + 1\<rparr>"
    let ?f = "\<lambda>qd. qd\<lparr>num_rate_based_credits := num_rate_based_credits qd + 1\<rparr>"
    let ?d3 = "if pendingActiveCount d qd = 0 \<and> num_rate_based_credits qd < max_rate_based_credits qd then at_desc ?i ?f ?d2 else ?d2"
    have "wfq_frame ?d2 (at_desc ?i ?f ?d2)"
      by (rule wfq_frame_at_desc) (simp add: books_def)
    then have fr: "wfq_frame d ?d3"
      using wfq_frame_trans[of d ?d2] by simp
    have sp: "unat (next_rate_based_spot ?d3) = (?s + 1) mod unat (total_capacity d)"
      using spot by simp
    have "wfq_ok ?d3"
      using wfq_ok_frame[OF fr assms] sp s(2) by simp
    moreover have "pendingActiveCount ?d1 qd = pendingActiveCount d qd"
      by (simp add: pendingActiveCount_def)
    ultimately show thesis
      using fr sp False qd s(1)
      by (intro that[of ?d3 "pendingActiveCount d qd"]) (simp_all add: serve_slot_def Let_def pending_of_def)
  qed
qed

lemma slot_loop_ok:
  assumes "wfq_ok d" "rate_based_qlist d ! ((unat (next_rate_based_spot d) + k) mod unat (total_capacity d)) = j"
    and "j \<noteq> 0" "pending_of d j \<noteq> 0"
  shows "\<exists>d' i n' late'. slot_loop F el ex d n late = Some (Inr (d', i, n', late')) \<and> wfq_frame d d' \<and> wfq_ok d' \<and>
    (i \<noteq> 0 \<longrightarrow> n' = pending_of d i) \<and> (i \<noteq> 0 \<and> n' \<noteq> 0 \<or> \<not> late')"
  using assms
proof (induction k arbitrary: d n late)
  case (0 d)
  let ?i = "rate_based_qlist d ! unat (next_rate_based_spot d)"
  obtain d' n' late' where r: "serve_slot F el ex d n late = Inr (d', ?i, n', late')" "wfq_frame d d'" "wfq_ok d'"
    "?i \<noteq> 0 \<longrightarrow> n' = pending_of d ?i"
    by (rule serve_slot_ok[OF 0(1)])
  moreover have "?i = j"
    using 0(1,2) by (simp add: wfq_ok_def)
  ultimately show ?case
    using 0(3,4) by (subst slot_loop.simps) simp
next
  case (Suc k d)
  let ?i = "rate_based_qlist d ! unat (next_rate_based_spot d)"
  obtain d' n' late' where r: "serve_slot F el ex d n late = Inr (d', ?i, n', late')" "wfq_frame d d'" "wfq_ok d'"
    "unat (next_rate_based_spot d') = (unat (next_rate_based_spot d) + 1) mod unat (total_capacity d)"
    "?i \<noteq> 0 \<longrightarrow> n' = pending_of d ?i"
    by (rule serve_slot_ok[OF Suc.prems(1)])
  show ?case
  proof (cases "late' \<and> (?i = 0 \<or> n' = 0)")
    case False
    then show ?thesis using r by (subst slot_loop.simps) auto
  next
    case True
    have same: "rate_based_qlist d' = rate_based_qlist d" "total_capacity d' = total_capacity d"
      using r(2) by (simp_all add: wfq_frame_def)
    have "rate_based_qlist d' ! ((unat (next_rate_based_spot d') + k) mod unat (total_capacity d')) = j"
      using Suc.prems(2) by (simp add: same r(4) mod_simps)
    then obtain d2 i n2 late2 where "slot_loop F el ex d' n' late' = Some (Inr (d2, i, n2, late2))" "wfq_frame d' d2" "wfq_ok d2"
      "i \<noteq> 0 \<longrightarrow> n2 = pending_of d' i" "i \<noteq> 0 \<and> n2 \<noteq> 0 \<or> \<not> late2"
      using Suc.IH[OF r(3) _ Suc.prems(3), of n' late'] Suc.prems(4) pending_of_frame[OF r(2)] by auto
    then show ?thesis
      using True r(1,2) wfq_frame_trans[of d d' d2] pending_of_frame[OF r(2)] by (subst slot_loop.simps) simp
  qed
qed

text \<open>The priority list is a ring of all queues.\<close>

lemma next_key_nth:
  "distinct ks \<Longrightarrow> a < length ks \<Longrightarrow>
     next_key (ks ! a) ks = (if Suc a < length ks then Some (ks ! Suc a) else None)"
proof (induction "ks ! a" ks arbitrary: a rule: next_key.induct)
  case (1 k k' ks)
  then show ?case by (cases a) (auto simp: nth_Cons')
qed (auto simp: less_Suc_eq)

lemma next_key_absent: "i \<notin> set ks \<Longrightarrow> next_key i ks = None"
  by (induction i ks rule: next_key.induct) auto

lemma getNext_ring:
  assumes "omap_ok (queue_desc_map d)" "a < length (queue_desc_map d)"
  shows "getNextQueueInPriorityWFQList (map fst (queue_desc_map d) ! a) d =
    map fst (queue_desc_map d) ! (Suc a mod length (queue_desc_map d))"
proof -
  define ks where "ks = map fst (queue_desc_map d)"
  obtain k ks' where ks: "ks = k # ks'"
    using assms(2) by (cases ks) (auto simp: ks_def)
  have len: "a < length ks" "length (queue_desc_map d) = length ks" "distinct ks"
    using assms omap_ok_distinct by (auto simp: ks_def)
  have "(case next_key (ks ! a) ks of Some k' \<Rightarrow> k' | None \<Rightarrow> k) = ks ! (Suc a mod length ks)"
    using next_key_nth[OF len(3,1)] len(1) ks by (cases "Suc a < length ks") (auto simp: not_less le_less_Suc_eq)
  then show ?thesis
    using ks by (simp add: getNextQueueInPriorityWFQList_def len(2) ks_def[symmetric])
qed

lemma getNext_start:
  assumes "omap_ok (queue_desc_map d)" "queue_desc_map d \<noteq> []"
  shows "\<exists>a<length (queue_desc_map d). getNextQueueInPriorityWFQList i d = map fst (queue_desc_map d) ! a"
proof (cases "i \<in> set (map fst (queue_desc_map d))")
  case True
  then obtain a where "a < length (queue_desc_map d)" "i = map fst (queue_desc_map d) ! a"
    by (metis in_set_conv_nth length_map)
  then show ?thesis
    using getNext_ring[OF assms(1), of a] by (metis assms(2) length_greater_0_conv mod_less_divisor)
next
  case False
  then have "getNextQueueInPriorityWFQList i d = map fst (queue_desc_map d) ! 0"
    using assms(2) next_key_absent[OF False]
    by (cases "queue_desc_map d") (auto simp: getNextQueueInPriorityWFQList_def)
  then show ?thesis using assms(2) by blast
qed

lemma getNext_frame: "wfq_frame d d' \<Longrightarrow> getNextQueueInPriorityWFQList i d' = getNextQueueInPriorityWFQList i d"
  by (simp add: getNextQueueInPriorityWFQList_def wfq_frame_def)

lemma reset_round_spot [simp]: "next_rate_based_spot (reset_round i d) = next_rate_based_spot d"
  by (simp add: reset_round_def)

lemma prio_loop_stops: "desc_of d i \<noteq> None \<Longrightarrow> n \<noteq> 0 \<Longrightarrow> prio_loop k d i n = (d, i, n)"
  by (cases k) auto

text \<open>One step of the loop: on to the next queue of the ring.\<close>

lemma prio_loop_step:
  assumes "desc_of d i = None \<or> n = 0" "getNextQueueInPriorityWFQList i d = i'" "desc_of d i' \<noteq> None"
  obtains d' where "prio_loop (Suc k) d i n = prio_loop k d' i' (pending_of d i')" "wfq_frame d d'"
    "next_rate_based_spot d' = next_rate_based_spot d"
proof -
  let ?d1 = "reset_round i d"
  let ?d2 = "?d1\<lparr>next_priority_based_queue := i'\<rparr>"
  have d2: "wfq_frame d ?d2" by simp
  then obtain qd where qd: "desc_of ?d2 i' = Some qd"
    using assms(3) wfq_frame_dom[OF d2] by (cases "desc_of ?d2 i'") auto
  have nxt: "getNextQueueInPriorityWFQList i ?d1 = i'"
    using assms(2) by (simp add: getNext_frame[OF wfq_frame_reset])
  have "pendingActiveCount ?d2 qd = pending_of ?d2 i'"
    using qd by (simp add: pending_of_def del: desc_of_update)
  also have "\<dots> = pending_of d i'"
    by (rule pending_of_frame[OF d2])
  finally have "prio_loop (Suc k) d i n = prio_loop k (reset_round i' ?d2) i' (pending_of d i')"
    using assms(1) nxt qd by (simp only: prio_loop.simps Let_def if_True option.case)
  moreover have "wfq_frame d (reset_round i' ?d2)"
    by (rule wfq_frame_trans[OF d2 wfq_frame_reset])
  ultimately show thesis by (rule that) simp
qed

lemma prio_loop_finds:
  fixes d :: "'q QoSWFQDispatcher"
  assumes "omap_ok (queue_desc_map d)" "desc_of d i \<noteq> None \<longrightarrow> n = pending_of d i"
    and "queue_desc_map d \<noteq> []"
    and "getNextQueueInPriorityWFQList i d = map fst (queue_desc_map d) ! (a mod length (queue_desc_map d))"
    and "m < k" "pending_of d (map fst (queue_desc_map d) ! ((a + m) mod length (queue_desc_map d))) \<noteq> 0"
  shows "\<exists>d' i' n'. prio_loop k d i n = (d', i', n') \<and> wfq_frame d d' \<and> next_rate_based_spot d' = next_rate_based_spot d \<and>
    desc_of d i' \<noteq> None \<and> n' = pending_of d i' \<and> n' \<noteq> 0"
  using assms
proof (induction k arbitrary: d i n a m)
  case (Suc k)
  let ?ks = "map fst (queue_desc_map d)"
  let ?len = "length (queue_desc_map d)"
  show ?case
  proof (cases "desc_of d i \<noteq> None \<and> n \<noteq> 0")
    case True
    then show ?thesis using Suc.prems(2) prio_loop_stops[of d i n "Suc k"] by auto
  next
    case False
    let ?i = "?ks ! (a mod ?len)"
    have "a mod ?len < ?len" using Suc.prems(3) by simp
    then have "?i \<in> set ?ks" by (metis length_map nth_mem)
    then have i: "desc_of d ?i \<noteq> None"
      by (simp add: desc_of_def map_of_eq_None_iff)
    from False have stop: "desc_of d i = None \<or> n = 0" by blast
    obtain d' where d': "prio_loop (Suc k) d i n = prio_loop k d' ?i (pending_of d ?i)" "wfq_frame d d'"
      "next_rate_based_spot d' = next_rate_based_spot d"
      by (rule prio_loop_step[OF stop Suc.prems(4) i])
    have i': "desc_of d' ?i \<noteq> None" using i wfq_frame_dom[OF d'(2)] by simp
    show ?thesis
    proof (cases "pending_of d ?i = 0")
      case nonzero: False
      then show ?thesis using d' i prio_loop_stops[OF i' nonzero, of k] by auto
    next
      case True
      then obtain m' where m: "m = Suc m'" using Suc.prems(6) by (cases m) auto
      have keys: "map fst (queue_desc_map d') = ?ks" "length (queue_desc_map d') = ?len"
        using d'(2) map_eq_imp_length_eq[of fst "queue_desc_map d'" fst "queue_desc_map d"] by (auto simp: wfq_frame_def)
      have pend: "pending_of d' x = pending_of d x" for x by (rule pending_of_frame[OF d'(2)])
      have 1: "omap_ok (queue_desc_map d')" "queue_desc_map d' \<noteq> []"
        using Suc.prems(1,3) keys by (auto simp: omap_ok_def)
      have 2: "getNextQueueInPriorityWFQList ?i d' = map fst (queue_desc_map d') ! (Suc a mod length (queue_desc_map d'))"
        using getNext_ring[OF Suc.prems(1) \<open>a mod ?len < ?len\<close>] keys
        by (simp add: getNext_frame[OF d'(2)] mod_Suc_eq)
      have ih: "\<exists>d'' i' n'. prio_loop k d' ?i (pending_of d ?i) = (d'', i', n') \<and> wfq_frame d' d'' \<and>
          next_rate_based_spot d'' = next_rate_based_spot d' \<and> desc_of d' i' \<noteq> None \<and> n' = pending_of d' i' \<and> n' \<noteq> 0"
        using Suc.prems(5,6) by (intro Suc.IH[OF 1(1) _ 1(2) 2, of _ m']) (simp_all add: keys pend m)
      from ih obtain d'' i' n' where r: "prio_loop k d' ?i (pending_of d ?i) = (d'', i', n')" "wfq_frame d' d''"
        "next_rate_based_spot d'' = next_rate_based_spot d'" "desc_of d' i' \<noteq> None" "n' = pending_of d' i'" "n' \<noteq> 0"
        by blast
      then show ?thesis
        using wfq_frame_trans[OF d'(2) r(2)] wfq_frame_dom[OF d'(2), of i'] pend[of i']
        by (intro exI[of _ d''] exI[of _ i'] exI[of _ n']) (simp add: d'(1,3) del: prio_loop.simps)
    qed
  qed
qed simp

lemma wfq_pending_key:
  assumes "pending_of d j \<noteq> 0"
  shows "\<exists>b<length (queue_desc_map d). map fst (queue_desc_map d) ! b = j"
proof -
  have "j \<in> set (map fst (queue_desc_map d))"
    using assms by (auto simp: pending_of_def desc_of_def split: option.splits dest: map_of_SomeD intro: rev_image_eqI)
  then show ?thesis by (metis in_set_conv_nth length_map)
qed

lemma after_prio_frame:
  "wfq_frame d (after_prio now i qd d)" "next_rate_based_spot (after_prio now i qd d) = next_rate_based_spot d"
proof -
  let ?d1 = "at_desc i (\<lambda>qd. qd\<lparr>num_priority_based_ios_dispatched := num_priority_based_ios_dispatched qd + 1\<rparr>) d"
  let ?n = "getNextQueueInPriorityWFQList i ?d1"
  have 1: "wfq_frame d ?d1"
    by (rule wfq_frame_at_desc) (simp add: books_def)
  have 2: "wfq_frame ?d1 (reset_round ?n ((reset_round i ?d1)\<lparr>next_priority_based_queue := ?n\<rparr>))"
    by (rule wfq_frame_trans[OF _ wfq_frame_reset]) simp
  show "wfq_frame d (after_prio now i qd d)"
    using 1 wfq_frame_trans[OF 1 2] by (simp add: after_prio_def Let_def)
  show "next_rate_based_spot (after_prio now i qd d) = next_rate_based_spot d"
    by (simp add: after_prio_def Let_def)
qed

lemma by_priority_finds:
  assumes "wfq_ok d" "pending_of d j \<noteq> 0"
  shows "\<exists>d' i. by_priority now d = (d', i) \<and> wfq_frame d d' \<and> next_rate_based_spot d' = next_rate_based_spot d \<and>
    i \<noteq> 0 \<and> pending_of d i \<noteq> 0"
proof -
  let ?i = "next_priority_based_queue d"
  let ?len = "length (queue_desc_map d)"
  obtain b where b: "b < ?len" "map fst (queue_desc_map d) ! b = j"
    using wfq_pending_key[OF assms(2)] by blast
  have ok: "omap_ok (queue_desc_map d)" "queue_desc_map d \<noteq> []"
    using assms(1) b by (auto simp: wfq_ok_def)
  obtain a where a: "a < ?len" "getNextQueueInPriorityWFQList ?i d = map fst (queue_desc_map d) ! a"
    using getNext_start[OF ok] by blast
  define m where "m = (if a \<le> b then b - a else ?len - a + b)"
  have m: "m < ?len" "(a + m) mod ?len = b"
    using a(1) b(1) by (auto simp: m_def)
  obtain d' i n where r: "prio_loop ?len d ?i (pending_of d ?i) = (d', i, n)" "wfq_frame d d'"
    "next_rate_based_spot d' = next_rate_based_spot d" "desc_of d i \<noteq> None" "n = pending_of d i" "n \<noteq> 0"
    using prio_loop_finds[OF ok(1) _ ok(2), of ?i "pending_of d ?i" a m ?len] a b m assms(2) by auto
  obtain qd where qd: "desc_of d' i = Some qd"
    using r(4) wfq_frame_dom[OF r(2)] by (cases "desc_of d' i") auto
  have "i \<noteq> 0"
    using assms(1) r(4) by (auto simp: wfq_ok_def ring_ok_def desc_ok_def)
  then show ?thesis
    using r qd wfq_frame_trans[OF r(2) after_prio_frame(1)] by (simp add: by_priority_def after_prio_frame(2))
qed

definition flt_ok :: "'d flt \<Rightarrow> bool" where
  "flt_ok F \<longleftrightarrow> (\<forall>a b c. d_less F a b \<longrightarrow> d_less F b c \<longrightarrow> d_less F a c) \<and>
     (\<forall>x. \<not> d_less F (f_of_u64 F 0) (f_div F (f_of_u64 F 0) x))"

lemma more_credits_fold:
  assumes "flt_ok F" "set m \<subseteq> M" "best = (0, f_of_u64 F 0) \<or>
      (\<exists>qd. (fst best, qd) \<in> M \<and> pendingActiveCount d qd > 0 \<and> num_rate_based_credits qd > 0 \<and> d_less F (f_of_u64 F 0) (snd best))"
  shows "fold (more_credits F d) m best = (0, f_of_u64 F 0) \<or>
      (\<exists>qd. (fst (fold (more_credits F d) m best), qd) \<in> M \<and> pendingActiveCount d qd > 0 \<and> num_rate_based_credits qd > 0 \<and>
        d_less F (f_of_u64 F 0) (snd (fold (more_credits F d) m best)))"
  using assms(2,3)
proof (induction m arbitrary: best)
  case (Cons kq m)
  obtain k qd where kq: "kq = (k, qd)" by (cases kq)
  let ?z = "f_of_u64 F 0"
  have step: "more_credits F d kq best = (0, ?z) \<or> (\<exists>qd. (fst (more_credits F d kq best), qd) \<in> M \<and>
      pendingActiveCount d qd > 0 \<and> num_rate_based_credits qd > 0 \<and> d_less F ?z (snd (more_credits F d kq best)))"
  proof (cases "pendingActiveCount d qd > 0 \<and> d_less F (snd best) (accumulated_credits F qd)")
    case True
    have "d_less F ?z (accumulated_credits F qd)"
      using True Cons.prems(2) assms(1) by (auto simp: flt_ok_def)
    moreover from this have "num_rate_based_credits qd \<noteq> 0"
      using assms(1) by (auto simp: accumulated_credits_def flt_ok_def)
    ultimately show ?thesis
      using True Cons.prems(1) by (auto simp: more_credits_def kq word_neq_0_conv)
  next
    case False
    then have "more_credits F d kq best = best" by (auto simp: more_credits_def kq)
    then show ?thesis using Cons.prems(2) by simp
  qed
  then show ?case using Cons.IH[OF _ step] Cons.prems(1) by simp
qed simp

lemma open_slot_finds:
  assumes "wfq_ok d" "flt_ok F" "pending_of d j \<noteq> 0"
  shows "\<exists>d' i. open_slot F now d = Inr (d', i) \<and> wfq_frame d d' \<and> next_rate_based_spot d' = next_rate_based_spot d \<and>
    i \<noteq> 0 \<and> pending_of d i \<noteq> 0"
proof (cases "get_non_empty_queue_with_highest_credits F d = 0")
  case True
  then show ?thesis
    using by_priority_finds[OF assms(1,3), of now] by (auto simp: open_slot_def)
next
  case False
  let ?i = "get_non_empty_queue_with_highest_credits F d"
  let ?f = "\<lambda>qd. qd\<lparr>num_rate_based_credits := num_rate_based_credits qd - 1\<rparr>"
  obtain qd where qd: "(?i, qd) \<in> set (queue_desc_map d)" "pendingActiveCount d qd > 0" "num_rate_based_credits qd > 0"
    using more_credits_fold[OF assms(2) order_refl, of "(0, f_of_u64 F 0)" "queue_desc_map d" d] False
    by (auto simp: get_non_empty_queue_with_highest_credits_def)
  have "distinct (map fst (queue_desc_map d))"
    using assms(1) by (simp add: wfq_ok_def omap_ok_distinct)
  then have desc: "desc_of d ?i = Some qd"
    using qd(1) by (simp add: desc_of_def)
  have "wfq_frame d (at_desc ?i ?f d)"
    by (rule wfq_frame_at_desc) (simp add: books_def)
  then show ?thesis
    using False desc qd(2,3) by (simp add: open_slot_def Let_def pending_of_def word_neq_0_conv)
qed

lemma wfq_slot_exists:
  assumes "wfq_ok d" "pending_of d j \<noteq> 0"
  shows "j \<noteq> 0 \<and> (\<exists>k. rate_based_qlist d ! ((unat (next_rate_based_spot d) + k) mod unat (total_capacity d)) = j)"
proof -
  obtain qd where qd: "desc_of d j = Some qd"
    using assms(2) by (cases "desc_of d j") (auto simp: pending_of_def)
  note ok = wfq_ok_rate_le(2)[OF assms(1) qd]
  then have "slots_of j (rate_based_qlist d) \<noteq> {}"
    using card_slots[OF ok] by (auto simp: desc_ok_def)
  then obtain s where s: "s < unat (total_capacity d)" "rate_based_qlist d ! s = j"
    using assms(1) by (auto simp: slots_of_def wfq_ok_def cap_ok_def)
  let ?p = "unat (next_rate_based_spot d)"
  have "?p < unat (total_capacity d)"
    using assms(1) by (simp add: wfq_ok_def)
  then have "(?p + (unat (total_capacity d) - ?p + s)) mod unat (total_capacity d) = s"
    using s(1) by simp
  then show ?thesis
    using s(2) ok by (intro conjI exI[of _ "unat (total_capacity d) - ?p + s"]) (simp_all add: desc_ok_def)
qed

text \<open>
  C34. The fair queueing dispatcher conserves work. Whenever an active or quiescing queue has a
  request waiting, \<^verbatim>\<open>getNextQueueForDispatch\<close> returns, without failing an assertion, an
  active or quiescing queue that has a request waiting, and leaves the ring as it was: the loop
  over the slots ends although it skips idle slots while it runs late, and the round over the
  priority list passes every queue. Of floating point arithmetic it needs that the order is
  transitive and that zero divided by anything is not above zero.
\<close>

theorem wfq_work_conserving:
  assumes "wfq_ok d" "flt_ok F" "pending_of d j \<noteq> 0"
  shows "\<exists>d' i. WFQ_getNextQueueForDispatch F clk d = Some (Inr (d', i)) \<and> i \<noteq> 0 \<and> pending_of d i \<noteq> 0 \<and>
    wfq_ok d' \<and> rate_based_qlist d' = rate_based_qlist d"
proof -
  define el where "el = clk 0 - last_reset_time d"
  define rate where "rate = f_div F (f_mul F (f_of_u64 F (num_rate_based_slots_serviced d)) (f_of_u64 F 1000000)) (f_of_u64 F el)"
  define ex where "ex = f_of_u64 F (total_rate_based_spots d)"
  define late where "late = d_less F rate (d_mul F (d_lit4 F 9000) ex)"
  note defs = WFQ_getNextQueueForDispatch_def Let_def el_def[symmetric] rate_def[symmetric] ex_def[symmetric] late_def[symmetric]
  have opened: "\<exists>d' i. open_slot F (clk 1) e = Inr (d', i) \<and> i \<noteq> 0 \<and> pending_of d i \<noteq> 0 \<and> wfq_ok d' \<and>
      rate_based_qlist d' = rate_based_qlist d" if e: "wfq_ok e" "wfq_frame d e" for e
  proof -
    have "pending_of e j \<noteq> 0" using assms(3) pending_of_frame[OF e(2)] by simp
    then obtain d' i where r: "open_slot F (clk 1) e = Inr (d', i)" "wfq_frame e d'"
      "next_rate_based_spot d' = next_rate_based_spot e" "i \<noteq> 0" "pending_of e i \<noteq> 0"
      using open_slot_finds[OF e(1) assms(2)] by blast
    have "wfq_ok d'" using wfq_ok_frame[OF r(2) e(1)] r(3) e(1) by (simp add: wfq_ok_def)
    then show ?thesis
      using r pending_of_frame[OF e(2)] e(2) by (auto simp: wfq_frame_def)
  qed
  show ?thesis
  proof (cases "d_less F (d_mul F (d_lit4 F 12000) ex) rate")
    case True
    then show ?thesis using opened[OF assms(1)] by (auto simp: defs)
  next
    case False
    obtain k where k: "rate_based_qlist d ! ((unat (next_rate_based_spot d) + k) mod unat (total_capacity d)) = j" "j \<noteq> 0"
      using wfq_slot_exists[OF assms(1,3)] by blast
    obtain d1 i n late1 where r: "slot_loop F el ex d 0 late = Some (Inr (d1, i, n, late1))" "wfq_frame d d1" "wfq_ok d1"
      "i \<noteq> 0 \<longrightarrow> n = pending_of d i" "i \<noteq> 0 \<and> n \<noteq> 0 \<or> \<not> late1"
      using slot_loop_ok[OF assms(1) k assms(3), of F el ex 0 late] by blast
    show ?thesis
    proof (cases "i \<noteq> 0 \<and> n > 0")
      case True
      have "wfq_ok (inc_num_ios_dispatched (clk 1) d1)"
        using wfq_ok_frame[of d1 "inc_num_ios_dispatched (clk 1) d1"] r(3) by (simp add: wfq_ok_def)
      then show ?thesis
        using True False r by (auto simp: defs wfq_frame_def inc_num_ios_dispatched_def)
    next
      case idle: False
      then have "\<not> late1" using r(5) by (auto simp: word_neq_0_conv)
      then have "WFQ_getNextQueueForDispatch F clk d = Some (open_slot F (clk 1) d1)"
        using False idle r(1) by (auto simp: defs)
      then show ?thesis using opened[OF r(3,2)] by auto
    qed
  qed
qed

definition int_flt :: "int flt" where
  "int_flt = dbl.extend int_dbl (flt.fields (\<lambda>w. uint w) (*) (div))"

theorem wfq_work_conserving_witness:
  "\<exists>d d' i. desc_of (d :: nat list QoSWFQDispatcher) 5 \<noteq> None \<and> pending_of d 5 = 1 \<and>
    WFQ_getNextQueueForDispatch int_flt (\<lambda>_. 9) d = Some (Inr (d', i)) \<and> pending_of d i \<noteq> 0"
proof -
  define qd where "qd = (WFQQueueDesc_new 5 1 2)\<lparr>rate_based_rr_spots := [0], qd_num_pending_ios := 1\<rparr>"
  define d :: "nat list QoSWFQDispatcher" where "d = FDS_QoSDispatcher.extend
    ((FDS_QoSDispatcher_new 2 False)\<lparr>queue_map := [5 \<mapsto> sample_queue 1]\<rparr>)
    (QoSWFQDispatcher.fields 2 1 [(5, qd)] [5, 0] 0 1 0 0 0 7)"
  have sel: "queue_map d = [5 \<mapsto> sample_queue 1]" "total_capacity d = 2" "cur_total_min_rate d = 1" "queue_desc_map d = [(5, qd)]"
    "rate_based_qlist d = [5, 0]" "next_rate_based_spot d = 0" "total_rate_based_spots d = 1"
    by (simp_all add: d_def QoSWFQDispatcher.defs FDS_QoSDispatcher.defs)
  have "{s. s < Suc (Suc 0) \<and> [5, 0] ! s \<noteq> (0 :: int)} = {0}" "{s. s < Suc (Suc 0) \<and> [5, 0] ! s = (5 :: int)} = {0}"
    by (auto simp: less_Suc_eq)
  then have "occupied [5, 0] = 1" "slots_of 5 [5, 0] = {0}"
    by (simp_all add: occupied_def slots_of_def)
  then have ok: "wfq_ok d"
    by (simp add: wfq_ok_def sel desc_of_def cap_ok_def ring_ok_def desc_ok_def qd_def WFQQueueDesc_new_def omap_ok_def less_Suc_eq)
  have F: "flt_ok int_flt"
    by (auto simp: flt_ok_def int_flt_def flt.defs dbl.defs int_dbl_def)
  have pend: "pending_of d 5 = 1" "desc_of d 5 \<noteq> None"
    by (simp_all add: pending_of_def desc_of_def sel pendingActiveCount_def qd_def WFQQueueDesc_new_def sample_queue_def)
  show ?thesis
    using wfq_work_conserving[OF ok F, of 5 "\<lambda>_. 9"] pend by auto
qed

section \<open>The dispatcher thread with this policy\<close>

lemma at_desc_counters [simp]: "same_counters d (at_desc i f e) = same_counters d e"
  by (simp add: at_desc_def same_counters_def)

lemma update_counters [simp]:
  "same_counters d (e\<lparr>next_priority_based_queue := a\<rparr>) = same_counters d e"
  "same_counters d (e\<lparr>next_rate_based_spot := b\<rparr>) = same_counters d e"
  "same_counters d (e\<lparr>num_rate_based_slots_serviced := b\<rparr>) = same_counters d e"
  "same_counters d (inc_num_ios_dispatched b e) = same_counters d e"
  "same_counters d (reset_round i e) = same_counters d e"
  by (simp_all add: same_counters_def inc_num_ios_dispatched_def reset_round_def at_desc_def)

lemma serve_slot_counters:
  "serve_slot F el ex d n late = Inr (d', r) \<Longrightarrow> same_counters d d'"
  by (auto simp: serve_slot_def Let_def split: if_splits option.splits)

lemma slot_loop_counters:
  assumes "slot_loop F el ex d n late = Some (Inr (d', r))"
  shows "same_counters d d'"
proof -
  have "\<forall>d' r. y = Inr (d', r) \<longrightarrow> same_counters d d'" if "slot_loop F el ex d n late = Some y" for y
    using that
  proof (rule slot_loop.raw_induct[where P = "\<lambda>F el ex d n late y. \<forall>d' r. y = Inr (d', r) \<longrightarrow> same_counters d d'", rotated])
    fix loop F el ex d n late y
    assume IH: "\<And>F el ex d n late y. loop F el ex d n late = Some y \<Longrightarrow> \<forall>d' r. y = Inr (d', r) \<longrightarrow> same_counters d d'"
      and r: "(case serve_slot F el ex d n late of Inl e \<Rightarrow> Some (Inl e) | Inr (d1, i, n1, late1) \<Rightarrow>
        if late1 \<and> (i = 0 \<or> n1 = 0) then loop F el ex d1 n1 late1 else Some (Inr (d1, i, n1, late1))) = Some y"
    show "\<forall>d' r. y = Inr (d', r) \<longrightarrow> same_counters d d'"
    proof (cases "serve_slot F el ex d n late")
      case (Inr x)
      obtain d1 i n1 late1 where x: "x = (d1, i, n1, late1)" by (cases x)
      have 1: "same_counters d d1" by (rule serve_slot_counters[OF Inr[unfolded x]])
      show ?thesis
        using r IH[of F el ex d1 n1 late1 y] same_counters_trans[OF 1] 1 by (auto simp: Inr x split: if_splits)
    qed (use r in auto)
  qed
  then show ?thesis using assms by blast
qed

lemma prio_loop_counters: "same_counters d (fst (prio_loop k d i n))"
proof (induction k arbitrary: d i n)
  case (Suc k)
  have "same_counters d (fst (prio_loop k e j n'))" if "same_counters d e" for e j n'
    using same_counters_trans[OF that Suc.IH] .
  then show ?case by (auto simp: Let_def split: option.splits)
qed simp

lemma open_slot_counters: "open_slot F now d = Inr (d', i) \<Longrightarrow> same_counters d d'"
  using prio_loop_counters[of d "length (queue_desc_map d)" "next_priority_based_queue d" "pending_of d (next_priority_based_queue d)"]
  by (auto simp: open_slot_def by_priority_def after_prio_def Let_def fds_verify_eq_Inr split: if_splits option.splits prod.splits)

definition wfq_control :: "'q QoSWFQDispatcher \<Rightarrow> 'q QoSWFQDispatcher \<Rightarrow> bool" where
  "wfq_control d d' \<longleftrightarrow> (\<exists>a err. wfq_exec d a = Inr (d', err))"

lemma assignSpots_counters: "assignSpotsToQueue iops qd d = Inr (qd', d') \<Longrightarrow> same_counters d d'"
  by (auto simp: assignSpotsToQueue_def bindR_eq_Inr same_counters_def)

lemma revokeSpots_counters: "revokeSpotsFromQueue qd d = Inr (qd', d') \<Longrightarrow> same_counters d d'"
  by (auto simp: revokeSpotsFromQueue_def bindR_eq_Inr same_counters_def)

lemma WFQ_registerQueue_counters:
  assumes "WFQ_registerQueue i q d = Inr (d', q', err)"
  shows "same_counters d d'"
  using assms by (auto simp: WFQ_registerQueue_def Let_def bindR_eq_Inr registerQueueWithLockHeld_def
    same_counters_def[of d d'] split: if_splits dest!: assignSpots_counters) (simp_all add: same_counters_def)

lemma WFQ_modify_counters:
  assumes "WFQ_modifyQueueQosParams i mn mx prio d = Inr (d', err)"
  shows "same_counters d d'"
  using assms by (auto simp: WFQ_modifyQueueQosParams_def Let_def bindR_eq_Inr modifyQueueQosWithLockHeld_def fds_verify_eq_Inr
    same_counters_def[of d d'] split: if_splits option.splits dest!: assignSpots_counters revokeSpots_counters)
    (simp_all add: same_counters_def at_desc_def)

lemma WFQ_deregister_counters:
  assumes "WFQ_deregisterQueue i d = Inr (d', err)"
  shows "same_counters d d'"
  using assms by (auto simp: WFQ_deregisterQueue_def Let_def bindR_eq_Inr deregisterQueueWithLockHeld_def fds_verify_eq_Inr
    same_counters_def[of d d'] split: if_splits option.splits dest!: revokeSpots_counters)
    (simp_all add: same_counters_def at_desc_def reset_round_def)

lemma wfq_control_counters: "wfq_control d d' \<Longrightarrow> same_counters d d'"
proof -
  assume "wfq_control d d'"
  then obtain a err where "wfq_exec d a = Inr (d', err)" by (auto simp: wfq_control_def)
  then show ?thesis
    by (cases a) (auto simp: bindR_eq_Inr dest: WFQ_registerQueue_counters WFQ_modify_counters WFQ_deregister_counters)
qed

interpretation wfq: dispatch_policy "WFQ_getNextQueueForDispatch F" WFQ_ioProcessForEnqueue
    "\<lambda>_ i d. Some (WFQ_ioProcessForDispatch i d)" wfq_control
  for F :: "'d flt"
proof unfold_locales
  fix clk d d' i
  assume r: "WFQ_getNextQueueForDispatch F clk d = Some (Inr (d', i))"
  show "same_counters d d'"
    using r by (auto simp: WFQ_getNextQueueForDispatch_def Let_def fds_verify_eq_Inr split: if_splits option.splits sum.splits
      dest!: slot_loop_counters open_slot_counters dest: same_counters_trans)
qed (auto simp: WFQ_ioProcessForEnqueue_def WFQ_ioProcessForDispatch_def fds_verify_eq_Inr wfq_control_counters split: option.splits)

text \<open>
  C38. The limit on outstanding requests holds. Start the fair queueing dispatcher with a limit
  \<open>m\<close> below \<open>2 ^ 31\<close> and nothing in service, and interleave the dispatcher thread with any
  number of clients that enqueue requests, report them done, and register, change, suspend and
  remove queues: the counter is the number of requests in service, never more than \<open>m\<close>, and
  \<^verbatim>\<open>markIODone\<close> never stops the process.
\<close>

theorem outstanding_bounded:
  assumes "0 < m" "m < 2 ^ 31" "\<not> bypass_dispatcher d0" "unat (max_outstanding_ios d0) = m" "num_outstanding_ios d0 = 0"
    and "(qos_step Q (WFQ_getNextQueueForDispatch F) WFQ_ioProcessForEnqueue
      (\<lambda>_ i d. Some (WFQ_ioProcessForDispatch i d)) wfq_control)\<^sup>*\<^sup>* (d0, AwaitPending, {#}) (d, pc, S)"
  shows "unat (num_outstanding_ios d) = size S \<and> size S \<le> m \<and> (\<exists>d' n. markIODone d = Inr (d', n))"
  by (rule wfq.outstanding_run[OF assms])

theorem outstanding_bounded_witness:
  "\<exists>d0 d d' n. (qos_step list_queue (WFQ_getNextQueueForDispatch int_flt) WFQ_ioProcessForEnqueue
      (\<lambda>_ i d. Some (WFQ_ioProcessForDispatch i d)) wfq_control)\<^sup>*\<^sup>*
      (d0, AwaitPending, {#}) (d, AwaitPending, {#7 :: nat#}) \<and> unat (num_outstanding_ios d) = 1 \<and> markIODone d = Inr (d', n)"
proof -
  define qd where "qd = (WFQQueueDesc_new 5 1 2)\<lparr>rate_based_rr_spots := [0], qd_num_pending_ios := 1\<rparr>"
  define q where "q = (sample_queue 1)\<lparr>volQueue := [7], vq_count := 1\<rparr>"
  define d0 :: "nat list QoSWFQDispatcher" where "d0 = FDS_QoSDispatcher.extend
    ((FDS_QoSDispatcher_new 2 False)\<lparr>queue_map := [5 \<mapsto> q], max_outstanding_ios := 1, num_pending_ios := 1\<rparr>)
    (QoSWFQDispatcher.fields 2 1 [(5, qd)] [5, 0] 0 1 0 0 0 7)"
  let ?nxt = "WFQ_getNextQueueForDispatch int_flt"
  let ?dh = "\<lambda>_ i d. Some (WFQ_ioProcessForDispatch i d)"
  let ?step = "qos_step list_queue ?nxt WFQ_ioProcessForEnqueue ?dh wfq_control"
  note d0_sel = d0_def QoSWFQDispatcher.defs FDS_QoSDispatcher.defs FDS_QoSDispatcher_new_def
  obtain d1 where d1: "?nxt (\<lambda>_. 9 :: u64) d0 = Some (Inr (d1, 5))" "queue_map d1 = queue_map d0"
    "desc_of d1 5 = Some qd"
    by (simp add: WFQ_getNextQueueForDispatch_def slot_loop.simps serve_slot_def d0_sel Let_def int_flt_def flt.defs dbl.defs int_dbl_def
      desc_of_def pendingActiveCount_def qd_def WFQQueueDesc_new_def q_def sample_queue_def inc_num_ios_dispatched_def)
  obtain d where d: "dispatch_round list_queue (?nxt (\<lambda>_. 9)) (?dh (\<lambda>_. 9 :: u64)) d0 = Some (Inr (d, Some 7))"
    using d1 by (simp add: dispatch_round_def vq_dequeueIO_def list_queue_def Let_def q_def sample_queue_def d0_sel
      WFQ_ioProcessForDispatch_def qd_def WFQQueueDesc_new_def)
  have "?step (d0, AwaitPending, {#}) (d0, AwaitSlot, {#})"
    by (rule qos_step.pending) (simp_all add: d0_sel)
  moreover have "?step (d0, AwaitSlot, {#}) (d0, Pick, {#})"
    by (rule qos_step.slot) (simp add: d0_sel)
  moreover have "?step (d0, Pick, {#}) (d, AwaitPending, {#7#})"
    by (rule qos_step.dispatch[where c = "\<lambda>_. 9"]) (rule d)
  ultimately have run: "?step\<^sup>*\<^sup>* (d0, AwaitPending, {#}) (d, AwaitPending, {#7#})"
    by (meson r_into_rtranclp rtranclp.rtrancl_into_rtrancl)
  have "\<not> bypass_dispatcher d0" "unat (max_outstanding_ios d0) = 1" "num_outstanding_ios d0 = 0"
    by (simp_all add: d0_sel)
  from outstanding_bounded[OF _ _ this run] show ?thesis
    using run by auto
qed

end
