(* ===== verification/Buffer_Replay.thy ===== *)
theory Buffer_Replay
  imports Serialize
begin

text \<open>
  \<^verbatim>\<open>BufferReplay\<close> (\<^verbatim>\<open>include/BufferReplay.h\<close>, \<^verbatim>\<open>lib/misc/BufferReplay.cpp\<close>): operations that reach a
  replica while it is being rebuilt are appended to a file and replayed from it in batches. The
  file is the list of bytes written and not yet read. Every section under the lock is one
  definition; the callbacks it makes after releasing the lock are part of its result. The steps of
  clients and of the thread pool are interleaved by \<open>br_step\<close>. The counters are 64-bit in the
  source and stay far from overflow; they are integers here.
\<close>

section \<open>State\<close>

datatype Progress = IDLE | BUFFERING | BUFFERING_REPLAYING | REPLAY_CAUGHTUP | ABORTED | COMPLETE

record Op =
  opId :: u64
  op_type :: u32
  payload :: "u8 list"

record BufferReplay =
  unread :: "u8 list"
  startingOpId :: u64
  nBufferedOps :: int
  nReplayOpsIssued :: int
  nOutstandingReplayOps :: int
  replayWorkPosted :: bool
  maxReplayCnt :: int
  br_progress :: Progress

definition BufferReplay_new :: "int \<Rightarrow> BufferReplay" where
  "BufferReplay_new cnt = \<lparr>unread = [], startingOpId = -1, nBufferedOps = 0, nReplayOpsIssued = 0,
     nOutstandingReplayOps = 0, replayWorkPosted = False, maxReplayCnt = cnt, br_progress = IDLE\<rparr>"

text \<open>\<open>fd\<close>, \<open>ser\<close>, \<open>deser\<close>: whether the file and the two ends of it could be opened.\<close>

definition BufferReplay_init :: "bool \<Rightarrow> bool \<Rightarrow> bool \<Rightarrow> BufferReplay \<Rightarrow> BufferReplay \<times> fds_errno" where
  "BufferReplay_init fd ser deser s =
     (if \<not> fd then (s, ERR_DISK_WRITE_FAILED)
      else if \<not> ser \<or> \<not> deser then (s, ERR_INVALID)
      else (s\<lparr>br_progress := BUFFERING\<rparr>, ERR_OK))"

section \<open>Operations\<close>

text \<open>The callback, if any, is the second component.\<close>

definition BufferReplay_abort :: "BufferReplay \<Rightarrow> BufferReplay \<times> Progress list" where
  "BufferReplay_abort s = (s\<lparr>br_progress := ABORTED\<rparr>, if br_progress s = BUFFERING then [ABORTED] else [])"

definition op_bytes :: "sprotocol \<Rightarrow> Op \<Rightarrow> u8 list" where
  "op_bytes P op = writeI64 P (opId op) @ writeI32 P (op_type op) @ writeString P (payload op)"

text \<open>\<open>ret\<close> is the number of bytes the file reports for the payload.\<close>

definition BufferReplay_buffer :: "sprotocol \<Rightarrow> u32 \<Rightarrow> Op \<Rightarrow> BufferReplay \<Rightarrow> BufferReplay \<times> fds_errno" where
  "BufferReplay_buffer P ret op s =
     (if br_progress s = ABORTED then (s, ERR_ABORTED)
      else if br_progress s = REPLAY_CAUGHTUP \<or> br_progress s = COMPLETE then (s, ERR_UNAVAILABLE)
      else if unat ret < length (payload op) then (s\<lparr>br_progress := ABORTED\<rparr>, ERR_DISK_WRITE_FAILED)
      else (s\<lparr>unread := unread s @ op_bytes P op,
              startingOpId := (if nBufferedOps s = 0 then opId op else startingOpId s),
              nBufferedOps := nBufferedOps s + 1\<rparr>, ERR_OK))"

text \<open>The second component: whether \<^verbatim>\<open>replayWork_\<close> is given to the thread pool.\<close>

definition startReplay :: "BufferReplay \<Rightarrow> BufferReplay \<times> bool" where
  "startReplay s =
     (if br_progress s = ABORTED then (s, False)
      else (s\<lparr>br_progress := BUFFERING_REPLAYING, replayWorkPosted := True\<rparr>, True))"

text \<open>
  \<^verbatim>\<open>notifyOpsReplayed\<close> counts under the lock and reads the flag, which decides whether to post
  the work, after it has released it.
\<close>

definition notify_count :: "int \<Rightarrow> BufferReplay \<Rightarrow> BufferReplay" where
  "notify_count cnt s =
     (let s1 = s\<lparr>nOutstandingReplayOps := nOutstandingReplayOps s - cnt\<rparr>
      in if nOutstandingReplayOps s1 = 0 then s1\<lparr>replayWorkPosted := True\<rparr> else s1)"

definition notify_posts :: "BufferReplay \<Rightarrow> bool" where
  "notify_posts s = replayWorkPosted s"

definition read_op :: "sprotocol \<Rightarrow> Op reader" where
  "read_op P = rbind (rd (readI64 P)) (\<lambda>i. rbind (rd (readI32 P)) (\<lambda>t. rbind (rd (readString P)) (\<lambda>p.
     rlift (Inr \<lparr>opId = i, op_type = t, payload = p\<rparr>))))"

text \<open>
  The loop that reads a batch; \<open>n\<close> is the number of entries still wanted. The count a read
  returns is unsigned, so the source's test for a negative one never succeeds, and a read that
  fails throws.
\<close>

definition read_batch :: "sprotocol \<Rightarrow> nat \<Rightarrow> Op list reader" where
  "read_batch P n = rtimes n (read_op P)"

datatype work_result = WorkAborted | WorkComplete | WorkSend int "Op list"

definition batch_size :: "BufferReplay \<Rightarrow> nat" where
  "batch_size s = nat (min (nBufferedOps s - nReplayOpsIssued s) (maxReplayCnt s))"

definition replayWork_read :: "sprotocol \<Rightarrow> BufferReplay \<Rightarrow> (BufferReplay \<times> work_result) res" where
  "replayWork_read P s0 =
     (let s = s0\<lparr>replayWorkPosted := False\<rparr> in
      if br_progress s = ABORTED then Inr (s, WorkAborted)
      else if nBufferedOps s = nReplayOpsIssued s then Inr (s\<lparr>br_progress := COMPLETE\<rparr>, WorkComplete)
      else bindR (read_batch P (batch_size s) (unread s)) (\<lambda>(ops, rest).
        Inr (s\<lparr>unread := rest, nOutstandingReplayOps := int (length ops),
                nReplayOpsIssued := nReplayOpsIssued s + int (length ops)\<rparr>, WorkSend (nReplayOpsIssued s) ops)))"

definition replayWork_check :: "BufferReplay \<Rightarrow> BufferReplay \<times> Progress list" where
  "replayWork_check s =
     (if br_progress s = ABORTED then (s, [])
      else if nReplayOpsIssued s = nBufferedOps s then (s\<lparr>br_progress := REPLAY_CAUGHTUP\<rparr>, [REPLAY_CAUGHTUP])
      else (s, []))"

section \<open>Clients and the thread pool\<close>

text \<open>
  Beside the object: the number of tasks in the thread pool, whether \<^verbatim>\<open>replayWork_\<close> stands between
  its two locked sections, what was accepted, sent and acknowledged, the callbacks made, and
  whether \<^verbatim>\<open>startReplay\<close> was called, which its comment allows once. The pool runs tasks of
  one affinity one after the other. A client acknowledges only operations it was sent.
\<close>

record br_sys =
  br :: BufferReplay
  tasks :: nat
  working :: bool
  started :: bool
  accepted :: "Op list"
  sent :: "(int \<times> Op list) list"
  acked :: int
  cbs :: "Progress list"

inductive br_step :: "sprotocol \<Rightarrow> br_sys \<Rightarrow> br_sys \<Rightarrow> bool" for P where
  buffer: "BufferReplay_buffer P ret op (br S) = (s', err) \<Longrightarrow> length (payload op) < 2 ^ 31 \<Longrightarrow>
    br_step P S (S\<lparr>br := s', accepted := accepted S @ (if err = ERR_OK then [op] else [])\<rparr>)"
| abort: "BufferReplay_abort (br S) = (s', cb) \<Longrightarrow> br_step P S (S\<lparr>br := s', cbs := cbs S @ cb\<rparr>)"
| start: "\<not> started S \<Longrightarrow> startReplay (br S) = (s', post) \<Longrightarrow>
    br_step P S (S\<lparr>br := s', started := True, tasks := tasks S + (if post then 1 else 0)\<rparr>)"
| notify: "0 < cnt \<Longrightarrow> cnt \<le> nOutstandingReplayOps (br S) \<Longrightarrow> s' = notify_count cnt (br S) \<Longrightarrow>
    br_step P S (S\<lparr>br := s', acked := acked S + cnt, tasks := tasks S + (if notify_posts s' then 1 else 0)\<rparr>)"
| work_aborted: "0 < tasks S \<Longrightarrow> \<not> working S \<Longrightarrow> replayWork_read P (br S) = Inr (s', WorkAborted) \<Longrightarrow>
    br_step P S (S\<lparr>br := s', tasks := tasks S - 1, cbs := cbs S @ [ABORTED]\<rparr>)"
| work_complete: "0 < tasks S \<Longrightarrow> \<not> working S \<Longrightarrow> replayWork_read P (br S) = Inr (s', WorkComplete) \<Longrightarrow>
    br_step P S (S\<lparr>br := s', tasks := tasks S - 1, cbs := cbs S @ [COMPLETE]\<rparr>)"
| work_send: "0 < tasks S \<Longrightarrow> \<not> working S \<Longrightarrow> replayWork_read P (br S) = Inr (s', WorkSend i ops) \<Longrightarrow>
    br_step P S (S\<lparr>br := s', tasks := tasks S - 1, working := True, sent := sent S @ [(i, ops)]\<rparr>)"
| work_check: "working S \<Longrightarrow> replayWork_check (br S) = (s', cb) \<Longrightarrow>
    br_step P S (S\<lparr>br := s', working := False, cbs := cbs S @ cb\<rparr>)"

definition br_start :: "int \<Rightarrow> br_sys" where
  "br_start cnt = \<lparr>br = fst (BufferReplay_init True True True (BufferReplay_new cnt)), tasks = 0, working = False,
     started = False, accepted = [], sent = [], acked = 0, cbs = []\<rparr>"

section \<open>Reading back what was buffered\<close>

lemma reads_op:
  assumes "sprotocol_ok P" "length (payload op) < 2 ^ 31"
  shows "reads (read_op P) (op_bytes P op) op"
proof -
  note p = reads_sprotocol(1)[OF assms] reads_protocol(3,4)[OF reads_sprotocol(3)[OF assms(1)]]
  show ?thesis
    unfolding read_op_def op_bytes_def
    by (rule reads_rbind[OF p(3)], rule reads_rbind[OF p(2)], rule back_subst[where P = "reads _ _"], rule reads_rbind_rlift[OF p(1)]) simp
qed

lemma read_batch_file:
  assumes "sprotocol_ok P" "\<forall>op\<in>set ops. length (payload op) < 2 ^ 31"
  shows "read_batch P (length ops) (concat (map (op_bytes P) ops) @ rest) = Inr (ops, rest)"
  using reads_rtimes[of ops "read_op P" "op_bytes P" "length ops"] reads_op[OF assms(1)] assms(2)
  by (simp add: read_batch_def reads_def)

section \<open>What every interleaving keeps\<close>

text \<open>The file holds what was accepted and not yet sent; what was sent is a prefix of what was accepted.\<close>

definition file_inv :: "sprotocol \<Rightarrow> br_sys \<Rightarrow> bool" where
  "file_inv P S \<longleftrightarrow> nBufferedOps (br S) = int (length (accepted S)) \<and>
     (\<exists>n\<le>length (accepted S). nReplayOpsIssued (br S) = int n \<and> concat (map snd (sent S)) = take n (accepted S) \<and>
       unread (br S) = concat (map (op_bytes P) (drop n (accepted S)))) \<and>
     (\<forall>op\<in>set (accepted S). length (payload op) < 2 ^ 31)"

text \<open>At most one task is posted, and none while a batch is outstanding.\<close>

definition count_inv :: "int \<Rightarrow> br_sys \<Rightarrow> bool" where
  "count_inv cnt S \<longleftrightarrow> maxReplayCnt (br S) = cnt \<and> 0 \<le> nOutstandingReplayOps (br S) \<and> nOutstandingReplayOps (br S) \<le> cnt \<and>
     acked S + nOutstandingReplayOps (br S) = nReplayOpsIssued (br S) \<and> tasks S = (if replayWorkPosted (br S) then 1 else 0) \<and>
     (replayWorkPosted (br S) \<longrightarrow> nOutstandingReplayOps (br S) = 0) \<and>
     (\<not> started S \<longrightarrow> \<not> replayWorkPosted (br S) \<and> nOutstandingReplayOps (br S) = 0 \<and> \<not> working S)"

text \<open>Progress and the callbacks made so far.\<close>

definition progress_inv :: "br_sys \<Rightarrow> bool" where
  "progress_inv S \<longleftrightarrow> (let caught_up = (nReplayOpsIssued (br S) = nBufferedOps (br S));
       live = (replayWorkPosted (br S) \<or> 0 < nOutstandingReplayOps (br S)) in
     (case br_progress (br S) of
        IDLE \<Rightarrow> False
      | BUFFERING \<Rightarrow> cbs S = [] \<and> \<not> started S \<and> nReplayOpsIssued (br S) = 0
      | BUFFERING_REPLAYING \<Rightarrow> cbs S = [] \<and> started S \<and> live \<and> (caught_up \<and> \<not> working S \<longrightarrow> nBufferedOps (br S) = 0)
      | REPLAY_CAUGHTUP \<Rightarrow> cbs S = [REPLAY_CAUGHTUP] \<and> started S \<and> live \<and> caught_up \<and> \<not> working S
      | COMPLETE \<Rightarrow> (cbs S = [REPLAY_CAUGHTUP, COMPLETE] \<or> cbs S = [COMPLETE] \<and> nBufferedOps (br S) = 0) \<and> started S \<and>
          \<not> live \<and> caught_up \<and> \<not> working S
      | ABORTED \<Rightarrow> cbs S = [] \<or> cbs S = [REPLAY_CAUGHTUP] \<or> (cbs S = [ABORTED] \<or> cbs S = [REPLAY_CAUGHTUP, ABORTED] \<or>
          (cbs S = [REPLAY_CAUGHTUP, COMPLETE] \<or> cbs S = [COMPLETE]) \<and> caught_up) \<and> \<not> live))"

lemmas br_ops = BufferReplay_buffer_def BufferReplay_abort_def startReplay_def notify_count_def notify_posts_def
  replayWork_check_def Let_def

lemma read_work:
  assumes "sprotocol_ok P" "file_inv P S" "nReplayOpsIssued (br S) = int n" "br_progress (br S) \<noteq> ABORTED"
    and "nBufferedOps (br S) \<noteq> nReplayOpsIssued (br S)"
  shows "replayWork_read P (br S) = Inr ((br S)\<lparr>replayWorkPosted := False,
      unread := concat (map (op_bytes P) (drop (n + batch_size (br S)) (accepted S))),
      nOutstandingReplayOps := int (batch_size (br S)), nReplayOpsIssued := int (n + batch_size (br S))\<rparr>,
      WorkSend (int n) (take (batch_size (br S)) (drop n (accepted S))))"
    "n + batch_size (br S) \<le> length (accepted S)"
proof -
  let ?k = "batch_size (br S)"
  let ?ops = "take ?k (drop n (accepted S))"
  have n: "n \<le> length (accepted S)" "nBufferedOps (br S) = int (length (accepted S))"
    "unread (br S) = concat (map (op_bytes P) (drop n (accepted S)))" "\<forall>op\<in>set (accepted S). length (payload op) < 2 ^ 31"
    using assms(2,3) by (auto simp: file_inv_def)
  then show k: "n + ?k \<le> length (accepted S)"
    using assms(3) by (simp add: batch_size_def)
  have len: "length ?ops = ?k" using k by simp
  have "drop n (accepted S) = ?ops @ drop (n + ?k) (accepted S)"
    by (metis append_take_drop_id drop_drop add.commute)
  then have "unread (br S) = concat (map (op_bytes P) ?ops) @ concat (map (op_bytes P) (drop (n + ?k) (accepted S)))"
    by (metis n(3) concat_append map_append)
  moreover have "\<forall>op\<in>set ?ops. length (payload op) < 2 ^ 31"
    using n(4) by (auto dest!: in_set_takeD in_set_dropD)
  ultimately have "read_batch P ?k (unread (br S)) = Inr (?ops, concat (map (op_bytes P) (drop (n + ?k) (accepted S))))"
    using read_batch_file[OF assms(1), of ?ops] len by simp
  then show "replayWork_read P (br S) = Inr ((br S)\<lparr>replayWorkPosted := False,
      unread := concat (map (op_bytes P) (drop (n + ?k) (accepted S))),
      nOutstandingReplayOps := int ?k, nReplayOpsIssued := int (n + ?k)\<rparr>, WorkSend (int n) ?ops)"
    using assms(3-5) len by (simp add: replayWork_read_def batch_size_def)
qed

lemma read_work_end:
  "replayWork_read P s = Inr (s', WorkAborted) \<Longrightarrow> br_progress s = ABORTED \<and> s' = s\<lparr>replayWorkPosted := False\<rparr>"
  "replayWork_read P s = Inr (s', WorkComplete) \<Longrightarrow> br_progress s \<noteq> ABORTED \<and> nBufferedOps s = nReplayOpsIssued s \<and>
     s' = s\<lparr>replayWorkPosted := False, br_progress := COMPLETE\<rparr>"
  "replayWork_read P s = Inr (s', WorkSend i ops) \<Longrightarrow> br_progress s \<noteq> ABORTED \<and> nBufferedOps s \<noteq> nReplayOpsIssued s"
  by (auto simp: replayWork_read_def Let_def bindR_eq_Inr split: if_splits)

lemma file_inv_step:
  assumes "sprotocol_ok P" "br_step P S S'" "file_inv P S"
  shows "file_inv P S'"
  using assms(2)
proof cases
  case (buffer ret op s' err)
  then show ?thesis
    using assms(3) by (auto simp: file_inv_def br_ops split: if_splits)
next
  case (work_send s' i ops)
  obtain n where n: "nReplayOpsIssued (br S) = int n" "n \<le> length (accepted S)" "concat (map snd (sent S)) = take n (accepted S)"
    using assms(3) by (auto simp: file_inv_def)
  let ?k = "batch_size (br S)"
  note r = read_work[OF assms(1,3) n(1)] read_work_end(3)[OF work_send(4)]
  then have s': "s' = (br S)\<lparr>replayWorkPosted := False, unread := concat (map (op_bytes P) (drop (n + ?k) (accepted S))),
      nOutstandingReplayOps := int ?k, nReplayOpsIssued := int (n + ?k)\<rparr>" "ops = take ?k (drop n (accepted S))"
    using work_send(4) by simp_all
  have "take n (accepted S) @ ops = take (n + ?k) (accepted S)"
    by (simp add: s'(2) take_add)
  then show ?thesis
    using assms(3) n r s' by (auto simp: file_inv_def work_send(1) simp del: of_nat_add intro!: exI[of _ "n + ?k"])
next
  case (notify cnt s')
  then show ?thesis using assms(3) by (auto simp: file_inv_def br_ops)
next
  case (work_check s' cb)
  then show ?thesis using assms(3) by (auto simp: file_inv_def br_ops split: if_splits)
qed (use assms(3) in \<open>auto simp: file_inv_def br_ops split: if_splits dest!: read_work_end\<close>)

lemma count_inv_step:
  assumes "sprotocol_ok P" "br_step P S S'" "file_inv P S" "count_inv cnt S"
  shows "count_inv cnt S'"
  using assms(2)
proof cases
  case (work_send s' i ops)
  obtain n where n: "nReplayOpsIssued (br S) = int n"
    using assms(3) by (auto simp: file_inv_def)
  note r = read_work[OF assms(1,3) n] read_work_end(3)[OF work_send(4)]
  then have "s' = (br S)\<lparr>replayWorkPosted := False, unread := concat (map (op_bytes P) (drop (n + batch_size (br S)) (accepted S))),
      nOutstandingReplayOps := int (batch_size (br S)), nReplayOpsIssued := int (n + batch_size (br S))\<rparr>"
    using work_send(4) by simp
  then show ?thesis
    using assms(4) n work_send(2) by (auto simp: count_inv_def work_send(1) batch_size_def split: if_splits)
next
  case (buffer ret op s' err)
  then show ?thesis using assms(4) by (simp add: count_inv_def br_ops split: if_splits) auto
next
  case (start s' post)
  then show ?thesis using assms(4) by (auto simp: count_inv_def br_ops split: if_splits)
next
  case (notify c s')
  then show ?thesis using assms(4) by (auto simp: count_inv_def br_ops split: if_splits)
next
  case (work_aborted s')
  then show ?thesis using assms(4) by (auto simp: count_inv_def split: if_splits dest!: read_work_end(1))
next
  case (work_complete s')
  then show ?thesis using assms(4) by (auto simp: count_inv_def split: if_splits dest!: read_work_end(2))
next
  case (abort s' cb)
  then show ?thesis using assms(4) by (auto simp: count_inv_def br_ops split: if_splits)
next
  case (work_check s' cb)
  then show ?thesis using assms(4) by (auto simp: count_inv_def br_ops split: if_splits)
qed

lemma progress_inv_step:
  assumes "sprotocol_ok P" "br_step P S S'" "file_inv P S" "count_inv cnt S" "progress_inv S" "0 < cnt"
  shows "progress_inv S'"
  using assms(2)
proof cases
  case (buffer ret op s' err)
  then show ?thesis
    using assms(3-5) by (cases "br_progress (br S)") (auto simp: progress_inv_def count_inv_def file_inv_def br_ops split: if_splits)
next
  case (abort s' cb)
  then show ?thesis
    using assms(4,5) by (cases "br_progress (br S)") (auto simp: progress_inv_def count_inv_def br_ops split: if_splits)
next
  case (start s' post)
  then show ?thesis
    using assms(5) by (cases "br_progress (br S)") (auto simp: progress_inv_def br_ops split: if_splits)
next
  case (notify c s')
  then show ?thesis
    using assms(5) by (cases "br_progress (br S)") (auto simp: progress_inv_def br_ops split: if_splits)
next
  case (work_aborted s')
  then show ?thesis
    using assms(4,5) by (auto simp: progress_inv_def count_inv_def Let_def split: if_splits dest!: read_work_end(1))
next
  case (work_complete s')
  then show ?thesis
    using assms(4,5) by (cases "br_progress (br S)") (auto simp: progress_inv_def count_inv_def Let_def split: if_splits dest!: read_work_end(2))
next
  case (work_send s' i ops)
  obtain n where n: "nReplayOpsIssued (br S) = int n"
    using assms(3) by (auto simp: file_inv_def)
  note r = read_work[OF assms(1,3) n] read_work_end(3)[OF work_send(4)]
  then have s': "s' = (br S)\<lparr>replayWorkPosted := False, unread := concat (map (op_bytes P) (drop (n + batch_size (br S)) (accepted S))),
      nOutstandingReplayOps := int (batch_size (br S)), nReplayOpsIssued := int (n + batch_size (br S))\<rparr>"
    using work_send(4) by simp
  have "0 < batch_size (br S)"
    using r assms(3,4,6) n by (auto simp: batch_size_def file_inv_def count_inv_def)
  then show ?thesis
    using r(3) assms(4,5) work_send(2,3) by (cases "br_progress (br S)") (auto simp: progress_inv_def count_inv_def Let_def work_send(1) s' split: if_splits)
next
  case (work_check s' cb)
  then show ?thesis
    using assms(4,5) by (cases "br_progress (br S)") (auto simp: progress_inv_def count_inv_def br_ops split: if_splits)
qed

lemma br_run:
  assumes "sprotocol_ok P" "0 < cnt" "(br_step P)\<^sup>*\<^sup>* (br_start cnt) S"
  shows "file_inv P S \<and> count_inv cnt S \<and> progress_inv S"
  using assms(3)
proof (induction rule: rtranclp_induct)
  case base
  then show ?case
    using assms(2) by (simp add: br_start_def BufferReplay_init_def BufferReplay_new_def file_inv_def count_inv_def progress_inv_def)
next
  case (step S S')
  then show ?case
    using file_inv_step[OF assms(1) step(2)] count_inv_step[OF assms(1) step(2)] progress_inv_step[OF assms(1) step(2) _ _ _ assms(2)] by blast
qed



section \<open>Two findings\<close>

text \<open>
  The flag is read outside the lock: if two clients acknowledge the last two operations of a
  batch and both have counted before either reads the flag, both post the work.
\<close>

lemma notify_race_posts_twice:
  assumes "nOutstandingReplayOps s = 2" "\<not> replayWorkPosted s"
  shows "let s1 = notify_count 1 s; s2 = notify_count 1 s1 in
    \<not> notify_posts s1 \<and> notify_posts s2 \<and> nOutstandingReplayOps s2 = 0"
  using assms by (simp add: br_ops)

text \<open>
  After a failed write the object is aborted, and neither that write nor a later \<^verbatim>\<open>abort\<close> nor
  \<^verbatim>\<open>startReplay\<close> makes the progress callback \<^verbatim>\<open>abort\<close> promises.
\<close>

lemma write_failure_silent:
  assumes "BufferReplay_buffer P ret op s = (s', ERR_DISK_WRITE_FAILED)"
  shows "snd (BufferReplay_abort s') = [] \<and> startReplay s' = (s', False)"
  using assms by (auto simp: br_ops split: if_splits)

end
