(* ===== verification/Catalog_Key.thy ===== *)
theory Catalog_Key
  imports Object_Id Serialize "HOL-Library.List_Lexorder" "HOL-Library.Product_Lexorder"
begin

text \<open>
  The keys of the volume catalogs, \<^verbatim>\<open>lib/catalogKeys\<close> and \<^verbatim>\<open>include/catalogKeys\<close>. A key is
  a byte string whose first byte is its type; the typed classes read their fields out of
  the bytes behind it, and \<^verbatim>\<open>CatalogKeyComparator\<close> is the order leveldb keeps the entries
  in. Strings are byte lists; \<^verbatim>\<open>std::string\<close> orders them lexicographically by unsigned byte,
  which is the list order here. Integers are stored as they lie in memory, low byte first.
\<close>

section \<open>Key types\<close>

datatype CatalogKeyType =
    KEY_ERROR | JOURNAL_TIMESTAMP | VOLUME_METADATA | BLOB_METADATA | BLOB_OBJECTS
  | OBJECT_EXPUNGE | OBJECT_RANK | EXTENDED

fun key_code :: "CatalogKeyType \<Rightarrow> u8" where
  "key_code KEY_ERROR = 0"
| "key_code JOURNAL_TIMESTAMP = 1"
| "key_code VOLUME_METADATA = 2"
| "key_code BLOB_METADATA = 3"
| "key_code BLOB_OBJECTS = 4"
| "key_code OBJECT_EXPUNGE = 5"
| "key_code OBJECT_RANK = 6"
| "key_code EXTENDED = 255"

definition key_type :: "u8 \<Rightarrow> CatalogKeyType option" where
  "key_type b = find (\<lambda>t. key_code t = b)
     [KEY_ERROR, JOURNAL_TIMESTAMP, VOLUME_METADATA, BLOB_METADATA, BLOB_OBJECTS,
      OBJECT_EXPUNGE, OBJECT_RANK, EXTENDED]"

lemma key_type_code [simp]: "key_type (key_code t) = Some t"
  by (cases t) (simp_all add: key_type_def)

section \<open>Constructors and fields\<close>

type_synonym bytes = "u8 list"

definition CatalogKey_new :: "CatalogKeyType \<Rightarrow> bytes \<Rightarrow> bytes" where
  "CatalogKey_new keyType data = (if data = [] then [key_code keyType] else data[0 := key_code keyType])"

definition le_bytes :: "nat \<Rightarrow> 'a::len word \<Rightarrow> bytes" where
  "le_bytes n v = rev (be_write n v)"

definition le_value :: "bytes \<Rightarrow> 'a::len word" where
  "le_value bs = be_value (rev bs)"

lemma length_le_bytes [simp]: "length (le_bytes n v) = n"
  by (simp add: le_bytes_def)

lemma le_value_bytes:
  fixes v :: "'a::len word"
  shows "LENGTH('a) = 8 * n \<Longrightarrow> le_value (le_bytes n v) = v"
  using take_bit_length_eq[of v] by (simp add: le_value_def le_bytes_def be_value_write)

text \<open>
  \<^verbatim>\<open>string(getNewDataSize(), '\0')\<close> is one zero byte; with braces,
  \<^verbatim>\<open>string{getNewDataSize(), '\0'}\<close> is the two-byte list of the characters 1 and 0.
\<close>

definition getNewDataSize :: nat where
  "getNewDataSize = 1"

definition JournalTimestampKey :: bytes where
  "JournalTimestampKey = CatalogKey_new JOURNAL_TIMESTAMP (replicate getNewDataSize 0)"

definition VolumeMetadataKey :: bytes where
  "VolumeMetadataKey = CatalogKey_new VOLUME_METADATA [of_nat getNewDataSize, 0]"

definition BlobMetadataKey :: "bytes \<Rightarrow> bytes" where
  "BlobMetadataKey blobName = CatalogKey_new BLOB_METADATA (replicate getNewDataSize 0 @ blobName)"

definition BlobMetadataKey_getBlobName :: "bytes \<Rightarrow> bytes" where
  "BlobMetadataKey_getBlobName data = drop getNewDataSize data"

definition BlobObjectKey_size :: nat where
  "BlobObjectKey_size = getNewDataSize + 4"

definition BlobObjectKey :: "bytes \<Rightarrow> u32 \<Rightarrow> bytes" where
  "BlobObjectKey blobName objectIndex =
     CatalogKey_new BLOB_OBJECTS (replicate getNewDataSize 0 @ le_bytes 4 objectIndex @ blobName)"

definition BlobObjectKey_slice :: "bytes \<Rightarrow> bytes res" where
  "BlobObjectKey_slice leveldbKey =
     (if length leveldbKey < BlobObjectKey_size then Inl Exn else Inr leveldbKey)"

definition BlobObjectKey_getBlobName :: "bytes \<Rightarrow> bytes" where
  "BlobObjectKey_getBlobName data = drop BlobObjectKey_size data"

definition getObjectIndex :: "bytes \<Rightarrow> u32" where
  "getObjectIndex data = le_value (take 4 (drop getNewDataSize data))"

definition setBlobName :: "bytes \<Rightarrow> bytes \<Rightarrow> bytes" where
  "setBlobName data value = take BlobObjectKey_size data @ value"

definition setObjectIndex :: "bytes \<Rightarrow> u32 \<Rightarrow> bytes" where
  "setObjectIndex data value =
     take getNewDataSize data @ le_bytes 4 value @ drop (getNewDataSize + 4) data"

text \<open>
  \<^verbatim>\<open>ObjectID(objId, length)\<close> copies \<^verbatim>\<open>length\<close> bytes over a digest nobody initialised: \<open>junk\<close>.
  A rank key has two bytes in front of the digest, so reading it back takes 21 bytes from
  the second one. The constructor of an expunge key turns the volume's number into an
  address and copies the eight bytes found there: \<open>mem\<close> says what is readable.
\<close>

definition ObjectRankKey :: "ObjectID \<Rightarrow> bytes" where
  "ObjectRankKey objectId = CatalogKey_new OBJECT_RANK ([of_nat getNewDataSize, 0] @ digest objectId)"

definition ObjectRankKey_getObjectId :: "ObjectID \<Rightarrow> bytes \<Rightarrow> ObjectID res" where
  "ObjectRankKey_getObjectId junk data =
     SetId junk (drop getNewDataSize data) (length data - getNewDataSize)"

definition ObjectExpungeKey :: "(u64 \<Rightarrow> bytes option) \<Rightarrow> u64 \<Rightarrow> ObjectID \<Rightarrow> bytes res" where
  "ObjectExpungeKey mem volumeId objectId =
     (case mem volumeId of
        None \<Rightarrow> Inl Undefined
      | Some bs \<Rightarrow> Inr (CatalogKey_new OBJECT_EXPUNGE
          ([of_nat getNewDataSize, 0] @ take 8 bs @ digest objectId)))"

definition ObjectExpungeKey_getObjectId :: "ObjectID \<Rightarrow> bytes \<Rightarrow> ObjectID res" where
  "ObjectExpungeKey_getObjectId junk data = SetId junk (drop getNewDataSize data) 8"

definition getVolumeId :: "bytes \<Rightarrow> u64 res" where
  "getVolumeId data =
     (if getNewDataSize + 8 + 8 \<le> length data
      then Inr (le_value (take 8 (drop (getNewDataSize + 8) data))) else Inl Undefined)"

section \<open>The order of the catalog\<close>

definition compareWithOperators :: "'a::ord \<Rightarrow> 'a \<Rightarrow> int" where
  "compareWithOperators lhs rhs = (if lhs < rhs then -1 else if lhs > rhs then 1 else 0)"

fun Compare_typed :: "ObjectID \<times> ObjectID \<Rightarrow> CatalogKeyType \<Rightarrow> bytes \<Rightarrow> bytes \<Rightarrow> int res" where
  "Compare_typed junk BLOB_METADATA lhs rhs =
     Inr (compareWithOperators (BlobMetadataKey_getBlobName lhs) (BlobMetadataKey_getBlobName rhs))"
| "Compare_typed junk BLOB_OBJECTS lhs rhs =
     bindR (BlobObjectKey_slice lhs) (\<lambda>typedLhs.
     bindR (BlobObjectKey_slice rhs) (\<lambda>typedRhs.
       let blobNameResult = compareWithOperators (BlobObjectKey_getBlobName typedLhs)
             (BlobObjectKey_getBlobName typedRhs)
       in Inr (if blobNameResult = 0
               then compareWithOperators (getObjectIndex typedLhs) (getObjectIndex typedRhs)
               else blobNameResult)))"
| "Compare_typed junk EXTENDED lhs rhs = Inl Exn"
| "Compare_typed junk JOURNAL_TIMESTAMP lhs rhs = Inr 0"
| "Compare_typed junk OBJECT_EXPUNGE lhs rhs =
     bindR (getVolumeId lhs) (\<lambda>lhsVolume.
     bindR (getVolumeId rhs) (\<lambda>rhsVolume.
       let volumeIdResult = compareWithOperators lhsVolume rhsVolume
       in if volumeIdResult = 0
          then bindR (ObjectExpungeKey_getObjectId (fst junk) lhs) (\<lambda>lhsObject.
               bindR (ObjectExpungeKey_getObjectId (snd junk) rhs) (\<lambda>rhsObject.
                 Inr (compareWithOperators lhsObject rhsObject)))
          else Inr volumeIdResult))"
| "Compare_typed junk OBJECT_RANK lhs rhs =
     bindR (ObjectRankKey_getObjectId (fst junk) lhs) (\<lambda>lhsObject.
     bindR (ObjectRankKey_getObjectId (snd junk) rhs) (\<lambda>rhsObject.
       Inr (compareWithOperators lhsObject rhsObject)))"
| "Compare_typed junk VOLUME_METADATA lhs rhs = Inr 0"
| "Compare_typed junk KEY_ERROR lhs rhs = Inl Exn"

definition Compare :: "ObjectID \<times> ObjectID \<Rightarrow> bytes \<Rightarrow> bytes \<Rightarrow> int res" where
  "Compare junk lhs rhs =
     (if lhs = [] \<or> rhs = [] then Inl Exn
      else if hd lhs = key_code KEY_ERROR \<or> hd rhs = key_code KEY_ERROR then Inl Exn
      else let keyTypeResult = compareWithOperators (hd lhs) (hd rhs)
           in if keyTypeResult = 0
              then (case key_type (hd lhs) of
                      Some lhsKeyType \<Rightarrow> Compare_typed junk lhsKeyType lhs rhs
                    | None \<Rightarrow> Inl Exn)
              else Inr keyTypeResult)"

text \<open>
  \<^verbatim>\<open>getIncremented\<close> compares a \<^verbatim>\<open>char\<close>, which is signed on the platform, with 255.
\<close>

fun lastIncrementable :: "bytes \<Rightarrow> nat \<Rightarrow> nat" where
  "lastIncrementable blobName 0 = 0"
| "lastIncrementable blobName (Suc i) =
     (if sint (blobName ! i) = 255 then lastIncrementable blobName i else Suc i)"

definition getIncremented :: "bytes \<Rightarrow> bytes" where
  "getIncremented key =
     (let blobName = BlobMetadataKey_getBlobName key
      in if blobName = [] then BlobMetadataKey []
         else let n = lastIncrementable blobName (length blobName)
              in if n = 0 then BlobMetadataKey []
                 else BlobMetadataKey (take n (blobName[n - 1 := blobName ! (n - 1) + 1])))"

section \<open>The entries of a volume catalog\<close>

text \<open>
  The keys the data manager stores in a catalog, and the order it expects them in: by type,
  then by blob name, then by the index of the object in the blob.
\<close>

datatype catalog_key = JournalEntry | VolumeEntry | BlobEntry bytes | ObjectEntry bytes u32

fun encode_key :: "catalog_key \<Rightarrow> bytes" where
  "encode_key JournalEntry = JournalTimestampKey"
| "encode_key VolumeEntry = VolumeMetadataKey"
| "encode_key (BlobEntry blobName) = BlobMetadataKey blobName"
| "encode_key (ObjectEntry blobName objectIndex) = BlobObjectKey blobName objectIndex"

fun key_order :: "catalog_key \<Rightarrow> u8 \<times> bytes \<times> u32" where
  "key_order JournalEntry = (1, [], 0)"
| "key_order VolumeEntry = (2, [], 0)"
| "key_order (BlobEntry blobName) = (3, blobName, 0)"
| "key_order (ObjectEntry blobName objectIndex) = (4, blobName, objectIndex)"

lemmas key_layout = JournalTimestampKey_def VolumeMetadataKey_def BlobMetadataKey_def BlobObjectKey_def
  CatalogKey_new_def getNewDataSize_def BlobObjectKey_size_def

lemma BlobMetadataKey_fields [simp]: "BlobMetadataKey_getBlobName (BlobMetadataKey blobName) = blobName"
  by (simp add: key_layout BlobMetadataKey_getBlobName_def)

lemma BlobObjectKey_fields [simp]:
  "BlobObjectKey_getBlobName (BlobObjectKey blobName objectIndex) = blobName"
  "getObjectIndex (BlobObjectKey blobName objectIndex) = objectIndex"
  "BlobObjectKey_slice (BlobObjectKey blobName objectIndex) = Inr (BlobObjectKey blobName objectIndex)"
  by (simp_all add: key_layout BlobObjectKey_getBlobName_def getObjectIndex_def BlobObjectKey_slice_def
      le_value_bytes)

lemma setObjectIndex_key [simp]:
  "setObjectIndex (BlobObjectKey blobName i) objectIndex = BlobObjectKey blobName objectIndex"
  by (simp add: key_layout setObjectIndex_def)

lemma setBlobName_key: "setBlobName (BlobObjectKey n i) blobName = BlobObjectKey blobName i"
  by (simp add: key_layout setBlobName_def)

lemma encode_key_shape: "\<exists>data. encode_key k = fst (key_order k) # data"
  by (cases k) (simp_all add: key_layout)

lemma key_order_inj: "key_order a = key_order b \<longleftrightarrow> a = b"
  by (cases a; cases b) simp_all

lemma compareWithOperators_simps [simp]:
  fixes a b :: "'a::linorder"
  shows "compareWithOperators a b = 0 \<longleftrightarrow> a = b"
    and "compareWithOperators a b < 0 \<longleftrightarrow> a < b"
    and "0 < compareWithOperators a b \<longleftrightarrow> b < a"
    and "compareWithOperators a b \<le> 0 \<longleftrightarrow> a \<le> b"
  by (auto simp: compareWithOperators_def)

lemma compareWithOperators_refl [simp]: "compareWithOperators a (a :: 'a::linorder) = 0"
  by simp

lemma compareWithOperators_pair:
  fixes a a' :: "'a::linorder" and b b' :: "'b::linorder"
  shows "compareWithOperators (a, b) (a', b') =
    (if compareWithOperators a a' = 0 then compareWithOperators b b' else compareWithOperators a a')"
  by (auto simp: compareWithOperators_def)

lemma Compare_heads:
  assumes "lhs = a # as" "rhs = b # bs" "a \<noteq> 0" "b \<noteq> 0" "a \<noteq> b"
  shows "Compare junk lhs rhs = Inr (compareWithOperators a b)"
  using assms by (simp add: Compare_def Let_def)

lemma Compare_same_type:
  assumes "lhs = key_code t # as" "rhs = key_code t # bs" "t \<noteq> KEY_ERROR"
  shows "Compare junk lhs rhs = Compare_typed junk t lhs rhs"
proof -
  have "key_code t \<noteq> 0"
    using assms(3) by (cases t) simp_all
  then show ?thesis
    using assms by (simp add: Compare_def Let_def)
qed

lemma Compare_encode:
  "Compare junk (encode_key a) (encode_key b) = Inr (compareWithOperators (key_order a) (key_order b))"
proof (cases "fst (key_order a) = fst (key_order b)")
  case False
  obtain as bs where "encode_key a = fst (key_order a) # as" "encode_key b = fst (key_order b) # bs"
    using encode_key_shape by blast
  moreover have "fst (key_order a) \<noteq> 0" "fst (key_order b) \<noteq> 0"
    by (cases a; simp) (cases b; simp)
  ultimately show ?thesis
    using False by (cases "key_order a"; cases "key_order b") (simp add: Compare_heads compareWithOperators_pair)
next
  case True
  have same: "Compare junk (encode_key k) (encode_key k') = Compare_typed junk t (encode_key k) (encode_key k')"
    if "fst (key_order k) = key_code t" "fst (key_order k') = key_code t" "t \<noteq> KEY_ERROR" for k k' t
    using that encode_key_shape[of k] encode_key_shape[of k'] by (metis Compare_same_type)
  from True show ?thesis
    using same[of JournalEntry JOURNAL_TIMESTAMP JournalEntry] same[of VolumeEntry VOLUME_METADATA VolumeEntry]
      same[of "BlobEntry n" BLOB_METADATA "BlobEntry n'" for n n']
      same[of "ObjectEntry n i" BLOB_OBJECTS "ObjectEntry n' i'" for n i n' i']
    by (cases a; cases b) (simp_all add: compareWithOperators_pair Let_def)
qed

lemma encode_key_inj: "encode_key a = encode_key b \<longleftrightarrow> a = b"
  using Compare_encode[of junk a b] Compare_encode[of junk a a] by (auto simp: key_order_inj)

section \<open>What leveldb asks of a comparator\<close>

text \<open>
  A total order in which only equal keys compare equal. Over entries kept in that order, a
  scan from \<^verbatim>\<open>Seek\<close> to a limit visits exactly the keys of the interval.
\<close>

locale leveldb_comparator =
  fixes cmp :: "'k \<Rightarrow> 'k \<Rightarrow> int"
  assumes cmp_eq: "cmp a b = 0 \<longleftrightarrow> a = b"
    and cmp_anti: "cmp a b < 0 \<longleftrightarrow> 0 < cmp b a"
    and cmp_trans: "cmp a b < 0 \<Longrightarrow> cmp b c < 0 \<Longrightarrow> cmp a c < 0"
begin

lemma cmp_less_le: "cmp a b < 0 \<Longrightarrow> cmp b c \<le> 0 \<Longrightarrow> cmp a c < 0"
  using cmp_eq[of b c] cmp_trans[of a b c] by (cases "cmp b c = 0") auto

lemma takeWhile_before:
  assumes "sorted_wrt (\<lambda>a b. cmp a b < 0) (map f es)"
  shows "takeWhile (\<lambda>e. cmp (f e) x < 0) es = filter (\<lambda>e. cmp (f e) x < 0) es"
    and "dropWhile (\<lambda>e. cmp (f e) x < 0) es = filter (\<lambda>e. \<not> cmp (f e) x < 0) es"
    and "takeWhile (\<lambda>e. cmp (f e) x \<le> 0) es = filter (\<lambda>e. cmp (f e) x \<le> 0) es"
  using assms
proof (induction es)
  case (Cons e es)
  {
    case 1
    then show ?case
      using Cons.IH(1) by (auto dest: cmp_trans simp: empty_filter_conv)
  next
    case 2
    then show ?case
      using Cons.IH(2) by (auto dest: cmp_trans intro!: filter_True[symmetric])
  next
    case 3
    then show ?case
      using Cons.IH(3) cmp_less_le by (auto simp: empty_filter_conv) (metis less_imp_le)+
  }
qed simp_all

lemma scan_range:
  assumes "sorted_wrt (\<lambda>a b. cmp a b < 0) (map f es)"
  shows "takeWhile (\<lambda>e. cmp (f e) hi < 0) (dropWhile (\<lambda>e. cmp (f e) lo < 0) es) =
      filter (\<lambda>e. \<not> cmp (f e) lo < 0 \<and> cmp (f e) hi < 0) es"
    and "takeWhile (\<lambda>e. cmp (f e) hi \<le> 0) (dropWhile (\<lambda>e. cmp (f e) lo < 0) es) =
      filter (\<lambda>e. \<not> cmp (f e) lo < 0 \<and> cmp (f e) hi \<le> 0) es"
proof -
  have sorted: "sorted_wrt (\<lambda>a b. cmp a b < 0) (map f (filter P es))" for P
    using assms by (simp add: sorted_wrt_map sorted_wrt_filter)
  show "takeWhile (\<lambda>e. cmp (f e) hi < 0) (dropWhile (\<lambda>e. cmp (f e) lo < 0) es) =
      filter (\<lambda>e. \<not> cmp (f e) lo < 0 \<and> cmp (f e) hi < 0) es"
    by (simp add: takeWhile_before(2)[OF assms] takeWhile_before(1)[OF sorted] conj_commute)
  show "takeWhile (\<lambda>e. cmp (f e) hi \<le> 0) (dropWhile (\<lambda>e. cmp (f e) lo < 0) es) =
      filter (\<lambda>e. \<not> cmp (f e) lo < 0 \<and> cmp (f e) hi \<le> 0) es"
    by (simp add: takeWhile_before(2)[OF assms] takeWhile_before(3)[OF sorted] conj_commute)
qed

end

definition catalog_cmp :: "catalog_key \<Rightarrow> catalog_key \<Rightarrow> int" where
  "catalog_cmp a b =
     (case Compare (NullObjectID, NullObjectID) (encode_key a) (encode_key b) of Inl _ \<Rightarrow> 0 | Inr r \<Rightarrow> r)"

lemma catalog_cmp_order: "catalog_cmp a b = compareWithOperators (key_order a) (key_order b)"
  by (simp add: catalog_cmp_def Compare_encode)

instantiation catalog_key :: linorder
begin

definition less_eq_catalog_key :: "catalog_key \<Rightarrow> catalog_key \<Rightarrow> bool" where
  "less_eq_catalog_key a b \<longleftrightarrow> key_order a \<le> key_order b"

definition less_catalog_key :: "catalog_key \<Rightarrow> catalog_key \<Rightarrow> bool" where
  "less_catalog_key a b \<longleftrightarrow> key_order a < key_order b"

instance
  by standard (auto simp: less_eq_catalog_key_def less_catalog_key_def less_le_not_le simp flip: key_order_inj)

end

lemma catalog_cmp_less: "catalog_cmp a b < 0 \<longleftrightarrow> a < b"
  by (simp add: catalog_cmp_order less_catalog_key_def)

interpretation catalog: leveldb_comparator catalog_cmp
  by unfold_locales (auto simp: catalog_cmp_order key_order_inj)

text \<open>
  C15. The comparator orders the entries of a volume catalog by type, blob name and object
  index: comparing two stored keys never throws, gives the sign of that order, and two
  keys compare equal only when they are the same entry. So the byte strings leveldb keeps
  are in the order the range scans of the catalog rely on, whatever the blob names contain.
\<close>

theorem Compare_exact:
  "Compare junk (encode_key a) (encode_key b) = Inr (compareWithOperators (key_order a) (key_order b)) \<and>
   (Compare junk (encode_key a) (encode_key b) = Inr 0 \<longleftrightarrow> a = b) \<and>
   (encode_key a = encode_key b \<longleftrightarrow> a = b)"
  by (simp add: Compare_encode key_order_inj encode_key_inj)

section \<open>Prefix ranges\<close>

lemma sint_u8_range: "sint (b :: u8) \<noteq> 255"
  using sint_less[of b] by simp

lemma getIncremented_name:
  assumes "blobName \<noteq> []"
  shows "getIncremented (BlobMetadataKey blobName) = BlobMetadataKey (butlast blobName @ [last blobName + 1])"
proof -
  obtain n where n: "length blobName = Suc n"
    using assms by (cases blobName) simp_all
  then have "lastIncrementable blobName (length blobName) = Suc n"
    by (simp add: sint_u8_range)
  then show ?thesis
    using assms n by (simp add: getIncremented_def Let_def butlast_conv_take last_conv_nth
        list_update_append1 upd_conv_take_nth_drop)
qed

lemma u8_between:
  assumes "c \<noteq> (255 :: u8)"
  shows "\<not> x < c \<and> x < c + 1 \<longleftrightarrow> x = c"
proof -
  have "unat c \<noteq> 255"
    using assms by (metis of_nat_numeral of_nat_unat_u8)
  then have "unat c + unat (1 :: u8) < 2 ^ LENGTH(8)"
    using unat_u8_lt[of c] by (simp del: unat_u8_lt unat_u8_le)
  then have "unat (c + 1) = unat c + 1"
    by (simp add: unat_add_lem[THEN iffD1])
  then show ?thesis
    by (auto simp: word_less_nat_alt not_less less_Suc_eq_le intro: word_unat_eq_iff[THEN iffD2, OF antisym])
qed

lemma append_le [simp]: "p @ xs \<le> p @ ys \<longleftrightarrow> xs \<le> (ys :: 'a::linorder list)"
  by (induction p) simp_all

lemma prefix_interval:
  assumes "p \<noteq> []" "last p \<noteq> (255 :: u8)"
  shows "\<not> s < p \<and> s < butlast p @ [last p + 1] \<longleftrightarrow> take (length p) s = p"
  using assms
proof (induction p arbitrary: s)
  case (Cons c p)
  show ?case
  proof (cases s)
    case (Cons x xs)
    show ?thesis
    proof (cases "p = []")
      case True
      then show ?thesis
        using Cons Cons.prems u8_between[of c x] by auto
    next
      case False
      then show ?thesis
        using Cons Cons.prems Cons.IH[of xs] by auto
    qed
  qed simp
qed simp

text \<open>
  C16. The half-open key range that a listing by prefix scans, from the key of the prefix to
  its increment, holds exactly the names with that prefix if and only if the prefix does
  not end in the byte 255. A prefix that does end in it has a range that misses even the
  prefix itself: the increment wraps to a smaller key, the guard against it never being
  true of a signed character.
\<close>

theorem prefix_range_exact:
  assumes "prefix \<noteq> []"
  shows "(\<forall>blobName.
       (Compare junk (BlobMetadataKey blobName) (BlobMetadataKey prefix) \<noteq> Inr (-1) \<and>
        Compare junk (BlobMetadataKey blobName) (getIncremented (BlobMetadataKey prefix)) = Inr (-1)) =
       (take (length prefix) blobName = prefix)) \<longleftrightarrow> last prefix \<noteq> 255"
proof -
  have before: "Compare junk (BlobMetadataKey a) (BlobMetadataKey b) = Inr (-1) \<longleftrightarrow> a < b" for a b
    using Compare_encode[of junk "BlobEntry a" "BlobEntry b"] by (simp add: compareWithOperators_def)
  have "\<not> prefix < butlast prefix @ [last prefix + 1]" if "last prefix = 255"
  proof -
    have "butlast prefix @ [last prefix + 1] \<le> butlast prefix @ [last prefix]"
      using that by simp
    then show ?thesis
      using assms by simp
  qed
  then show ?thesis
    using assms prefix_interval[of prefix] by (auto simp: getIncremented_name before)
qed

theorem prefix_range_exact_witness:
  "[97, 47] \<noteq> ([] :: u8 list) \<and> last [97, 47] \<noteq> (255 :: u8) \<and>
   Compare (NullObjectID, NullObjectID) (BlobMetadataKey [97, 47, 98])
     (getIncremented (BlobMetadataKey [97, 47])) = Inr (-1)"
proof -
  have "last [97, 47] \<noteq> (255 :: u8)"
    by simp
  then show ?thesis
    using prefix_range_exact[of "[97, 47]" "(NullObjectID, NullObjectID)", THEN iffD2,
        THEN spec[of _ "[97, 47, 98]"]] by fastforce
qed

text \<open>A rank key cannot be read back: its two leading bytes leave 21 bytes for a digest of 20.\<close>

lemma ObjectRankKey_unreadable: "ObjectRankKey_getObjectId junk (ObjectRankKey oid) = Inl Undefined"
  by (simp add: ObjectRankKey_getObjectId_def ObjectRankKey_def CatalogKey_new_def getNewDataSize_def
      SetId_def OBJECTID_DIGESTLEN_def)

lemma ObjectRankKey_uncomparable: "Compare junk (ObjectRankKey a) (ObjectRankKey b) = Inl Undefined"
proof -
  have "\<exists>data. ObjectRankKey c = key_code OBJECT_RANK # data" for c
    by (simp add: ObjectRankKey_def CatalogKey_new_def)
  then show ?thesis
    by (metis Compare_same_type CatalogKeyType.distinct(11) Compare_typed.simps(6) ObjectRankKey_unreadable bindR_simps(1))
qed

text \<open>An expunge key is read back with the two fields in the wrong places.\<close>

lemma ObjectExpungeKey_swapped:
  assumes "ObjectExpungeKey mem volumeId objectId = Inr data" "mem volumeId = Some bs" "length bs = 8"
  shows "getVolumeId data = Inr (le_value (last bs # take 7 (digest objectId)))"
  using assms length_digest[of objectId] by (auto simp: ObjectExpungeKey_def CatalogKey_new_def getNewDataSize_def
      getVolumeId_def numeral_eq_Suc length_Suc_conv)

end
