(* ===== verification/Blob_Types.thy ===== *)
theory Blob_Types
  imports Catalog_Key Ordered_Map
begin

text \<open>
  The blob data of the data manager, \<^verbatim>\<open>data-mgr/dm-lib/DmBlobTypes.cpp\<close> and
  \<^verbatim>\<open>data-mgr/include/DmBlobTypes.h\<close>: metadata lists, blob and volume descriptors, and the
  map from the offsets of a blob to the objects that hold its data. The lists are
  \<^verbatim>\<open>std::map\<close>s, modelled by sorted association lists; the messages they are built from and
  copied to are lists. Each class has its serialized form, shown to read back as written.
\<close>

section \<open>Metadata lists\<close>

type_synonym MetaDataList = "(bytes, bytes) omap"

definition MetaDataList_of :: "(bytes \<times> bytes) list \<Rightarrow> MetaDataList" where
  "MetaDataList_of mlist = omap_inserts mlist []"

definition updateMetaDataPair :: "bytes \<Rightarrow> bytes \<Rightarrow> MetaDataList \<Rightarrow> MetaDataList" where
  "updateMetaDataPair key val m = omap_insert key val m"

definition MetaDataList_toFdspPayload :: "MetaDataList \<Rightarrow> (bytes \<times> bytes) list" where
  "MetaDataList_toFdspPayload m = map (\<lambda>(key, val). (key, val)) m"

definition MetaDataList_merge :: "MetaDataList \<Rightarrow> MetaDataList \<Rightarrow> MetaDataList" where
  "MetaDataList_merge m rhs = omap_puts rhs m"

definition MetaDataList_write :: "'p bprotocol_scheme \<Rightarrow> MetaDataList \<Rightarrow> bytes" where
  "MetaDataList_write P m =
     writeI32 P (of_nat (length m)) @ concat (map (\<lambda>(key, val). writeString P key @ writeString P val) m)"

definition MetaDataList_read :: "'p bprotocol_scheme \<Rightarrow> MetaDataList reader" where
  "MetaDataList_read P =
     rbind (rd (readI32 P)) (\<lambda>size.
     rbind (rtimes (unat size)
       (rbind (rd (readString P)) (\<lambda>key.
        rbind (rd (readString P)) (\<lambda>val. rlift (Inr (key, val)))))) (\<lambda>kvs.
     rlift (Inr (omap_inserts kvs []))))"

definition MetaDataList_eq :: "MetaDataList \<Rightarrow> MetaDataList \<Rightarrow> bool" where
  "MetaDataList_eq m rhs \<longleftrightarrow> length m = length rhs \<and> list_all2 (=) m rhs"

text \<open>What fits in the serialized form: strings and counts below the limits of their length fields.\<close>

definition string_ok :: "bytes \<Rightarrow> bool" where
  "string_ok s \<longleftrightarrow> length s < 2 ^ 31"

definition MetaDataList_ok :: "MetaDataList \<Rightarrow> bool" where
  "MetaDataList_ok m \<longleftrightarrow> omap_ok m \<and> length m < 2 ^ 32 \<and> (\<forall>(key, val)\<in>set m. string_ok key \<and> string_ok val)"

lemma MetaDataList_eq_iff: "MetaDataList_eq m rhs \<longleftrightarrow> m = rhs"
  by (simp add: MetaDataList_eq_def list.rel_eq) blast

lemma MetaDataList_of_toFdspPayload:
  "omap_ok m \<Longrightarrow> MetaDataList_of (MetaDataList_toFdspPayload m) = m"
  by (simp add: MetaDataList_of_def MetaDataList_toFdspPayload_def omap_rebuild case_prod_eta)

lemma reads_MetaDataList [reads_intros]:
  assumes "bprotocol_ok P" "MetaDataList_ok m"
  shows "reads (MetaDataList_read P) (MetaDataList_write P m) m"
proof -
  have P: "tprotocol_ok P"
    using assms(1) by (auto intro: reads_intros)
  let ?pair = "rbind (rd (readString P)) (\<lambda>key. rbind (rd (readString P)) (\<lambda>val. rlift (Inr (key, val))))"
  have "reads ?pair (case kv of (key, val) \<Rightarrow> writeString P key @ writeString P val) kv" if "kv \<in> set m" for kv
  proof -
    obtain key val where kv: "kv = (key, val)"
      by (cases kv)
    then have "length key < 2 ^ 31" "length val < 2 ^ 31"
      using that assms(2) by (auto simp: MetaDataList_ok_def string_ok_def)
    then show ?thesis
      unfolding kv prod.case by (intro reads_then reads_last assms(1))
  qed
  then show ?thesis
    unfolding MetaDataList_read_def MetaDataList_write_def
    by (rule reads_counted[OF P]) (use assms(2) in \<open>simp_all add: omap_rebuild MetaDataList_ok_def\<close>)
qed

text \<open>A pair whose key is already there is not updated.\<close>

lemma updateMetaDataPair_keeps:
  "omap_ok m \<Longrightarrow> map_of m key = Some old \<Longrightarrow> map_of (updateMetaDataPair key val m) key = Some old"
  by (simp add: updateMetaDataPair_def map_of_omap_insert)

section \<open>Descriptors\<close>

record BasicBlobMeta =
  blob_name :: bytes
  bm_version :: u64
  bm_sequence_id :: u64
  blob_size :: u64

definition BasicBlobMeta_new :: BasicBlobMeta where
  "BasicBlobMeta_new = \<lparr>blob_name = [], bm_version = 0, bm_sequence_id = 0, blob_size = 0\<rparr>"

definition BasicBlobMeta_write :: "'p bprotocol_scheme \<Rightarrow> BasicBlobMeta \<Rightarrow> bytes" where
  "BasicBlobMeta_write P d =
     writeString P (blob_name d) @ writeI64 P (bm_version d) @ writeI64 P (bm_sequence_id d) @
     writeI64 P (blob_size d)"

definition BasicBlobMeta_read :: "'p bprotocol_scheme \<Rightarrow> BasicBlobMeta reader" where
  "BasicBlobMeta_read P =
     rbind (rd (readString P)) (\<lambda>name.
     rbind (rd (readI64 P)) (\<lambda>version.
     rbind (rd (readI64 P)) (\<lambda>sequence_id.
     rbind (rd (readI64 P)) (\<lambda>size.
     rlift (Inr \<lparr>blob_name = name, bm_version = version, bm_sequence_id = sequence_id, blob_size = size\<rparr>)))))"

definition BasicBlobMeta_eq :: "BasicBlobMeta \<Rightarrow> BasicBlobMeta \<Rightarrow> bool" where
  "BasicBlobMeta_eq d rhs \<longleftrightarrow> blob_name d = blob_name rhs \<and> bm_version d = bm_version rhs \<and>
     bm_sequence_id d = bm_sequence_id rhs \<and> blob_size d = blob_size rhs"

record BlobMetaDesc =
  bd_desc :: BasicBlobMeta
  bd_meta_list :: MetaDataList

definition BlobMetaDesc_write :: "'p bprotocol_scheme \<Rightarrow> BlobMetaDesc \<Rightarrow> bytes" where
  "BlobMetaDesc_write P b = BasicBlobMeta_write P (bd_desc b) @ MetaDataList_write P (bd_meta_list b)"

definition BlobMetaDesc_read :: "'p bprotocol_scheme \<Rightarrow> BlobMetaDesc reader" where
  "BlobMetaDesc_read P =
     rbind (BasicBlobMeta_read P) (\<lambda>d. rbind (MetaDataList_read P) (\<lambda>m.
     rlift (Inr \<lparr>bd_desc = d, bd_meta_list = m\<rparr>)))"

definition BlobMetaDesc_eq :: "BlobMetaDesc \<Rightarrow> BlobMetaDesc \<Rightarrow> bool" where
  "BlobMetaDesc_eq b rhs \<longleftrightarrow> BasicBlobMeta_eq (bd_desc b) (bd_desc rhs) \<and>
     MetaDataList_eq (bd_meta_list b) (bd_meta_list rhs)"

definition BlobMetaDesc_ok :: "BlobMetaDesc \<Rightarrow> bool" where
  "BlobMetaDesc_ok b \<longleftrightarrow> string_ok (blob_name (bd_desc b)) \<and> MetaDataList_ok (bd_meta_list b)"

record VolumeMetaDesc =
  vd_sequence_id :: u64
  vd_meta_list :: MetaDataList

definition VolumeMetaDesc_new :: "(bytes \<times> bytes) list \<Rightarrow> u64 \<Rightarrow> VolumeMetaDesc" where
  "VolumeMetaDesc_new metadataList seq_id =
     \<lparr>vd_sequence_id = seq_id, vd_meta_list = MetaDataList_of metadataList\<rparr>"

definition VolumeMetaDesc_write :: "'p bprotocol_scheme \<Rightarrow> VolumeMetaDesc \<Rightarrow> bytes" where
  "VolumeMetaDesc_write P v = writeI64 P (vd_sequence_id v) @ MetaDataList_write P (vd_meta_list v)"

definition VolumeMetaDesc_read :: "'p bprotocol_scheme \<Rightarrow> VolumeMetaDesc reader" where
  "VolumeMetaDesc_read P =
     rbind (rd (readI64 P)) (\<lambda>sequence_id. rbind (MetaDataList_read P) (\<lambda>m.
     rlift (Inr \<lparr>vd_sequence_id = sequence_id, vd_meta_list = m\<rparr>)))"

definition VolumeMetaDesc_eq :: "VolumeMetaDesc \<Rightarrow> VolumeMetaDesc \<Rightarrow> bool" where
  "VolumeMetaDesc_eq v rhs \<longleftrightarrow> MetaDataList_eq (vd_meta_list v) (vd_meta_list rhs)"

lemma reads_BasicBlobMeta [reads_intros]:
  assumes "bprotocol_ok P" "string_ok (blob_name d)"
  shows "reads (BasicBlobMeta_read P) (BasicBlobMeta_write P d) d"
proof -
  have "reads (BasicBlobMeta_read P) (BasicBlobMeta_write P d)
      \<lparr>blob_name = blob_name d, bm_version = bm_version d, bm_sequence_id = bm_sequence_id d, blob_size = blob_size d\<rparr>"
    unfolding BasicBlobMeta_read_def BasicBlobMeta_write_def using assms(2)
    by (intro reads_then reads_last assms(1)) (simp add: string_ok_def)
  then show ?thesis by (cases d) simp
qed

lemma reads_BlobMetaDesc [reads_intros]:
  assumes "bprotocol_ok P" "BlobMetaDesc_ok b"
  shows "reads (BlobMetaDesc_read P) (BlobMetaDesc_write P b) b"
proof -
  have "reads (BlobMetaDesc_read P) (BlobMetaDesc_write P b) \<lparr>bd_desc = bd_desc b, bd_meta_list = bd_meta_list b\<rparr>"
    unfolding BlobMetaDesc_read_def BlobMetaDesc_write_def using assms
    by (intro reads_rbind[OF reads_BasicBlobMeta] reads_rbind_rlift[OF reads_MetaDataList]) (simp_all add: BlobMetaDesc_ok_def)
  then show ?thesis by (cases b) simp
qed

lemma reads_VolumeMetaDesc [reads_intros]:
  assumes "bprotocol_ok P" "MetaDataList_ok (vd_meta_list v)"
  shows "reads (VolumeMetaDesc_read P) (VolumeMetaDesc_write P v) v"
proof -
  have "reads (VolumeMetaDesc_read P) (VolumeMetaDesc_write P v)
      \<lparr>vd_sequence_id = vd_sequence_id v, vd_meta_list = vd_meta_list v\<rparr>"
    unfolding VolumeMetaDesc_read_def VolumeMetaDesc_write_def using assms
    by (intro reads_then reads_rbind_rlift[OF reads_MetaDataList])
  then show ?thesis by (cases v) simp
qed

lemma BlobMetaDesc_eq_iff: "BlobMetaDesc_eq b rhs \<longleftrightarrow> b = rhs"
  by (auto simp: BlobMetaDesc_eq_def BasicBlobMeta_eq_def MetaDataList_eq_iff)

text \<open>Volume descriptors of different sequence numbers are equal.\<close>

lemma VolumeMetaDesc_eq_ignores_sequence: "VolumeMetaDesc_eq v (v\<lparr>vd_sequence_id := n\<rparr>)"
  by (simp add: VolumeMetaDesc_eq_def MetaDataList_eq_iff)

section \<open>Object lists\<close>

text \<open>
  The objects of a blob by offset. In the messages an object is a record of offset, digest
  and size, the two integers being \<^verbatim>\<open>i64\<close>.
\<close>

record FDSP_BlobObjectInfo =
  fo_offset :: u64
  fo_digest :: bytes
  fo_size :: u64

record BlobObjInfo =
  obj_oid :: ObjectID
  obj_size :: u64

record BlobObjList =
  bl_objs :: "(u64, BlobObjInfo) omap"
  end_of_blob :: bool

definition ObjectID_write :: "'p bprotocol_scheme \<Rightarrow> ObjectID \<Rightarrow> bytes" where
  "ObjectID_write P oid = writeBuffer P (digest oid)"

definition ObjectID_read :: "'p bprotocol_scheme \<Rightarrow> ObjectID \<Rightarrow> ObjectID reader" where
  "ObjectID_read P oid =
     rbind (rd (readBuffer P 20)) (\<lambda>buf. rlift (Inr (ObjectID_bytes (buf @ drop (length buf) (digest oid)))))"

definition BlobObjInfo_of :: "FDSP_BlobObjectInfo \<Rightarrow> BlobObjInfo res" where
  "BlobObjInfo_of obj_info =
     bindR (SetId NullObjectID (fo_digest obj_info) (length (fo_digest obj_info)))
       (\<lambda>oid. Inr \<lparr>obj_oid = oid, obj_size = fo_size obj_info\<rparr>)"

definition BlobObjInfo_write :: "'p bprotocol_scheme \<Rightarrow> BlobObjInfo \<Rightarrow> bytes" where
  "BlobObjInfo_write P info = ObjectID_write P (obj_oid info) @ writeI64 P (obj_size info)"

definition BlobObjInfo_read :: "'p bprotocol_scheme \<Rightarrow> BlobObjInfo reader" where
  "BlobObjInfo_read P =
     rbind (ObjectID_read P NullObjectID) (\<lambda>oid. rbind (rd (readI64 P)) (\<lambda>size.
     rlift (Inr \<lparr>obj_oid = oid, obj_size = size\<rparr>)))"

definition BlobObjList_new :: BlobObjList where
  "BlobObjList_new = \<lparr>bl_objs = [], end_of_blob = False\<rparr>"

definition fdsp_object :: "FDSP_BlobObjectInfo \<Rightarrow> BlobObjInfo res" where
  "fdsp_object info =
     (if fo_size info = 0 then Inr \<lparr>obj_oid = NullObjectID, obj_size = 0\<rparr> else BlobObjInfo_of info)"

definition BlobObjList_of :: "FDSP_BlobObjectInfo list \<Rightarrow> BlobObjList res" where
  "BlobObjList_of blob_obj_list =
     foldR (\<lambda>info bl. bindR (fdsp_object info) (\<lambda>obj_info.
         Inr (bl\<lparr>bl_objs := omap_put (fo_offset info) obj_info (bl_objs bl)\<rparr>)))
       blob_obj_list BlobObjList_new"

definition setEndOfBlob :: "BlobObjList \<Rightarrow> BlobObjList" where
  "setEndOfBlob bl = bl\<lparr>end_of_blob := True\<rparr>"

definition BlobObjList_merge :: "BlobObjList \<Rightarrow> BlobObjList \<Rightarrow> BlobObjList res" where
  "BlobObjList_merge bl newer_blist =
     fds_verify (\<not> end_of_blob bl) (Inr (bl\<lparr>bl_objs := omap_inserts (bl_objs newer_blist) (bl_objs bl)\<rparr>))"

definition lastOffset :: "BlobObjList \<Rightarrow> u64" where
  "lastOffset bl = (if bl_objs bl = [] then - 1 else fst (last (bl_objs bl)))"

definition updateObject :: "u64 \<Rightarrow> ObjectID \<Rightarrow> u64 \<Rightarrow> BlobObjList \<Rightarrow> BlobObjList" where
  "updateObject offset oid sz bl =
     bl\<lparr>bl_objs := omap_put offset \<lparr>obj_oid = oid, obj_size = sz\<rparr> (bl_objs bl)\<rparr>"

fun verify_loop :: "u32 \<Rightarrow> (u64 \<times> BlobObjInfo) list \<Rightarrow> fds_errno res" where
  "verify_loop max_obj_size [] = Inr ERR_OK"
| "verify_loop max_obj_size ((offset, info) # crit) =
     (if max_obj_size = 0 then Inl Undefined
      else if 0 < offset mod ucast max_obj_size \<or> obj_size info > ucast max_obj_size
      then Inr ERR_DM_OP_NOT_ALLOWED
      else verify_loop max_obj_size crit)"

definition BlobObjList_verify :: "BlobObjList \<Rightarrow> u32 \<Rightarrow> fds_errno res" where
  "BlobObjList_verify bl max_obj_size =
     (if bl_objs bl = [] then Inr ERR_DM_OP_NOT_ALLOWED else verify_loop max_obj_size (rev (bl_objs bl)))"

definition BlobObjList_toFdspPayload :: "BlobObjList \<Rightarrow> FDSP_BlobObjectInfo list" where
  "BlobObjList_toFdspPayload bl =
     map (\<lambda>(offset, info). \<lparr>fo_offset = offset, fo_digest = digest (obj_oid info), fo_size = obj_size info\<rparr>)
       (bl_objs bl)"

definition BlobObjList_write :: "'p bprotocol_scheme \<Rightarrow> BlobObjList \<Rightarrow> bytes" where
  "BlobObjList_write P bl =
     writeI32 P (if end_of_blob bl then 1 else 0) @ writeI32 P (of_nat (length (bl_objs bl))) @
     concat (map (\<lambda>(offset, info). writeI64 P offset @ BlobObjInfo_write P info) (bl_objs bl))"

text \<open>
  The flag is read through a reference to a 32-bit integer laid over the \<^verbatim>\<open>bool\<close>: its byte
  is the low byte of the integer, and a byte other than 0 or 1 there is no \<^verbatim>\<open>bool\<close>.
\<close>

definition bool_byte :: "u32 \<Rightarrow> bool res" where
  "bool_byte v = (if ucast v = (0 :: u8) then Inr False else if ucast v = (1 :: u8) then Inr True else Inl Undefined)"

definition BlobObjList_read :: "'p bprotocol_scheme \<Rightarrow> BlobObjList reader" where
  "BlobObjList_read P =
     rbind (rd (readI32 P)) (\<lambda>flag.
     rbind (rlift (bool_byte flag)) (\<lambda>eob.
     rbind (rd (readI32 P)) (\<lambda>sz.
     rbind (rtimes (unat sz)
       (rbind (rd (readI64 P)) (\<lambda>offset.
        rbind (BlobObjInfo_read P) (\<lambda>info. rlift (Inr (offset, info)))))) (\<lambda>objs.
     rlift (Inr \<lparr>bl_objs = omap_puts objs [], end_of_blob = eob\<rparr>)))))"

definition BlobObjList_ok :: "BlobObjList \<Rightarrow> bool" where
  "BlobObjList_ok bl \<longleftrightarrow> omap_ok (bl_objs bl) \<and> length (bl_objs bl) < 2 ^ 32"

lemma reads_ObjectID: "bprotocol_ok P \<Longrightarrow> reads (ObjectID_read P old) (ObjectID_write P oid) oid"
  using reads_rbind_rlift[OF reads_bprotocol(1), of P "digest oid" 20
      "\<lambda>buf. ObjectID_bytes (buf @ drop (length buf) (digest old))"]
  by (simp add: ObjectID_read_def ObjectID_write_def)

lemma reads_BlobObjInfo:
  assumes "bprotocol_ok P"
  shows "reads (BlobObjInfo_read P) (BlobObjInfo_write P info) info"
proof -
  have "reads (BlobObjInfo_read P) (BlobObjInfo_write P info) \<lparr>obj_oid = obj_oid info, obj_size = obj_size info\<rparr>"
    unfolding BlobObjInfo_read_def BlobObjInfo_write_def using assms
    by (intro reads_rbind[OF reads_ObjectID] reads_last)
  then show ?thesis by (cases info) simp
qed

lemma reads_BlobObjList [reads_intros]:
  assumes "bprotocol_ok P" "BlobObjList_ok bl"
  shows "reads (BlobObjList_read P) (BlobObjList_write P bl) bl"
proof -
  have P: "tprotocol_ok P"
    using assms(1) by (auto intro: reads_intros)
  let ?entry = "rbind (rd (readI64 P)) (\<lambda>offset. rbind (BlobObjInfo_read P) (\<lambda>info. rlift (Inr (offset, info))))"
  have entry: "reads ?entry (case e of (offset, info) \<Rightarrow> writeI64 P offset @ BlobObjInfo_write P info) e" for e
    by (cases e) (auto intro!: reads_then[OF assms(1)] reads_rbind_rlift reads_BlobObjInfo assms(1))
  have "reads (rlift (bool_byte (if end_of_blob bl then 1 else 0))) [] (end_of_blob bl)"
    by (simp add: reads_def rlift_def bool_byte_def)
  note flag = reads_rbind[OF this, unfolded append_Nil]
  show ?thesis
    unfolding BlobObjList_read_def BlobObjList_write_def
    by (rule reads_then(3)[OF assms(1)], rule flag, rule reads_counted[OF P entry])
      (use assms(2) in \<open>simp_all add: BlobObjList_ok_def omap_rebuild\<close>)
qed

lemma BlobObjList_of_toFdspPayload:
  assumes "omap_ok (bl_objs bl)" "\<not> end_of_blob bl"
    and "\<forall>(offset, info)\<in>set (bl_objs bl). obj_size info = 0 \<longrightarrow> obj_oid info = NullObjectID"
  shows "BlobObjList_of (BlobObjList_toFdspPayload bl) = Inr bl"
proof -
  let ?info = "\<lambda>(offset, info). \<lparr>fo_offset = offset, fo_digest = digest (obj_oid info), fo_size = obj_size info\<rparr>"
  have restored: "fdsp_object (?info (offset, info)) = Inr info" if "(offset, info) \<in> set (bl_objs bl)" for offset info
    using assms(3) that by (cases info) (auto simp: fdsp_object_def BlobObjInfo_of_def SetId_def OBJECTID_DIGESTLEN_def)
  have "foldR (\<lambda>i l. bindR (fdsp_object i) (\<lambda>o'. Inr (l\<lparr>bl_objs := omap_put (fo_offset i) o' (bl_objs l)\<rparr>))) (map ?info es) l
      = Inr (l\<lparr>bl_objs := omap_puts es (bl_objs l)\<rparr>)" if "set es \<subseteq> set (bl_objs bl)" for es and l :: BlobObjList
    using that by (induction es arbitrary: l) (auto simp: restored[unfolded prod.case] omap_puts_def)
  from this[of "bl_objs bl" BlobObjList_new] show ?thesis
    using assms(1,2) by (cases bl) (simp add: BlobObjList_of_def BlobObjList_toFdspPayload_def BlobObjList_new_def omap_rebuild)
qed

text \<open>
  A merge keeps the objects already in the list and takes only those at new offsets; it
  does not take over the end of the newer list either.
\<close>

lemma BlobObjList_merge_lookup:
  assumes "omap_ok (bl_objs bl)" "BlobObjList_merge bl newer = Inr bl'"
  shows "map_of (bl_objs bl') = map_of (bl_objs newer) ++ map_of (bl_objs bl) \<and> omap_ok (bl_objs bl') \<and>
         end_of_blob bl' = end_of_blob bl"
  using assms omap_inserts_lookup[of "bl_objs bl" "bl_objs newer"] by (auto simp: BlobObjList_merge_def res_simps)

lemma BlobObjList_merge_keeps_old:
  assumes "omap_ok (bl_objs bl)" "map_of (bl_objs bl) offset = Some old"
    and "BlobObjList_merge bl newer = Inr bl'"
  shows "map_of (bl_objs bl') offset = Some old"
  using BlobObjList_merge_lookup[OF assms(1,3)] assms(2) by simp

lemma lastOffset_max:
  assumes "omap_ok (bl_objs bl)" "offset \<in> fst ` set (bl_objs bl)"
  shows "offset \<le> lastOffset bl"
proof -
  have "bl_objs bl \<noteq> []"
    using assms(2) by auto
  then obtain es k v where es: "bl_objs bl = es @ [(k, v)]"
    by (metis append_butlast_last_id surj_pair)
  show ?thesis
    using assms unfolding lastOffset_def es by (auto simp: omap_ok_snoc less_imp_le)
qed

lemma verify_loop_exact:
  "max_obj_size \<noteq> 0 \<Longrightarrow> verify_loop max_obj_size es = Inr
     (if \<forall>(offset, info)\<in>set es. offset mod ucast max_obj_size = 0 \<and> obj_size info \<le> ucast max_obj_size
      then ERR_OK else ERR_DM_OP_NOT_ALLOWED)"
  by (induction max_obj_size es rule: verify_loop.induct) (auto simp: word_neq_0_conv not_less)

text \<open>Verification asks for aligned offsets and no oversized object; short objects pass anywhere.\<close>

lemma BlobObjList_verify_exact:
  assumes "max_obj_size \<noteq> 0"
  shows "BlobObjList_verify bl max_obj_size = Inr
     (if bl_objs bl \<noteq> [] \<and> (\<forall>(offset, info)\<in>set (bl_objs bl).
           offset mod ucast max_obj_size = 0 \<and> obj_size info \<le> ucast max_obj_size)
      then ERR_OK else ERR_DM_OP_NOT_ALLOWED)"
  using verify_loop_exact[OF assms, of "rev (bl_objs bl)"] by (simp add: BlobObjList_verify_def)

end
