(* ===== verification/Commit_Log.thy ===== *)
theory Commit_Log
  imports Blob_Types
begin

text \<open>
  The commit log of the data manager, \<^verbatim>\<open>data-mgr/dm-lib/dm-tvc/CommitLog.cpp\<close> and
  \<^verbatim>\<open>data-mgr/include/dm-tvc/CommitLog.h\<close>: the blob transactions that are open on a volume,
  what each has gathered, and how many were started under each version of the DMT. Every
  operation holds the lock of the transaction map, so an operation is one step. Time
  stamps are arguments. Leveldb's write batch is the sequence of its puts.
\<close>

section \<open>Transactions\<close>

record CommitLogTx =
  txDesc :: "u64 option"
  tx_name :: bytes
  blobMode :: u32
  tx_started :: u64
  committed :: u64
  blobDelete :: bool
  blobExpunge :: bool
  tx_snapshot :: bool
  blobObjList :: "BlobObjList option"
  metaDataList :: "MetaDataList option"
  wb :: "(bytes \<times> bytes) list"
  blobVersion :: u64
  blobSize :: u64
  dmtVersion :: u64

text \<open>The constructor leaves \<^verbatim>\<open>dmtVersion\<close> uninitialised: \<open>junk\<close>.\<close>

definition CommitLogTx_new :: "u64 \<Rightarrow> CommitLogTx" where
  "CommitLogTx_new junk =
     \<lparr>txDesc = None, tx_name = [], blobMode = 0, tx_started = 0, committed = 0, blobDelete = False,
      blobExpunge = False, tx_snapshot = False, blobObjList = Some BlobObjList_new,
      metaDataList = Some [], wb = [], blobVersion = 0, blobSize = 0, dmtVersion = junk\<rparr>"

definition CommitLogTx_write :: "'p bprotocol_scheme \<Rightarrow> CommitLogTx \<Rightarrow> bytes res" where
  "CommitLogTx_write P tx =
     bindR (deref (txDesc tx)) (\<lambda>txId.
     bindR (deref (blobObjList tx)) (\<lambda>objs.
     bindR (deref (metaDataList tx)) (\<lambda>meta.
     Inr (writeI64 P txId @ writeString P (tx_name tx) @ writeI32 P (blobMode tx) @
          writeI64 P (tx_started tx) @ writeI64 P (committed tx) @
          writeBool P (blobDelete tx) @ writeBool P (tx_snapshot tx) @
          BlobObjList_write P objs @ MetaDataList_write P meta @
          writeI64 P (blobVersion tx)))))"

text \<open>Reading fills in a transaction that was just constructed.\<close>

definition CommitLogTx_read :: "'p bprotocol_scheme \<Rightarrow> CommitLogTx \<Rightarrow> CommitLogTx reader" where
  "CommitLogTx_read P tx =
     rbind (rd (readI64 P)) (\<lambda>txId.
     rbind (rd (readString P)) (\<lambda>name.
     rbind (rd (readI32 P)) (\<lambda>mode.
     rbind (rd (readI64 P)) (\<lambda>started.
     rbind (rd (readI64 P)) (\<lambda>cmtd.
     rbind (rd (readBool P)) (\<lambda>del.
     rbind (rd (readBool P)) (\<lambda>snap.
     rbind (BlobObjList_read P) (\<lambda>objs.
     rbind (MetaDataList_read P) (\<lambda>meta.
     rbind (rd (readI64 P)) (\<lambda>version.
     rlift (Inr (tx\<lparr>txDesc := Some txId, tx_name := name, blobMode := mode, tx_started := started,
       committed := cmtd, blobDelete := del, tx_snapshot := snap, blobObjList := Some objs,
       metaDataList := Some meta, blobVersion := version\<rparr>))))))))))))"

section \<open>The log\<close>

record DmCommitLog =
  txMap :: "u64 \<Rightarrow> CommitLogTx option"
  dmtVerMap :: "u64 \<Rightarrow> u64 option"
  cl_volId :: u64
  cl_objSize :: u32
  cl_started :: bool

definition DmCommitLog_new :: "u64 \<Rightarrow> u32 \<Rightarrow> DmCommitLog" where
  "DmCommitLog_new volId objSize =
     \<lparr>txMap = Map.empty, dmtVerMap = Map.empty, cl_volId = volId, cl_objSize = objSize, cl_started = False\<rparr>"

definition mod_startup :: "DmCommitLog \<Rightarrow> DmCommitLog" where
  "mod_startup log = log\<lparr>cl_started := True\<rparr>"

definition mod_shutdown :: "DmCommitLog \<Rightarrow> DmCommitLog" where
  "mod_shutdown log = log\<lparr>cl_started := False\<rparr>"

text \<open>\<^verbatim>\<open>dmtVerMap_[v]\<close> makes a missing counter zero; the counters wrap.\<close>

definition dm_count :: "(u64 \<Rightarrow> u64 option) \<Rightarrow> u64 \<Rightarrow> u64" where
  "dm_count m v = (case m v of None \<Rightarrow> 0 | Some c \<Rightarrow> c)"

definition startTx :: "DmCommitLog \<Rightarrow> u64 \<Rightarrow> bytes \<Rightarrow> u32 \<Rightarrow> u64 \<Rightarrow> u64 \<Rightarrow> (DmCommitLog \<times> fds_errno) res" where
  "startTx log txId blobName mode version now =
     fds_verify (cl_started log)
       (if txMap log txId \<noteq> None then Inr (log, ERR_DM_TX_EXISTS)
        else Inr (log\<lparr>txMap := (txMap log)(txId \<mapsto> (CommitLogTx_new 0)\<lparr>txDesc := Some txId,
                     tx_name := blobName, blobMode := mode, tx_started := now, dmtVersion := version\<rparr>),
                   dmtVerMap := (dmtVerMap log)(version \<mapsto> dm_count (dmtVerMap log) version + 1)\<rparr>,
                  ERR_OK))"

definition validateSubsequentTx :: "DmCommitLog \<Rightarrow> u64 \<Rightarrow> fds_errno" where
  "validateSubsequentTx log txId =
     (case txMap log txId of
        None \<Rightarrow> ERR_DM_TX_NOT_STARTED
      | Some tx \<Rightarrow> if committed tx \<noteq> 0 then ERR_DM_TX_COMMITTED else ERR_OK)"

text \<open>What the operations on a transaction that must be open have in common.\<close>

definition with_open_tx :: "DmCommitLog \<Rightarrow> u64 \<Rightarrow> 'r \<Rightarrow>
    (CommitLogTx \<Rightarrow> (DmCommitLog \<times> 'r \<times> fds_errno) res) \<Rightarrow> (DmCommitLog \<times> 'r \<times> fds_errno) res" where
  "with_open_tx log txId failed act =
     fds_verify (cl_started log)
       (let rc = validateSubsequentTx log txId
        in if rc \<noteq> ERR_OK then Inr (log, failed, rc)
           else bindR (deref (txMap log txId)) act)"

definition updateTx :: "(CommitLogTx \<Rightarrow> CommitLogTx res) \<Rightarrow> DmCommitLog \<Rightarrow> u64 \<Rightarrow> (DmCommitLog \<times> unit \<times> fds_errno) res" where
  "updateTx upsertBlobData log txId =
     with_open_tx log txId () (\<lambda>tx. bindR (upsertBlobData tx) (\<lambda>tx'.
       Inr (log\<lparr>txMap := (txMap log)(txId \<mapsto> tx')\<rparr>, (), ERR_OK)))"

definition upsert_objs :: "BlobObjList \<Rightarrow> CommitLogTx \<Rightarrow> CommitLogTx res" where
  "upsert_objs data tx =
     (case blobObjList tx of
        Some objs \<Rightarrow> bindR (BlobObjList_merge objs data) (\<lambda>objs'. Inr (tx\<lparr>blobObjList := Some objs'\<rparr>))
      | None \<Rightarrow> Inr (tx\<lparr>blobObjList := Some data\<rparr>))"

definition upsert_meta :: "MetaDataList \<Rightarrow> CommitLogTx \<Rightarrow> CommitLogTx res" where
  "upsert_meta data tx =
     (case metaDataList tx of
        Some meta \<Rightarrow> Inr (tx\<lparr>metaDataList := Some (MetaDataList_merge meta data)\<rparr>)
      | None \<Rightarrow> Inr (tx\<lparr>metaDataList := Some data\<rparr>))"

text \<open>
  The offsets and sizes of a message are signed; \<^verbatim>\<open>blobMode | TRUNCATE\<close> is never zero, so
  the third check holds whatever the size is.
\<close>

definition upsert_object :: "u32 \<Rightarrow> FDSP_BlobObjectInfo \<Rightarrow> CommitLogTx \<Rightarrow> CommitLogTx res" where
  "upsert_object objSize info tx =
     (let offset = sint (fo_offset info); sz = sint (fo_size info); max = int (unat objSize)
      in if max = 0 then Inl Undefined
         else fds_verify (offset mod max = 0)
             (fds_verify (0 < sz)
             (fds_verify (blobMode tx OR 1 \<noteq> 0 \<or> max = sz)
             (if 2 ^ 63 \<le> offset + sz then Inl Undefined
              else let newSize = fo_offset info + fo_size info
                   in Inr (tx\<lparr>blobSize := (if blobSize tx < newSize then newSize else blobSize tx),
                        wb := wb tx @ [(BlobObjectKey (tx_name tx) (word_of_int (offset div max)), fo_digest info)]\<rparr>)))))"

definition upsert_fdsp :: "u32 \<Rightarrow> FDSP_BlobObjectInfo list \<Rightarrow> CommitLogTx \<Rightarrow> CommitLogTx res" where
  "upsert_fdsp objSize data tx = foldR (upsert_object objSize) data tx"

definition deleteBlob :: "DmCommitLog \<Rightarrow> u64 \<Rightarrow> u64 \<Rightarrow> bool \<Rightarrow> (DmCommitLog \<times> unit \<times> fds_errno) res" where
  "deleteBlob log txId version expunge_data =
     with_open_tx log txId () (\<lambda>tx. Inr (log\<lparr>txMap := (txMap log)(txId \<mapsto>
       tx\<lparr>blobDelete := True, blobExpunge := expunge_data, blobVersion := version\<rparr>)\<rparr>, (), ERR_OK))"

definition drop_tx :: "DmCommitLog \<Rightarrow> u64 \<Rightarrow> CommitLogTx \<Rightarrow> DmCommitLog" where
  "drop_tx log txId tx =
     log\<lparr>txMap := (txMap log)(txId := None),
         dmtVerMap := (dmtVerMap log)(dmtVersion tx \<mapsto> dm_count (dmtVerMap log) (dmtVersion tx) - 1)\<rparr>"

definition commitTx :: "DmCommitLog \<Rightarrow> u64 \<Rightarrow> u64 \<Rightarrow> (DmCommitLog \<times> CommitLogTx option \<times> fds_errno) res" where
  "commitTx log txId now =
     with_open_tx log txId None (\<lambda>tx.
       Inr (drop_tx log txId tx, Some (tx\<lparr>committed := now\<rparr>), ERR_OK))"

definition rollbackTx :: "DmCommitLog \<Rightarrow> u64 \<Rightarrow> (DmCommitLog \<times> unit \<times> fds_errno) res" where
  "rollbackTx log txId = with_open_tx log txId () (\<lambda>tx. Inr (drop_tx log txId tx, (), ERR_OK))"

definition snapshotInsert :: "DmCommitLog \<Rightarrow> u64 \<Rightarrow> (DmCommitLog \<times> unit \<times> fds_errno) res" where
  "snapshotInsert log txId =
     with_open_tx log txId () (\<lambda>tx.
       Inr (log\<lparr>txMap := (txMap log)(txId \<mapsto> tx\<lparr>tx_snapshot := True\<rparr>)\<rparr>, (), ERR_OK))"

definition snapshot :: "DmCommitLog \<Rightarrow> u64 \<Rightarrow> bytes \<Rightarrow> u64 \<Rightarrow> u64 \<Rightarrow> (DmCommitLog \<times> fds_errno) res" where
  "snapshot log txId name now now' =
     bindR (startTx log txId name 0 0 now) (\<lambda>(log, rc).
     if rc \<noteq> ERR_OK then Inr (log, rc)
     else bindR (snapshotInsert log txId) (\<lambda>(log, _, rc).
     if rc \<noteq> ERR_OK then Inr (log, rc)
     else bindR (commitTx log txId now') (\<lambda>(log, _, rc). Inr (log, rc))))"

definition checkOutstandingTx :: "DmCommitLog \<Rightarrow> u64 \<Rightarrow> DmCommitLog \<times> bool" where
  "checkOutstandingTx log version =
     (case dmtVerMap log version of
        None \<Rightarrow> (log, False)
      | Some c \<Rightarrow> if c = 0 then (log\<lparr>dmtVerMap := (dmtVerMap log)(version := None)\<rparr>, False) else (log, True))"

definition getActiveTx :: "(('a \<Rightarrow> CommitLogTx option) \<Rightarrow> 'a list) \<Rightarrow> ('a \<Rightarrow> CommitLogTx option) \<Rightarrow> u32" where
  "getActiveTx walk m = of_nat (length (walk m))"

text \<open>The hash map is walked in an order of its own, \<open>walk\<close>.\<close>

definition isPendingTx :: "((u64 \<Rightarrow> CommitLogTx option) \<Rightarrow> u64 list) \<Rightarrow> DmCommitLog \<Rightarrow> u64 \<Rightarrow> bool" where
  "isPendingTx walk log tsNano =
     list_ex (\<lambda>txId. case txMap log txId of None \<Rightarrow> False
       | Some tx \<Rightarrow> tx_started tx \<noteq> 0 \<and> committed tx = 0 \<and> tx_started tx \<le> tsNano) (walk (txMap log))"

fun snapshot_loop :: "'p bprotocol_scheme \<Rightarrow> CommitLogTx list \<Rightarrow> bytes list \<Rightarrow> (bytes list \<times> fds_errno) res" where
  "snapshot_loop P [] strings = Inr (strings, ERR_OK)"
| "snapshot_loop P (tx # txs) strings =
     bindR (getSerialized (CommitLogTx_write P tx) []) (\<lambda>(err, s).
     if err \<noteq> ERR_OK then Inr (strings @ [s], err) else snapshot_loop P txs (strings @ [s]))"

definition snapshotOutstandingTx :: "'p bprotocol_scheme \<Rightarrow> ((u64 \<Rightarrow> CommitLogTx option) \<Rightarrow> u64 list) \<Rightarrow>
    DmCommitLog \<Rightarrow> bytes list \<Rightarrow> (bytes list \<times> fds_errno) res" where
  "snapshotOutstandingTx P walk log strings =
     snapshot_loop P (List.map_filter (txMap log) (walk (txMap log))) strings"

text \<open>
  A transaction that is received carries the uninitialised version of the constructor, one
  of \<open>junk\<close> per transaction. The answer of \<^verbatim>\<open>validateSubsequentTx\<close> is thrown away.
\<close>

fun applySerializedTxs :: "'p bprotocol_scheme \<Rightarrow> (nat \<Rightarrow> u64) \<Rightarrow> DmCommitLog \<Rightarrow> bytes list \<Rightarrow>
    (DmCommitLog \<times> fds_errno) res" where
  "applySerializedTxs P junk log [] = Inr (log, ERR_OK)"
| "applySerializedTxs P junk log (s # transactions) =
     bindR (loadSerialized (CommitLogTx_read P (CommitLogTx_new (junk 0))) s) (\<lambda>(err, ptx).
     if err \<noteq> ERR_OK then Inr (log, err)
     else bindR (deref ptx) (\<lambda>tx.
       bindR (deref (txDesc tx)) (\<lambda>txId.
       applySerializedTxs P (\<lambda>i. junk (Suc i)) (log\<lparr>txMap := (txMap log)(txId \<mapsto> tx)\<rparr>) transactions)))"

definition clear_log :: "DmCommitLog \<Rightarrow> DmCommitLog" where
  "clear_log log = log\<lparr>txMap := Map.empty\<rparr>"

section \<open>Runs of the log\<close>

datatype log_call =
    StartTx u64 bytes u32 u64 u64
  | UpdateObjs u64 BlobObjList
  | UpdateMeta u64 MetaDataList
  | UpdateFdsp u64 "FDSP_BlobObjectInfo list"
  | DeleteBlob u64 u64 bool
  | CommitTx u64 u64
  | RollbackTx u64
  | Snapshot u64 bytes u64 u64
  | CheckOutstanding u64

datatype log_answer = Status fds_errno | Committed "CommitLogTx option" fds_errno | Outstanding bool

definition status_of :: "(DmCommitLog \<times> unit \<times> fds_errno) res \<Rightarrow> (DmCommitLog \<times> log_answer) res" where
  "status_of m = bindR m (\<lambda>(log, _, rc). Inr (log, Status rc))"

fun log_exec :: "DmCommitLog \<Rightarrow> log_call \<Rightarrow> (DmCommitLog \<times> log_answer) res" where
  "log_exec log (StartTx txId name mode version now) =
     bindR (startTx log txId name mode version now) (\<lambda>(log', rc). Inr (log', Status rc))"
| "log_exec log (UpdateObjs txId data) = status_of (updateTx (upsert_objs data) log txId)"
| "log_exec log (UpdateMeta txId data) = status_of (updateTx (upsert_meta data) log txId)"
| "log_exec log (UpdateFdsp txId data) = status_of (updateTx (upsert_fdsp (cl_objSize log) data) log txId)"
| "log_exec log (DeleteBlob txId version expunge) = status_of (deleteBlob log txId version expunge)"
| "log_exec log (CommitTx txId now) = bindR (commitTx log txId now) (\<lambda>(log', tx, rc). Inr (log', Committed tx rc))"
| "log_exec log (RollbackTx txId) = status_of (rollbackTx log txId)"
| "log_exec log (Snapshot txId name now now') =
     bindR (snapshot log txId name now now') (\<lambda>(log', rc). Inr (log', Status rc))"
| "log_exec log (CheckOutstanding version) =
     (let (log', r) = checkOutstandingTx log version in Inr (log', Outstanding r))"

section \<open>The counters of the DMT versions\<close>

definition open_of :: "(u64 \<Rightarrow> CommitLogTx option) \<Rightarrow> u64 \<Rightarrow> u64 set" where
  "open_of m v = {txId. map_option dmtVersion (m txId) = Some v}"

definition count_ok :: "DmCommitLog \<Rightarrow> bool" where
  "count_ok log \<longleftrightarrow> (\<forall>v. dm_count (dmtVerMap log) v = of_nat (card (open_of (txMap log) v)))"

lemma finite_u64 [simp]: "finite (A :: u64 set)"
  by (rule finite_subset[OF subset_UNIV finite])

lemma count_start:
  assumes "count_ok log" "txMap log txId = None"
  shows "count_ok (log\<lparr>txMap := (txMap log)(txId \<mapsto> tx),
    dmtVerMap := (dmtVerMap log)(dmtVersion tx \<mapsto> dm_count (dmtVerMap log) (dmtVersion tx) + 1)\<rparr>)"
proof -
  have "open_of ((txMap log)(txId \<mapsto> tx)) v =
      (if v = dmtVersion tx then insert txId (open_of (txMap log) v) else open_of (txMap log) v)" for v
    using assms(2) by (auto simp: open_of_def)
  moreover have "txId \<notin> open_of (txMap log) v" for v
    using assms(2) by (simp add: open_of_def)
  ultimately show ?thesis
    using assms(1) by (auto simp: count_ok_def dm_count_def split: option.splits)
qed

lemma count_update:
  assumes "count_ok log" "txMap log txId = Some tx" "dmtVersion tx' = dmtVersion tx"
  shows "count_ok (log\<lparr>txMap := (txMap log)(txId \<mapsto> tx')\<rparr>)"
proof -
  have "open_of ((txMap log)(txId \<mapsto> tx')) v = open_of (txMap log) v" for v
    using assms(2,3) by (auto simp: open_of_def)
  then show ?thesis
    using assms(1) by (simp add: count_ok_def)
qed

lemma count_drop:
  assumes "count_ok log" "txMap log txId = Some tx"
  shows "count_ok (drop_tx log txId tx)"
proof -
  have open_of: "open_of ((txMap log)(txId := None)) v =
      (if v = dmtVersion tx then open_of (txMap log) v - {txId} else open_of (txMap log) v)" for v
    using assms(2) by (auto simp: open_of_def)
  have "txId \<in> open_of (txMap log) (dmtVersion tx)"
    using assms(2) by (simp add: open_of_def)
  then have "card (open_of (txMap log) (dmtVersion tx)) = Suc (card (open_of (txMap log) (dmtVersion tx) - {txId}))"
    by (metis card.remove finite_u64)
  then show ?thesis
    using assms(1) by (auto simp: count_ok_def dm_count_def drop_tx_def open_of split: option.splits)
qed

lemma with_open_txE:
  assumes "with_open_tx log txId failed act = Inr (log', r, rc)"
  obtains "log' = log" "r = failed" "rc \<noteq> ERR_OK" "rc = validateSubsequentTx log txId"
  | tx where "cl_started log" "txMap log txId = Some tx" "committed tx = 0" "act tx = Inr (log', r, rc)"
  using assms by (auto simp: with_open_tx_def validateSubsequentTx_def deref_def res_simps Let_def
      split: option.splits if_splits)

lemma upsert_objs_keeps: "upsert_objs data tx = Inr tx' \<Longrightarrow> \<exists>objs. tx' = tx\<lparr>blobObjList := Some objs\<rparr>"
  by (auto simp: upsert_objs_def res_simps split: option.splits)

lemma upsert_meta_keeps: "upsert_meta data tx = Inr tx' \<Longrightarrow> \<exists>meta. tx' = tx\<lparr>metaDataList := Some meta\<rparr>"
  by (auto simp: upsert_meta_def split: option.splits)

lemma upsert_object_keeps: "upsert_object objSize info tx = Inr tx' \<Longrightarrow> tx' = tx\<lparr>blobSize := blobSize tx', wb := wb tx'\<rparr>"
  unfolding upsert_object_def Let_def by (auto simp: res_simps split: if_splits)

lemma upsert_fdsp_keeps:
  assumes "upsert_fdsp objSize data tx = Inr tx'"
  shows "tx' = tx\<lparr>blobSize := blobSize tx', wb := wb tx'\<rparr>"
proof (rule foldR_invariant[OF assms[unfolded upsert_fdsp_def], where I = "\<lambda>t. t = tx\<lparr>blobSize := blobSize t, wb := wb t\<rparr>"])
  show "t' = tx\<lparr>blobSize := blobSize t', wb := wb t'\<rparr>"
    if "upsert_object objSize info t = Inr t'" "t = tx\<lparr>blobSize := blobSize t, wb := wb t\<rparr>" for info t t'
    using upsert_object_keeps[OF that(1)] that(2) by (cases t; cases tx; cases t') simp
qed simp

lemma upsert_version:
  "upsert_objs objs tx = Inr tx' \<Longrightarrow> dmtVersion tx' = dmtVersion tx"
  "upsert_meta meta tx = Inr tx' \<Longrightarrow> dmtVersion tx' = dmtVersion tx"
  "upsert_fdsp objSize data tx = Inr tx' \<Longrightarrow> dmtVersion tx' = dmtVersion tx"
  by (auto dest: upsert_objs_keeps upsert_meta_keeps) (drule upsert_fdsp_keeps, erule ssubst, simp)

text \<open>One transaction's entry after an operation: left alone, rewritten under its version, or removed.\<close>

inductive log_change :: "u64 \<Rightarrow> DmCommitLog \<Rightarrow> DmCommitLog \<Rightarrow> bool" for txId where
  same: "log_change txId log log"
| start: "txMap log txId = None \<Longrightarrow> dmtVersion tx = v \<Longrightarrow> log_change txId log (log\<lparr>txMap := (txMap log)(txId \<mapsto> tx),
    dmtVerMap := (dmtVerMap log)(v \<mapsto> dm_count (dmtVerMap log) v + 1)\<rparr>)"
| rewrite: "txMap log txId = Some tx \<Longrightarrow> dmtVersion tx' = dmtVersion tx \<Longrightarrow>
    log_change txId log (log\<lparr>txMap := (txMap log)(txId \<mapsto> tx')\<rparr>)"
| remove: "txMap log txId = Some tx \<Longrightarrow> log_change txId log (drop_tx log txId tx)"
| forget: "dmtVerMap log v = Some 0 \<Longrightarrow> log_change txId log (log\<lparr>dmtVerMap := (dmtVerMap log)(v := None)\<rparr>)"

fun call_tx :: "log_call \<Rightarrow> u64 option" where
  "call_tx (StartTx txId _ _ _ _) = Some txId"
| "call_tx (UpdateObjs txId _) = Some txId"
| "call_tx (UpdateMeta txId _) = Some txId"
| "call_tx (UpdateFdsp txId _) = Some txId"
| "call_tx (DeleteBlob txId _ _) = Some txId"
| "call_tx (CommitTx txId _) = Some txId"
| "call_tx (RollbackTx txId) = Some txId"
| "call_tx (Snapshot txId _ _ _) = Some txId"
| "call_tx (CheckOutstanding _) = None"

lemma startTx_change: "startTx log txId name mode version now = Inr (log', rc) \<Longrightarrow> log_change txId log log'"
  by (auto simp: startTx_def res_simps split: if_splits intro: log_change.intros)

lemma with_open_tx_change:
  assumes "with_open_tx log txId failed act = Inr (log', r, rc)"
    and "\<And>tx. txMap log txId = Some tx \<Longrightarrow> act tx = Inr (log', r, rc) \<Longrightarrow> log_change txId log log'"
  shows "log_change txId log log'"
  using assms by (auto elim!: with_open_txE intro: log_change.same)

lemma updateTx_change:
  assumes "updateTx upsert log txId = Inr (log', r, rc)" "\<And>tx tx'. upsert tx = Inr tx' \<Longrightarrow> dmtVersion tx' = dmtVersion tx"
  shows "log_change txId log log'"
  using assms(1) unfolding updateTx_def
  by (rule with_open_tx_change) (auto simp: res_simps dest: assms(2) intro: log_change.rewrite)

lemma tx_end_change:
  "deleteBlob log txId version expunge = Inr (log', u, rc) \<Longrightarrow> log_change txId log log'"
  "commitTx log txId now = Inr (log', tx, rc) \<Longrightarrow> log_change txId log log'"
  "rollbackTx log txId = Inr (log', u, rc) \<Longrightarrow> log_change txId log log'"
  "snapshotInsert log txId = Inr (log', u, rc) \<Longrightarrow> log_change txId log log'"
  unfolding deleteBlob_def commitTx_def rollbackTx_def snapshotInsert_def
  by (erule with_open_tx_change; auto intro: log_change.intros)+

lemma log_exec_change:
  "log_exec log c = Inr (log', r) \<Longrightarrow> call_tx c = None \<or> call_tx c = Some txId \<Longrightarrow> (log_change txId)\<^sup>*\<^sup>* log log'"
proof (cases c)
  case (Snapshot txId' name now now')
  assume "log_exec log c = Inr (log', r)" "call_tx c = None \<or> call_tx c = Some txId"
  then show ?thesis
    by (auto simp: Snapshot snapshot_def res_simps split: if_splits dest!: startTx_change tx_end_change
        intro: rtranclp.rtrancl_into_rtrancl)
next
  case (CheckOutstanding v)
  assume "log_exec log c = Inr (log', r)"
  then show ?thesis
    by (auto simp: CheckOutstanding checkOutstandingTx_def split: option.splits if_splits intro: log_change.forget)
qed (auto simp: status_of_def res_simps dest!: startTx_change updateTx_change tx_end_change dest: upsert_version)

lemma count_change: "log_change txId log log' \<Longrightarrow> count_ok log \<Longrightarrow> count_ok log'"
proof (induction rule: log_change.induct)
  case (forget log v)
  then show ?case
    by (auto simp: count_ok_def dm_count_def split: option.splits)
qed (auto intro: count_start count_update count_drop)

lemma change_frame:
  "log_change txId log log' \<Longrightarrow> txId' \<noteq> txId \<Longrightarrow> txMap log' txId' = txMap log txId'"
  by (induction rule: log_change.induct) (auto simp: drop_tx_def)

lemma changes_invariants:
  "(log_change txId)\<^sup>*\<^sup>* log log' \<Longrightarrow> (count_ok log \<longrightarrow> count_ok log') \<and> dom (txMap log') \<subseteq> insert txId (dom (txMap log)) \<and>
     (\<forall>txId'. txId' \<noteq> txId \<longrightarrow> txMap log' txId' = txMap log txId')"
proof (induction rule: rtranclp_induct)
  case (step log1 log2)
  then show ?case
    using count_change[OF step(2)] change_frame[OF step(2)] by (auto simp: dom_def)
qed auto

lemma log_exec_counts:
  assumes "log_exec log c = Inr (log', r)" "count_ok log"
  shows "count_ok log' \<and> card (dom (txMap log')) \<le> Suc (card (dom (txMap log)))"
proof -
  obtain txId where "call_tx c = None \<or> call_tx c = Some txId"
    by (cases "call_tx c") auto
  from changes_invariants[OF log_exec_change[OF assms(1) this]]
  have "count_ok log'" "card (dom (txMap log')) \<le> card (insert txId (dom (txMap log)))"
    using assms(2) by (auto intro: card_mono)
  then show ?thesis
    using card_insert_le_m1 by (metis card_insert_if finite_u64 le_SucI order_refl order_trans)
qed

lemma run_counts:
  assumes "run_ops log_exec log calls = Inr (log', answers)" "count_ok log"
  shows "count_ok log' \<and> card (dom (txMap log')) \<le> card (dom (txMap log)) + length calls"
  using assms
proof (induction calls arbitrary: log answers)
  case (Cons c calls)
  obtain log1 r rs where step: "log_exec log c = Inr (log1, r)" and rest: "run_ops log_exec log1 calls = Inr (log', rs)"
    using Cons.prems(1) by (auto simp: res_simps)
  then show ?case
    using log_exec_counts[OF step Cons.prems(2)] Cons.IH[OF rest] by force
qed simp

lemma checkOutstandingTx_count:
  assumes "count_ok log" "card (dom (txMap log)) < 2 ^ 64"
  shows "snd (checkOutstandingTx log v) \<longleftrightarrow> open_of (txMap log) v \<noteq> {}"
proof -
  have "open_of (txMap log) v \<subseteq> dom (txMap log)"
    by (auto simp: open_of_def)
  then have "card (open_of (txMap log) v) < 2 ^ 64"
    using assms(2) card_mono[OF finite_u64] by (metis le_less_trans)
  then have "(of_nat (card (open_of (txMap log) v)) :: u64) = 0 \<longleftrightarrow> card (open_of (txMap log) v) = 0"
    using unat_of_nat_lt[where 'a = 64, of "card (open_of (txMap log) v)"] by (auto simp del: of_nat_eq_0_iff)
  then show ?thesis
    using assms(1)[unfolded count_ok_def, rule_format, of v]
    by (auto simp: checkOutstandingTx_def dm_count_def split: option.splits)
qed



text \<open>The log can lose count in two ways. Clearing it forgets the transactions but not the counters.\<close>

lemma clear_log_keeps_count:
  assumes "startTx log txId name mode v now = Inr (log', ERR_OK)" "dmtVerMap log v = None"
  shows "snd (checkOutstandingTx (clear_log log') v) \<and> txMap (clear_log log') = Map.empty"
  using assms by (auto simp: startTx_def res_simps checkOutstandingTx_def clear_log_def dm_count_def split: if_splits)

text \<open>
  And a transaction that was received from another node was never counted: committing it
  takes the counter of some version below zero, after which that version looks busy.
\<close>

lemma received_commit_wraps:
  assumes "cl_started log" "txMap log txId = Some tx" "committed tx = 0"
    and "dm_count (dmtVerMap log) (dmtVersion tx) = 0" "commitTx log txId now = Inr (log', r, rc)"
  shows "dmtVerMap log' (dmtVersion tx) = Some (- 1) \<and> snd (checkOutstandingTx log' (dmtVersion tx))"
  using assms by (auto simp: commitTx_def with_open_tx_def validateSubsequentTx_def deref_def drop_tx_def
      checkOutstandingTx_def)

section \<open>What a commit hands over\<close>

text \<open>
  The bindings the updates of a transaction carried, in order. Looking a key up takes the
  first one; in the reversed list, the last one.
\<close>

definition objs_given :: "u64 \<Rightarrow> log_call list \<Rightarrow> (u64 \<times> BlobObjInfo) list" where
  "objs_given txId calls = concat (map (\<lambda>c. case c of UpdateObjs i data \<Rightarrow> if i = txId then bl_objs data else [] | _ \<Rightarrow> []) calls)"

definition meta_given :: "u64 \<Rightarrow> log_call list \<Rightarrow> (bytes \<times> bytes) list" where
  "meta_given txId calls = concat (map (\<lambda>c. case c of UpdateMeta i data \<Rightarrow> if i = txId then data else [] | _ \<Rightarrow> []) calls)"

definition deletes_given :: "u64 \<Rightarrow> log_call list \<Rightarrow> bool" where
  "deletes_given txId calls \<longleftrightarrow> list_ex (\<lambda>c. case c of DeleteBlob i _ _ \<Rightarrow> i = txId | _ \<Rightarrow> False) calls"

fun ends_tx :: "u64 \<Rightarrow> log_call \<Rightarrow> bool" where
  "ends_tx txId (CommitTx i _) = (i = txId)"
| "ends_tx txId (RollbackTx i) = (i = txId)"
| "ends_tx txId _ = False"

definition gathered :: "u64 \<Rightarrow> log_call list \<Rightarrow> CommitLogTx \<Rightarrow> bool" where
  "gathered txId calls tx \<longleftrightarrow> committed tx = 0 \<and>
     (\<exists>objs. blobObjList tx = Some objs \<and> omap_ok (bl_objs objs) \<and> map_of (bl_objs objs) = map_of (objs_given txId calls)) \<and>
     (\<exists>meta. metaDataList tx = Some meta \<and> omap_ok meta \<and> map_of meta = map_of (rev (meta_given txId calls))) \<and>
     (blobDelete tx \<longleftrightarrow> deletes_given txId calls)"

definition same_start :: "CommitLogTx \<Rightarrow> CommitLogTx \<Rightarrow> bool" where
  "same_start tx tx' \<longleftrightarrow> txDesc tx' = txDesc tx \<and> tx_name tx' = tx_name tx \<and> blobMode tx' = blobMode tx \<and>
     tx_started tx' = tx_started tx \<and> dmtVersion tx' = dmtVersion tx"

lemmas given_defs = objs_given_def meta_given_def deletes_given_def

lemma gathered_other:
  assumes "call_tx c \<noteq> Some txId \<or> (\<exists>name mode v now. c = StartTx txId name mode v now) \<or>
    (\<exists>name now now'. c = Snapshot txId name now now') \<or> (\<exists>data. c = UpdateFdsp txId data)"
  shows "gathered txId (calls @ [c]) tx = gathered txId calls tx"
  using assms by (cases c) (auto simp: gathered_def given_defs)

lemma given_append [simp]:
  "objs_given txId (calls @ calls') = objs_given txId calls @ objs_given txId calls'"
  "meta_given txId (calls @ calls') = meta_given txId calls @ meta_given txId calls'"
  "deletes_given txId (calls @ calls') \<longleftrightarrow> deletes_given txId calls \<or> deletes_given txId calls'"
  by (simp_all add: given_defs)

lemma given_single [simp]:
  "objs_given txId [UpdateObjs txId objs] = bl_objs objs" "meta_given txId [UpdateObjs txId objs] = []"
  "\<not> deletes_given txId [UpdateObjs txId objs]"
  "objs_given txId [UpdateMeta txId meta] = []" "meta_given txId [UpdateMeta txId meta] = meta"
  "\<not> deletes_given txId [UpdateMeta txId meta]"
  "objs_given txId [UpdateFdsp txId data] = []" "meta_given txId [UpdateFdsp txId data] = []"
  "\<not> deletes_given txId [UpdateFdsp txId data]"
  "objs_given txId [DeleteBlob txId v e] = []" "meta_given txId [DeleteBlob txId v e] = []"
  "deletes_given txId [DeleteBlob txId v e]"
  by (simp_all add: given_defs)

lemma gathered_objs:
  assumes "gathered txId calls tx" "upsert_objs data tx = Inr tx'"
  shows "gathered txId (calls @ [UpdateObjs txId data]) tx' \<and> same_start tx tx'"
proof -
  obtain objs where objs: "blobObjList tx = Some objs" "omap_ok (bl_objs objs)" "map_of (bl_objs objs) = map_of (objs_given txId calls)"
    using assms(1) by (auto simp: gathered_def)
  then obtain objs' where objs': "BlobObjList_merge objs data = Inr objs'" "tx' = tx\<lparr>blobObjList := Some objs'\<rparr>"
    using assms(2) by (auto simp: upsert_objs_def res_simps)
  then show ?thesis
    using assms(1) objs BlobObjList_merge_lookup[OF objs(2) objs'(1)] by (simp add: gathered_def same_start_def)
qed

lemma gathered_meta:
  assumes "gathered txId calls tx" "upsert_meta data tx = Inr tx'"
  shows "gathered txId (calls @ [UpdateMeta txId data]) tx' \<and> same_start tx tx'"
proof -
  obtain meta where meta: "metaDataList tx = Some meta" "omap_ok meta" "map_of meta = map_of (rev (meta_given txId calls))"
    using assms(1) by (auto simp: gathered_def)
  then have "tx' = tx\<lparr>metaDataList := Some (omap_puts data meta)\<rparr>"
    using assms(2) by (simp add: upsert_meta_def MetaDataList_merge_def)
  then show ?thesis
    using assms(1) meta omap_puts_lookup[OF meta(2), of data] by (simp add: gathered_def same_start_def)
qed

lemma gathered_fdsp:
  assumes "gathered txId calls tx" "upsert_fdsp objSize data tx = Inr tx'"
  shows "gathered txId (calls @ [UpdateFdsp txId data]) tx' \<and> same_start tx tx'"
proof -
  have "blobObjList tx' = blobObjList tx" "metaDataList tx' = metaDataList tx" "blobDelete tx' = blobDelete tx"
    "committed tx' = committed tx" "same_start tx tx'"
    by (subst upsert_fdsp_keeps[OF assms(2)], simp add: same_start_def)+
  then show ?thesis
    using assms(1) by (simp add: gathered_def)
qed

lemma gathered_delete:
  "gathered txId calls tx \<Longrightarrow> gathered txId (calls @ [DeleteBlob txId version expunge])
     (tx\<lparr>blobDelete := True, blobExpunge := expunge, blobVersion := version\<rparr>)"
  by (simp add: gathered_def)

lemma log_exec_gathers:
  assumes "log_exec log c = Inr (log', r)" "txMap log txId = Some tx" "gathered txId calls tx" "\<not> ends_tx txId c"
  shows "\<exists>tx'. txMap log' txId = Some tx' \<and> gathered txId (calls @ [c]) tx' \<and> same_start tx tx'"
proof (cases "call_tx c = Some txId")
  case False
  have "txMap log' txId = Some tx"
  proof (cases "call_tx c")
    case None
    then show ?thesis
      using assms(1,2) by (cases c) (auto simp: checkOutstandingTx_def split: option.splits if_splits)
  next
    case (Some i)
    then show ?thesis
      using changes_invariants[OF log_exec_change[OF assms(1), of i]] False assms(2) by auto
  qed
  then show ?thesis
    using assms(3) False gathered_other[of c txId] by (auto simp: same_start_def)
next
  case True
  have valid: "validateSubsequentTx log txId = ERR_OK"
    using assms(2,3) by (simp add: validateSubsequentTx_def gathered_def)
  note exec = with_open_tx_def valid updateTx_def deleteBlob_def status_of_def startTx_def snapshot_def
    deref_def assms(2) Let_def res_simps
  show ?thesis
    using True assms gathered_other[of c txId calls tx]
    by (cases c) (auto simp: exec same_start_def dest: gathered_objs gathered_meta gathered_fdsp intro: gathered_delete split: if_splits)
qed

lemma run_gathers:
  assumes "run_ops log_exec log calls = Inr (log', answers)" "txMap log txId = Some tx" "gathered txId before tx"
    and "\<forall>c\<in>set calls. \<not> ends_tx txId c"
  shows "\<exists>tx'. txMap log' txId = Some tx' \<and> gathered txId (before @ calls) tx' \<and> same_start tx tx'"
  using assms
proof (induction calls arbitrary: log answers before tx)
  case Nil
  then show ?case by (simp add: same_start_def)
next
  case (Cons c calls)
  obtain log1 r rs where step: "log_exec log c = Inr (log1, r)" and rest: "run_ops log_exec log1 calls = Inr (log', rs)"
    using Cons.prems(1) by (auto simp: res_simps)
  obtain tx1 where "txMap log1 txId = Some tx1" "gathered txId (before @ [c]) tx1" "same_start tx tx1"
    using log_exec_gathers[OF step Cons.prems(2,3)] Cons.prems(4) by auto
  then show ?case
    using Cons.IH[OF rest, of tx1 "before @ [c]"] Cons.prems(4) by (auto simp: same_start_def)
qed

text \<open>
  C3. A transaction that was started, then updated by any calls while others come and go,
  is handed over by its commit as it was gathered: under the name, mode and DMT version
  of its start, with the metadata pair given last for each key, the object given first
  for each offset, deleted if and only if a deletion was among the calls; and the commit
  takes it off the log. That a later object never replaces an earlier one at the same
  offset is what merging the lists comes to, though it is documented to over-write.
\<close>

theorem commitTx_gathers:
  assumes "startTx log txId name mode version now = Inr (log1, ERR_OK)"
    and "run_ops log_exec log1 calls = Inr (log2, answers)" "\<forall>c\<in>set calls. \<not> ends_tx txId c"
    and "commitTx log2 txId now' = Inr (log3, handed, rc)"
  shows "\<exists>tx objs meta. handed = Some tx \<and> rc = ERR_OK \<and> txMap log3 txId = None \<and>
     tx_name tx = name \<and> blobMode tx = mode \<and> dmtVersion tx = version \<and> committed tx = now' \<and>
     blobObjList tx = Some objs \<and> map_of (bl_objs objs) = map_of (objs_given txId calls) \<and>
     metaDataList tx = Some meta \<and> map_of meta = map_of (rev (meta_given txId calls)) \<and>
     (blobDelete tx \<longleftrightarrow> deletes_given txId calls)"
proof -
  obtain tx where "txMap log1 txId = Some tx" and tx: "tx = (CommitLogTx_new 0)\<lparr>txDesc := Some txId,
      tx_name := name, blobMode := mode, tx_started := now, dmtVersion := version\<rparr>"
    using assms(1) by (auto simp: startTx_def res_simps split: if_splits)
  moreover have "gathered txId [] tx"
    by (simp add: tx gathered_def given_defs CommitLogTx_new_def BlobObjList_new_def)
  ultimately obtain tx' where tx': "txMap log2 txId = Some tx'" "gathered txId calls tx'" "same_start tx tx'"
    using run_gathers[OF assms(2) _ _ assms(3), of tx "[]"] by auto
  then have "handed = Some (tx'\<lparr>committed := now'\<rparr>) \<and> rc = ERR_OK \<and> txMap log3 txId = None"
    using assms(4) by (auto simp: commitTx_def with_open_tx_def validateSubsequentTx_def deref_def gathered_def
        drop_tx_def res_simps)
  then show ?thesis
    using tx'(2,3) by (auto simp: gathered_def same_start_def tx)
qed

theorem commitTx_gathers_witness:
  "\<exists>log1 log2 log3 answers tx objs.
     startTx (mod_startup (DmCommitLog_new 1 4096)) 5 [97] 0 7 100 = Inr (log1, ERR_OK) \<and>
     run_ops log_exec log1
       [UpdateObjs 5 \<lparr>bl_objs = [(0, \<lparr>obj_oid = NullObjectID, obj_size = 1\<rparr>)], end_of_blob = False\<rparr>,
        UpdateObjs 5 \<lparr>bl_objs = [(0, \<lparr>obj_oid = NullObjectID, obj_size = 2\<rparr>)], end_of_blob = False\<rparr>] = Inr (log2, answers) \<and>
     commitTx log2 5 102 = Inr (log3, Some tx, ERR_OK) \<and> blobObjList tx = Some objs \<and>
     map_of (bl_objs objs) 0 = Some \<lparr>obj_oid = NullObjectID, obj_size = 1\<rparr>"
proof -
  let ?objs = "\<lambda>n. \<lparr>bl_objs = [(0, \<lparr>obj_oid = NullObjectID, obj_size = n\<rparr>)], end_of_blob = False\<rparr>"
  let ?calls = "[UpdateObjs 5 (?objs 1), UpdateObjs 5 (?objs 2)]"
  obtain log1 where start: "startTx (mod_startup (DmCommitLog_new 1 4096)) 5 [97] 0 7 100 = Inr (log1, ERR_OK)"
    by (simp add: startTx_def mod_startup_def DmCommitLog_new_def)
  then obtain log2 answers where run: "run_ops log_exec log1 ?calls = Inr (log2, answers)"
    and "\<exists>tx. txMap log2 5 = Some tx \<and> committed tx = 0" "cl_started log2"
    by (auto simp: startTx_def mod_startup_def DmCommitLog_new_def updateTx_def with_open_tx_def status_of_def
        deref_def validateSubsequentTx_def CommitLogTx_new_def BlobObjList_new_def upsert_objs_def BlobObjList_merge_def)
  then obtain log3 handed rc where commit: "commitTx log2 5 102 = Inr (log3, handed, rc)"
    by (auto simp: commitTx_def with_open_tx_def deref_def validateSubsequentTx_def)
  have "\<forall>c\<in>set ?calls. \<not> ends_tx 5 c"
    by simp
  from commitTx_gathers[OF start run this commit] obtain tx objs where "handed = Some tx" "rc = ERR_OK"
    "blobObjList tx = Some objs" "map_of (bl_objs objs) = map_of (objs_given 5 ?calls)"
    by blast
  then show ?thesis
    using start run commit by (auto simp: objs_given_def)
qed

section \<open>Handing open transactions to another node\<close>

definition tx_ok :: "'p bprotocol_scheme \<Rightarrow> u64 \<Rightarrow> CommitLogTx \<Rightarrow> bool" where
  "tx_ok P txId tx \<longleftrightarrow> txDesc tx = Some txId \<and> string_ok (tx_name tx) \<and>
     (case blobObjList tx of None \<Rightarrow> False | Some objs \<Rightarrow> BlobObjList_ok objs) \<and>
     (case metaDataList tx of None \<Rightarrow> False | Some meta \<Rightarrow> MetaDataList_ok meta) \<and>
     (case CommitLogTx_write P tx of Inl _ \<Rightarrow> False | Inr bs \<Rightarrow> length bs < 2 ^ 32)"

text \<open>What arrives of a transaction: its write batch, size and expunge flag are not sent.\<close>

definition tx_sent :: "CommitLogTx \<Rightarrow> CommitLogTx" where
  "tx_sent tx = tx\<lparr>blobExpunge := False, wb := [], blobSize := 0, dmtVersion := 0\<rparr>"

lemma reads_CommitLogTx:
  assumes "bprotocol_ok P" "tx_ok P txId tx" "CommitLogTx_write P tx = Inr bs"
  shows "reads (CommitLogTx_read P (CommitLogTx_new junk)) bs ((tx_sent tx)\<lparr>dmtVersion := junk\<rparr>)"
proof -
  obtain objs meta where tx: "txDesc tx = Some txId" "blobObjList tx = Some objs" "metaDataList tx = Some meta"
    and ok: "length (tx_name tx) < 2 ^ 31" "BlobObjList_ok objs" "MetaDataList_ok meta"
    using assms(2) by (auto simp: tx_ok_def string_ok_def split: option.splits)
  have "bs = writeI64 P txId @ writeString P (tx_name tx) @ writeI32 P (blobMode tx) @
      writeI64 P (tx_started tx) @ writeI64 P (committed tx) @ writeBool P (blobDelete tx) @
      writeBool P (tx_snapshot tx) @ BlobObjList_write P objs @ MetaDataList_write P meta @ writeI64 P (blobVersion tx)"
    using assms(3) tx by (simp add: CommitLogTx_write_def deref_def)
  moreover have "reads (CommitLogTx_read P (CommitLogTx_new junk)) \<dots>
      ((CommitLogTx_new junk)\<lparr>txDesc := Some txId, tx_name := tx_name tx, blobMode := blobMode tx,
       tx_started := tx_started tx, committed := committed tx, blobDelete := blobDelete tx,
       tx_snapshot := tx_snapshot tx, blobObjList := Some objs, metaDataList := Some meta, blobVersion := blobVersion tx\<rparr>)"
    unfolding CommitLogTx_read_def using assms(1) ok
    by (intro reads_then reads_rbind[OF reads_BlobObjList] reads_rbind[OF reads_MetaDataList] reads_last)
  moreover have "\<dots> = (tx_sent tx)\<lparr>dmtVersion := junk\<rparr>"
    using tx by (cases tx) (simp add: CommitLogTx_new_def tx_sent_def)
  ultimately show ?thesis by simp
qed

lemma CommitLogTx_written:
  assumes "tprotocol_ok P" "tx_ok P txId tx"
  obtains bs where "CommitLogTx_write P tx = Inr bs" "0 < length bs" "length bs < 2 ^ 32"
    "getSerialized (CommitLogTx_write P tx) [] = Inr (ERR_OK, bs)"
proof -
  obtain bs where bs: "CommitLogTx_write P tx = Inr bs" "length bs < 2 ^ 32"
    using assms(2) by (auto simp: tx_ok_def split: sum.splits)
  moreover have "writeI64 P l \<noteq> []" for l
    using assms(1) by (metis tprotocol_ok_def list.size(3) zero_neq_numeral)
  then have "0 < length bs"
    using bs(1) by (auto simp: CommitLogTx_write_def res_simps)
  moreover from this bs(2) have "(of_nat (length bs) :: u32) \<noteq> 0"
    using unat_of_nat_lt[where 'a = 32, of "length bs"] by (auto simp del: of_nat_eq_0_iff)
  ultimately show ?thesis
    by (intro that) (simp_all add: getSerialized_def Let_def)
qed

lemma snapshot_loop_all:
  assumes "tprotocol_ok P" "list_all2 (tx_ok P) txIds txs"
  shows "\<exists>bss. snapshot_loop P txs strings = Inr (strings @ bss, ERR_OK) \<and>
     list_all2 (\<lambda>tx bs. CommitLogTx_write P tx = Inr bs \<and> 0 < length bs \<and> length bs < 2 ^ 32) txs bss"
  using assms(2)
proof (induction arbitrary: strings rule: list_all2_induct)
  case (Cons txId txIds tx txs)
  obtain bs where bs: "CommitLogTx_write P tx = Inr bs" "0 < length bs" "length bs < 2 ^ 32"
    "getSerialized (CommitLogTx_write P tx) [] = Inr (ERR_OK, bs)"
    using CommitLogTx_written[OF assms(1) Cons(1)] .
  obtain bss where "snapshot_loop P txs (strings @ [bs]) = Inr ((strings @ [bs]) @ bss, ERR_OK)"
    "list_all2 (\<lambda>tx bs. CommitLogTx_write P tx = Inr bs \<and> 0 < length bs \<and> length bs < 2 ^ 32) txs bss"
    using Cons(3) by blast
  then show ?case
    using bs by (intro exI[of _ "bs # bss"]) simp
qed simp

lemma applySerializedTxs_all:
  assumes "bprotocol_ok P" "list_all2 (tx_ok P) txIds txs" "distinct txIds"
    and "list_all2 (\<lambda>tx bs. CommitLogTx_write P tx = Inr bs \<and> 0 < length bs \<and> length bs < 2 ^ 32) txs bss"
  shows "\<exists>log'. applySerializedTxs P junk log bss = Inr (log', ERR_OK) \<and> dmtVerMap log' = dmtVerMap log \<and>
     (\<forall>i. map_option (dmtVersion_update (\<lambda>_. 0)) (txMap log' i) =
       (case map_of (zip txIds txs) i of Some tx \<Rightarrow> Some (tx_sent tx)
        | None \<Rightarrow> map_option (dmtVersion_update (\<lambda>_. 0)) (txMap log i)))"
  using assms(2,4,3)
proof (induction txs arbitrary: txIds bss junk log rule: list.induct)
  case (Cons tx txs)
  obtain txId ids bs bss' where lists: "txIds = txId # ids" "bss = bs # bss'"
    and tx: "tx_ok P txId tx" "CommitLogTx_write P tx = Inr bs" "0 < length bs" "length bs < 2 ^ 32"
    and rest: "list_all2 (tx_ok P) ids txs" "distinct ids" "txId \<notin> set ids"
      "list_all2 (\<lambda>tx bs. CommitLogTx_write P tx = Inr bs \<and> 0 < length bs \<and> length bs < 2 ^ 32) txs bss'"
    using Cons.prems by (auto simp: list_all2_Cons1 list_all2_Cons2)
  let ?tx = "(tx_sent tx)\<lparr>dmtVersion := junk 0\<rparr>"
  let ?log = "log\<lparr>txMap := (txMap log)(txId \<mapsto> ?tx)\<rparr>"
  have "loadSerialized (CommitLogTx_read P (CommitLogTx_new (junk 0))) bs = Inr (ERR_OK, Some ?tx)"
    using loadSerialized_reads[OF reads_CommitLogTx[OF assms(1) tx(1,2)] tx(3,4)] .
  moreover have "txDesc ?tx = Some txId"
    using tx(1) by (simp add: tx_ok_def tx_sent_def)
  ultimately have receive: "applySerializedTxs P junk log bss = applySerializedTxs P (\<lambda>i. junk (Suc i)) ?log bss'"
    by (simp add: lists deref_def)
  have new: "map_of (zip ids txs) txId = None"
    using rest(3) by (auto simp: map_of_eq_None_iff dest: set_zip_leftD)
  obtain log' where log': "applySerializedTxs P (\<lambda>i. junk (Suc i)) ?log bss' = Inr (log', ERR_OK)"
    "dmtVerMap log' = dmtVerMap ?log" and txs': "map_option (dmtVersion_update (\<lambda>_. 0)) (txMap log' i) =
      (case map_of (zip ids txs) i of Some tx \<Rightarrow> Some (tx_sent tx)
       | None \<Rightarrow> map_option (dmtVersion_update (\<lambda>_. 0)) (txMap ?log i))" for i
    using Cons.IH[OF rest(1,4,2), of "\<lambda>i. junk (Suc i)" ?log] by blast
  have "map_option (dmtVersion_update (\<lambda>_. 0)) (txMap log' i) =
      (case map_of (zip txIds (tx # txs)) i of Some tx \<Rightarrow> Some (tx_sent tx)
       | None \<Rightarrow> map_option (dmtVersion_update (\<lambda>_. 0)) (txMap log i))" for i
    unfolding txs' using new by (cases "i = txId") (simp_all add: lists tx_sent_def split: option.split)
  then show ?case
    using log' by (intro exI[of _ log']) (simp add: receive)
qed simp

text \<open>
  C14. The open transactions of a commit log, serialized by its snapshot and applied to an
  empty log on another node, all arrive: for whatever order the hash map is walked in,
  both calls succeed and the receiving log holds exactly the same transactions, each with
  its name, mode, times, deletion flag, gathered objects and metadata. The write batch,
  the blob size, the expunge flag and the DMT version are lost on the way, and no counter
  of the receiving log takes note of them.
\<close>

theorem outstanding_handed_over:
  assumes "bprotocol_ok P" "hash_walk walk" "\<forall>txId tx. txMap log txId = Some tx \<longrightarrow> tx_ok P txId tx"
    and "txMap log0 = Map.empty"
  shows "\<exists>strings log'. snapshotOutstandingTx P walk log [] = Inr (strings, ERR_OK) \<and>
     applySerializedTxs P junk log0 strings = Inr (log', ERR_OK) \<and> dmtVerMap log' = dmtVerMap log0 \<and>
     (\<forall>txId. map_option (dmtVersion_update (\<lambda>_. 0)) (txMap log' txId) = map_option tx_sent (txMap log txId))"
proof -
  define ids where "ids = walk (txMap log)"
  define txs where "txs = map (\<lambda>i. the (txMap log i)) ids"
  have ids: "distinct ids" "set ids = dom (txMap log)"
    using assms(2) by (auto simp: hash_walk_def ids_def)
  have "List.map_filter (txMap log) is = map (\<lambda>i. the (txMap log i)) is" if "set is \<subseteq> dom (txMap log)" for "is"
    using that by (induction "is") (auto simp: List.map_filter_simps)
  then have txs: "List.map_filter (txMap log) (walk (txMap log)) = txs"
    using ids by (simp add: txs_def ids_def)
  have ok: "list_all2 (tx_ok P) ids txs"
    using ids assms(3) by (auto simp: txs_def list_all2_conv_all_nth) (metis domD nth_mem option.sel)
  obtain bss where sent: "snapshot_loop P txs [] = Inr (bss, ERR_OK)"
    and written: "list_all2 (\<lambda>tx bs. CommitLogTx_write P tx = Inr bs \<and> 0 < length bs \<and> length bs < 2 ^ 32) txs bss"
    using snapshot_loop_all[OF _ ok, of "[]"] assms(1) by (auto intro: reads_intros)
  have "map_of (zip ids txs) i = txMap log i" for i
    using ids by (auto simp: txs_def map_of_zip_map dom_def)
  then have "\<exists>log'. applySerializedTxs P junk log0 bss = Inr (log', ERR_OK) \<and> dmtVerMap log' = dmtVerMap log0 \<and>
      (\<forall>i. map_option (dmtVersion_update (\<lambda>_. 0)) (txMap log' i) = map_option tx_sent (txMap log i))"
    using applySerializedTxs_all[OF assms(1) ok ids(1) written, of junk log0] assms(4) by (simp add: map_option_case cong: option.case_cong)
  then show ?thesis
    using sent by (auto simp: snapshotOutstandingTx_def txs)
qed

definition sorted_walk :: "('k::linorder \<Rightarrow> 'v option) \<Rightarrow> 'k list" where
  "sorted_walk m = sorted_list_of_set (dom m)"

lemma hash_walk_sorted: "hash_walk sorted_walk"
  by (simp add: hash_walk_def sorted_walk_def)

theorem outstanding_handed_over_witness:
  "\<exists>log strings log'.
     startTx (mod_startup (DmCommitLog_new 1 4096)) 5 [97] 0 7 100 = Inr (log, ERR_OK) \<and>
     (\<forall>txId tx. txMap log txId = Some tx \<longrightarrow> tx_ok be_bprotocol txId tx) \<and>
     snapshotOutstandingTx be_bprotocol sorted_walk log [] = Inr (strings, ERR_OK) \<and>
     applySerializedTxs be_bprotocol (\<lambda>_. 9) (DmCommitLog_new 1 4096) strings = Inr (log', ERR_OK) \<and>
     map_option tx_name (txMap log' 5) = Some [97] \<and> bprotocol_ok be_bprotocol \<and> hash_walk (sorted_walk :: (u64 \<Rightarrow> CommitLogTx option) \<Rightarrow> _)"
proof -
  obtain log where start: "startTx (mod_startup (DmCommitLog_new 1 4096)) 5 [97] 0 7 100 = Inr (log, ERR_OK)"
    by (simp add: startTx_def mod_startup_def DmCommitLog_new_def)
  let ?tx = "(CommitLogTx_new 0)\<lparr>txDesc := Some 5, tx_name := [97], blobMode := 0, tx_started := 100, dmtVersion := 7\<rparr>"
  have tx: "txMap log = [5 \<mapsto> ?tx]"
    using start by (auto simp: startTx_def mod_startup_def DmCommitLog_new_def)
  have "tx_ok be_bprotocol 5 ?tx"
    by (simp add: tx_ok_def CommitLogTx_new_def string_ok_def BlobObjList_ok_def MetaDataList_ok_def BlobObjList_new_def
        CommitLogTx_write_def deref_def BlobObjList_write_def MetaDataList_write_def be_bprotocol_def be_sprotocol_def
        be_protocol_def sprotocol.defs bprotocol.defs tprotocol.defs)
  then have ok: "\<forall>txId tx. txMap log txId = Some tx \<longrightarrow> tx_ok be_bprotocol txId tx"
    by (simp add: tx)
  have empty: "txMap (DmCommitLog_new 1 4096) = Map.empty"
    by (simp add: DmCommitLog_new_def)
  obtain strings log' where handed: "snapshotOutstandingTx be_bprotocol sorted_walk log [] = Inr (strings, ERR_OK)"
    "applySerializedTxs be_bprotocol (\<lambda>_. 9) (DmCommitLog_new 1 4096) strings = Inr (log', ERR_OK)"
    and "map_option (dmtVersion_update (\<lambda>_. 0)) (txMap log' 5) = map_option tx_sent (txMap log 5)"
    using outstanding_handed_over[OF be_bprotocol_ok hash_walk_sorted ok empty, of "\<lambda>_. 9"] by blast
  then have "map_option tx_name (map_option (dmtVersion_update (\<lambda>_. 0)) (txMap log' 5)) =
      map_option tx_name (map_option tx_sent (txMap log 5))"
    by (simp only:)
  then have "map_option tx_name (txMap log' 5) = Some [97]"
    by (simp add: option.map_comp comp_def tx tx_sent_def CommitLogTx_new_def)
  then show ?thesis
    using start ok handed be_bprotocol_ok hash_walk_sorted by blast
qed

end
