(* ===== verification/Vol_Db.thy ===== *)
theory Vol_Db
  imports Blob_Types
begin

text \<open>
  The catalog of a volume, \<^verbatim>\<open>data-mgr/dm-lib/dm-vol-cat/DmPersistVolDB.cpp\<close> over
  \<^verbatim>\<open>lib/misc/Catalog.cpp\<close>: blob descriptors and the objects of the blobs, stored under the
  keys of \<open>Catalog_Key\<close> in leveldb. Leveldb is not part of the repository, so a database is a
  parameter: what a batch of writes makes of it, what a key holds, and the entries an
  iterator visits from the start or from a key it seeks. What the catalog relies on is
  \<open>leveldb_ok\<close>. Time stamps are arguments.
\<close>

section \<open>Leveldb\<close>

datatype ldb_status = LdbOk | LdbNotFound | LdbCorruption | LdbIOError | LdbOther

datatype write_op = Put bytes bytes | Delete bytes

record 'db leveldb =
  ldb_write :: "'db \<Rightarrow> write_op list \<Rightarrow> 'db \<times> ldb_status"
  ldb_get :: "'db \<Rightarrow> bytes \<Rightarrow> bytes option \<times> ldb_status"
  ldb_entries :: "'db \<Rightarrow> (bytes \<times> bytes) list"
  ldb_seek :: "'db \<Rightarrow> bytes \<Rightarrow> (bytes \<times> bytes) list"
  ldb_iter_status :: "'db \<Rightarrow> ldb_status"

fun op_key :: "write_op \<Rightarrow> bytes" where
  "op_key (Put key _) = key"
| "op_key (Delete key) = key"

fun apply_op :: "write_op \<Rightarrow> (bytes \<Rightarrow> bytes option) \<Rightarrow> bytes \<Rightarrow> bytes option" where
  "apply_op (Put key val) m = m(key \<mapsto> val)"
| "apply_op (Delete key) m = m(key := None)"

definition catalog_bytes :: "bytes \<Rightarrow> bool" where
  "catalog_bytes key \<longleftrightarrow> key \<in> range encode_key"

definition catalog_db :: "('db, 'z) leveldb_scheme \<Rightarrow> 'db \<Rightarrow> bool" where
  "catalog_db L db \<longleftrightarrow> (\<forall>(key, val)\<in>set (ldb_entries L db). catalog_bytes key)"

definition key_before :: "bytes \<Rightarrow> bytes \<Rightarrow> bool" where
  "key_before a b \<longleftrightarrow> Compare (NullObjectID, NullObjectID) a b = Inr (-1)"

text \<open>
  Documented behaviour, for databases and batches of catalog keys: an iterator visits the
  entries in the order of the comparator; seeking skips those before the key; a read that
  reports success or absence agrees with the entries; a batch whose write reports success
  has been applied as a whole, in order.
\<close>

definition leveldb_ok :: "('db, 'z) leveldb_scheme \<Rightarrow> bool" where
  "leveldb_ok L \<longleftrightarrow>
     (\<forall>db. catalog_db L db \<longrightarrow>
        sorted_wrt key_before (map fst (ldb_entries L db)) \<and>
        (\<forall>key. catalog_bytes key \<longrightarrow>
           ldb_seek L db key = dropWhile (\<lambda>e. key_before (fst e) key) (ldb_entries L db) \<and>
           (snd (ldb_get L db key) = LdbOk \<longrightarrow>
              fst (ldb_get L db key) = map_of (ldb_entries L db) key \<and> map_of (ldb_entries L db) key \<noteq> None) \<and>
           (snd (ldb_get L db key) = LdbNotFound \<longrightarrow> map_of (ldb_entries L db) key = None)) \<and>
        (\<forall>batch. list_all (\<lambda>w. catalog_bytes (op_key w)) batch \<and> snd (ldb_write L db batch) = LdbOk \<longrightarrow>
           catalog_db L (fst (ldb_write L db batch)) \<and>
           map_of (ldb_entries L (fst (ldb_write L db batch))) = fold apply_op batch (map_of (ldb_entries L db))))"

definition status2error :: "ldb_status \<Rightarrow> fds_errno" where
  "status2error s =
     (case s of LdbOk \<Rightarrow> ERR_OK | LdbCorruption \<Rightarrow> ERR_ONDISK_DATA_CORRUPT | LdbNotFound \<Rightarrow> ERR_VOL_NOT_FOUND
      | LdbIOError \<Rightarrow> ERR_DISK_READ_FAILED | LdbOther \<Rightarrow> ERR_INVALID)"

section \<open>Catalog\<close>

definition Catalog_Update :: "('db, 'z) leveldb_scheme \<Rightarrow> 'db \<Rightarrow> write_op list \<Rightarrow> 'db \<times> fds_errno" where
  "Catalog_Update L db batch =
     (let (db', status) = ldb_write L db batch
      in (db', if status \<noteq> LdbOk then ERR_DISK_WRITE_FAILED else ERR_OK))"

definition Catalog_Update_key :: "('db, 'z) leveldb_scheme \<Rightarrow> 'db \<Rightarrow> bytes \<Rightarrow> bytes \<Rightarrow> 'db \<times> fds_errno" where
  "Catalog_Update_key L db key val =
     (let (db', status) = ldb_write L db [Put key val]
      in (db', if status \<noteq> LdbOk then ERR_DISK_WRITE_FAILED else ERR_OK))"

definition Catalog_Delete :: "('db, 'z) leveldb_scheme \<Rightarrow> 'db \<Rightarrow> bytes \<Rightarrow> 'db \<times> fds_errno" where
  "Catalog_Delete L db key =
     (let (db', status) = ldb_write L db [Delete key]
      in (db', if status \<noteq> LdbOk then ERR_DISK_WRITE_FAILED else ERR_OK))"

definition Catalog_Query :: "('db, 'z) leveldb_scheme \<Rightarrow> 'db \<Rightarrow> bytes \<Rightarrow> bytes option \<times> fds_errno" where
  "Catalog_Query L db key =
     (let (val, status) = ldb_get L db key
      in if status = LdbNotFound then (val, ERR_CAT_ENTRY_NOT_FOUND)
         else if status \<noteq> LdbOk then (val, ERR_DISK_READ_FAILED)
         else (val, ERR_OK))"

section \<open>State\<close>

record DmVolumeSummary =
  vs_initialized :: bool
  vs_size :: u64
  vs_blobCount :: u64
  vs_objectCount :: u64

record 'db DmPersistVolDB =
  pv_db :: 'db
  pv_objSize :: u32
  pv_snapshot :: bool
  pv_readOnly :: bool
  pv_summary :: DmVolumeSummary
  pv_snapshotCount :: u64

definition DmPersistVolDB_new :: "'db \<Rightarrow> u32 \<Rightarrow> bool \<Rightarrow> bool \<Rightarrow> 'db DmPersistVolDB res" where
  "DmPersistVolDB_new db objSize snap readOnly =
     fds_verify (objSize > 0) (fds_verify (snap \<longrightarrow> readOnly)
       (Inr \<lparr>pv_db = db, pv_objSize = objSize, pv_snapshot = snap, pv_readOnly = readOnly,
             pv_summary = \<lparr>vs_initialized = False, vs_size = 0, vs_blobCount = 0, vs_objectCount = 0\<rparr>,
             pv_snapshotCount = 0\<rparr>))"

definition op_allowed :: "'db DmPersistVolDB \<Rightarrow> bool" where
  "op_allowed vol \<longleftrightarrow> \<not> (pv_snapshot vol \<or> pv_readOnly vol)"

text \<open>\<^verbatim>\<open>TIMESTAMP_OP\<close>: every batch starts with the time of the operation.\<close>

definition timestamp_op :: "u64 \<Rightarrow> write_op" where
  "timestamp_op now = Put JournalTimestampKey (le_bytes 8 now)"

definition vol_update :: "('db, 'z) leveldb_scheme \<Rightarrow> 'db DmPersistVolDB \<Rightarrow> write_op list \<Rightarrow> 'db DmPersistVolDB \<times> fds_errno" where
  "vol_update L vol batch = (let (db', rc) = Catalog_Update L (pv_db vol) batch in (vol\<lparr>pv_db := db'\<rparr>, rc))"

text \<open>The index of the object at an offset, if it fits the 32 bits a key has for it.\<close>

definition object_index :: "u32 \<Rightarrow> u64 \<Rightarrow> u32 option" where
  "object_index objSize offset =
     (let objectIndex = offset div ucast objSize
      in if objectIndex > 0xFFFFFFFF then None else Some (ucast objectIndex))"

definition aligned :: "u32 \<Rightarrow> u64 \<Rightarrow> 'a res \<Rightarrow> 'a res" where
  "aligned objSize offset k =
     (if objSize = 0 then Inl Undefined else fds_verify (offset mod ucast objSize = 0) k)"

section \<open>Puts\<close>

definition putVolumeMetaDesc :: "'p bprotocol_scheme \<Rightarrow> ('db, 'z) leveldb_scheme \<Rightarrow> 'db DmPersistVolDB \<Rightarrow>
    VolumeMetaDesc \<Rightarrow> u64 \<Rightarrow> ('db DmPersistVolDB \<times> fds_errno) res" where
  "putVolumeMetaDesc P L vol volDesc now =
     bindR (getSerialized (Inr (VolumeMetaDesc_write P volDesc)) []) (\<lambda>(rc, val).
     if rc = ERR_OK then Inr (vol_update L vol [timestamp_op now, Put VolumeMetadataKey val])
     else Inr (vol, rc))"

text \<open>The last step of \<^verbatim>\<open>activate\<close>, once the database is open.\<close>

definition activate_opened :: "'p bprotocol_scheme \<Rightarrow> ('db, 'z) leveldb_scheme \<Rightarrow> 'db DmPersistVolDB \<Rightarrow> u64 \<Rightarrow>
    ('db DmPersistVolDB \<times> fds_errno) res" where
  "activate_opened P L vol now =
     bindR (putVolumeMetaDesc P L vol (VolumeMetaDesc_new [] 0) now) (\<lambda>(vol', rc).
     Inr (vol', if rc \<noteq> ERR_OK then ERR_DM_VOL_NOT_ACTIVATED else ERR_OK))"

definition putBlobMetaDesc :: "'p bprotocol_scheme \<Rightarrow> ('db, 'z) leveldb_scheme \<Rightarrow> 'db DmPersistVolDB \<Rightarrow>
    bytes \<Rightarrow> BlobMetaDesc \<Rightarrow> u64 \<Rightarrow> ('db DmPersistVolDB \<times> fds_errno) res" where
  "putBlobMetaDesc P L vol blobName blobMeta now =
     (if \<not> op_allowed vol then Inr (vol, ERR_DM_OP_NOT_ALLOWED)
      else bindR (getSerialized (Inr (BlobMetaDesc_write P blobMeta)) []) (\<lambda>(rc, val).
      if rc = ERR_OK then Inr (vol_update L vol [timestamp_op now, Put (BlobMetadataKey blobName) val])
      else Inr (vol, rc)))"

definition putObject :: "('db, 'z) leveldb_scheme \<Rightarrow> 'db DmPersistVolDB \<Rightarrow> bytes \<Rightarrow> u64 \<Rightarrow> ObjectID \<Rightarrow> u64 \<Rightarrow>
    ('db DmPersistVolDB \<times> fds_errno) res" where
  "putObject L vol blobName offset obj now =
     (if \<not> op_allowed vol then Inr (vol, ERR_DM_OP_NOT_ALLOWED)
      else aligned (pv_objSize vol) offset
        (case object_index (pv_objSize vol) offset of
           None \<Rightarrow> Inr (vol, ERR_DM_OFFSET_OUT_RANGE)
         | Some objectIndex \<Rightarrow> Inr (vol_update L vol
             [timestamp_op now, Put (BlobObjectKey blobName objectIndex) (digest obj)])))"

text \<open>The loops that fill a batch stop at the first offset that is out of range.\<close>

fun put_ops :: "u32 \<Rightarrow> bytes \<Rightarrow> (u64 \<times> BlobObjInfo) list \<Rightarrow> write_op list option res" where
  "put_ops objSize blobName [] = Inr (Some [])"
| "put_ops objSize blobName ((offset, info) # objs) =
     aligned objSize offset
       (case object_index objSize offset of
          None \<Rightarrow> Inr None
        | Some objectIndex \<Rightarrow> bindR (put_ops objSize blobName objs)
            (\<lambda>ops. Inr (map_option ((#) (Put (BlobObjectKey blobName objectIndex) (digest (obj_oid info)))) ops)))"

fun delete_ops :: "u32 \<Rightarrow> bytes \<Rightarrow> u64 list \<Rightarrow> write_op list option res" where
  "delete_ops objSize blobName [] = Inr (Some [])"
| "delete_ops objSize blobName (offset # offsets) =
     aligned objSize offset
       (case object_index objSize offset of
          None \<Rightarrow> Inr None
        | Some objectIndex \<Rightarrow> bindR (delete_ops objSize blobName offsets)
            (\<lambda>ops. Inr (map_option ((#) (Delete (BlobObjectKey blobName objectIndex))) ops)))"

definition putObject_list :: "('db, 'z) leveldb_scheme \<Rightarrow> 'db DmPersistVolDB \<Rightarrow> bytes \<Rightarrow> BlobObjList \<Rightarrow> u64 \<Rightarrow>
    ('db DmPersistVolDB \<times> fds_errno) res" where
  "putObject_list L vol blobName objs now =
     (if \<not> op_allowed vol then Inr (vol, ERR_DM_OP_NOT_ALLOWED)
      else if bl_objs objs = [] then Inr (vol, ERR_OK)
      else bindR (put_ops (pv_objSize vol) blobName (bl_objs objs)) (\<lambda>ops. case ops of
             None \<Rightarrow> Inr (vol, ERR_DM_OFFSET_OUT_RANGE)
           | Some ops \<Rightarrow> Inr (vol_update L vol (timestamp_op now # ops))))"

definition putBatch :: "'p bprotocol_scheme \<Rightarrow> ('db, 'z) leveldb_scheme \<Rightarrow> 'db DmPersistVolDB \<Rightarrow> bytes \<Rightarrow>
    BlobMetaDesc \<Rightarrow> BlobObjList \<Rightarrow> u64 list \<Rightarrow> u64 \<Rightarrow> ('db DmPersistVolDB \<times> fds_errno) res" where
  "putBatch P L vol blobName blobMeta puts deletes now =
     (if \<not> op_allowed vol then Inr (vol, ERR_DM_OP_NOT_ALLOWED)
      else bindR (put_ops (pv_objSize vol) blobName (bl_objs puts)) (\<lambda>pops. case pops of
          None \<Rightarrow> Inr (vol, ERR_DM_OFFSET_OUT_RANGE)
        | Some pops \<Rightarrow> bindR (delete_ops (pv_objSize vol) blobName deletes) (\<lambda>dops. case dops of
          None \<Rightarrow> Inr (vol, ERR_DM_OFFSET_OUT_RANGE)
        | Some dops \<Rightarrow> bindR (getSerialized (Inr (BlobMetaDesc_write P blobMeta)) []) (\<lambda>(rc, val).
          if rc \<noteq> ERR_OK then Inr (vol, rc)
          else Inr (vol_update L vol
            (timestamp_op now # pops @ dops @ [Put (BlobMetadataKey blobName) val]))))))"

text \<open>The batch a transaction has gathered; it is extended in place.\<close>

definition putBatch_wb :: "'p bprotocol_scheme \<Rightarrow> ('db, 'z) leveldb_scheme \<Rightarrow> 'db DmPersistVolDB \<Rightarrow> bytes \<Rightarrow>
    BlobMetaDesc \<Rightarrow> write_op list \<Rightarrow> u64 \<Rightarrow> ('db DmPersistVolDB \<times> write_op list \<times> fds_errno) res" where
  "putBatch_wb P L vol blobName blobMeta batch now =
     (if \<not> op_allowed vol then Inr (vol, batch, ERR_DM_OP_NOT_ALLOWED)
      else let batch = batch @ [timestamp_op now]
        in bindR (getSerialized (Inr (BlobMetaDesc_write P blobMeta)) []) (\<lambda>(rc, val).
           if rc \<noteq> ERR_OK then Inr (vol, batch, rc)
           else let batch = batch @ [Put (BlobMetadataKey blobName) val]; (vol', rc) = vol_update L vol batch
             in Inr (vol', batch, rc)))"

section \<open>Deletes\<close>

definition deleteObject :: "('db, 'z) leveldb_scheme \<Rightarrow> 'db DmPersistVolDB \<Rightarrow> bytes \<Rightarrow> u64 \<Rightarrow> u64 \<Rightarrow>
    ('db DmPersistVolDB \<times> fds_errno) res" where
  "deleteObject L vol blobName offset now =
     (if pv_objSize vol = 0 then Inl Undefined
      else case object_index (pv_objSize vol) offset of
          None \<Rightarrow> Inr (vol, ERR_DM_OFFSET_OUT_RANGE)
        | Some objectIndex \<Rightarrow> Inr (vol_update L vol
            [timestamp_op now, Delete (BlobObjectKey blobName objectIndex)]))"

definition deleteBlobMetaDesc :: "('db, 'z) leveldb_scheme \<Rightarrow> 'db DmPersistVolDB \<Rightarrow> bytes \<Rightarrow> u64 \<Rightarrow>
    'db DmPersistVolDB \<times> fds_errno" where
  "deleteBlobMetaDesc L vol blobName now =
     vol_update L vol [timestamp_op now, Delete (BlobMetadataKey blobName)]"

text \<open>
  Deleting a range flushes one batch per object. The offset cannot wrap: an index that
  fits 32 bits bounds it well below the end of its type.
\<close>

lemma object_index_bound:
  assumes "objSize \<noteq> 0" "object_index objSize offset = Some i"
  shows "unat offset < 2 ^ 32 * unat objSize" "unat (offset + ucast objSize) = unat offset + unat objSize"
proof -
  have "offset div ucast objSize \<le> (0xFFFFFFFF :: u64)"
    using assms(2) by (auto simp: object_index_def Let_def split: if_splits)
  then have "unat offset div unat objSize \<le> 0xFFFFFFFF"
    by (simp add: word_le_nat_alt unat_div unat_ucast_u32)
  then have "unat offset div unat objSize < 2 ^ 32"
    by simp
  then show less: "unat offset < 2 ^ 32 * unat objSize"
    using assms(1) by (simp add: div_less_iff_less_mult unat_gt_0)
  have "unat objSize < 2 ^ 32"
    using unsigned_less[of objSize] by simp
  then have "2 ^ 32 * unat objSize + unat objSize < 2 ^ 64"
    by simp
  then have "unat offset + unat (ucast objSize :: u64) < 2 ^ LENGTH(64)"
    using less by (simp add: unat_ucast_u32)
  then show "unat (offset + ucast objSize) = unat offset + unat objSize"
    by (simp add: unat_add_lem[THEN iffD1] unat_ucast_u32)
qed

function deleteObject_range :: "('db, 'z) leveldb_scheme \<Rightarrow> 'db DmPersistVolDB \<Rightarrow> bytes \<Rightarrow> u64 \<Rightarrow> u64 \<Rightarrow> (nat \<Rightarrow> u64) \<Rightarrow>
    ('db DmPersistVolDB \<times> fds_errno) res" where
  "deleteObject_range L vol blobName i endOffset clk =
     (if \<not> i \<le> endOffset then Inr (vol, ERR_OK)
      else if pv_objSize vol = 0 then Inl Undefined
      else case object_index (pv_objSize vol) i of
          None \<Rightarrow> Inr (vol, ERR_DM_OFFSET_OUT_RANGE)
        | Some objectIndex \<Rightarrow>
            (let (vol', rc) = vol_update L vol [timestamp_op (clk 0),
                 Delete (setObjectIndex (BlobObjectKey blobName 0) objectIndex)]
             in if rc \<noteq> ERR_OK then Inr (vol', rc)
                else deleteObject_range L vol' blobName (i + ucast (pv_objSize vol)) endOffset
                       (\<lambda>n. clk (Suc n))))"
  by pat_completeness auto

termination
proof (relation "measure (\<lambda>(L, vol, blobName, i, endOffset, clk). 2 ^ 64 - unat i)")
  fix L :: "('db, 'z) leveldb_scheme" and vol vol' :: "'db DmPersistVolDB" and blobName i endOffset clk objectIndex x rc
  assume "pv_objSize vol \<noteq> 0" "object_index (pv_objSize vol) i = Some objectIndex"
  then have "unat i < unat (i + ucast (pv_objSize vol))"
    using object_index_bound(2)[of "pv_objSize vol" i objectIndex] by (simp add: unat_gt_0)
  moreover have "unat (i + ucast (pv_objSize vol)) < 2 ^ 64"
    using unsigned_less[of "i + ucast (pv_objSize vol)"] by simp
  ultimately show "((L, vol', blobName, i + ucast (pv_objSize vol), endOffset, \<lambda>n. clk (Suc n)), L, vol, blobName, i, endOffset, clk)
      \<in> measure (\<lambda>(L, vol, blobName, i, endOffset, clk). 2 ^ 64 - unat i)"
    by simp
qed simp

section \<open>Gets\<close>

definition getVolumeMetaDesc :: "'p bprotocol_scheme \<Rightarrow> ('db, 'z) leveldb_scheme \<Rightarrow> 'db \<Rightarrow>
    (fds_errno \<times> VolumeMetaDesc option) res" where
  "getVolumeMetaDesc P L db =
     (let (val, rc) = Catalog_Query L db VolumeMetadataKey
      in if rc \<noteq> ERR_OK then Inr (rc, None)
         else bindR (deref val) (loadSerialized (VolumeMetaDesc_read P)))"

definition getBlobMetaDesc :: "'p bprotocol_scheme \<Rightarrow> ('db, 'z) leveldb_scheme \<Rightarrow> 'db \<Rightarrow> bytes \<Rightarrow>
    (fds_errno \<times> BlobMetaDesc option) res" where
  "getBlobMetaDesc P L db blobName =
     (let (val, rc) = Catalog_Query L db (BlobMetadataKey blobName)
      in if rc \<noteq> ERR_OK then Inr (rc, None)
         else bindR (deref val) (loadSerialized (BlobMetaDesc_read P)))"

text \<open>The first byte of a key an iterator is at.\<close>

definition is_type :: "CatalogKeyType \<Rightarrow> bytes \<Rightarrow> bool res" where
  "is_type t key = (if key = [] then Inl Undefined else Inr (hd key = key_code t))"

text \<open>A descriptor that has to load: anything else stops the process.\<close>

definition must_load :: "'p bprotocol_scheme \<Rightarrow> bytes \<Rightarrow> BlobMetaDesc res" where
  "must_load P val = bindR (loadSerialized (BlobMetaDesc_read P) val) (\<lambda>(err, m). fds_verify (err = ERR_OK) (deref m))"

fun all_metas :: "'p bprotocol_scheme \<Rightarrow> (bytes \<times> bytes) list \<Rightarrow> BlobMetaDesc list \<Rightarrow> BlobMetaDesc list res" where
  "all_metas P [] blobMetaList = Inr blobMetaList"
| "all_metas P ((key, val) # dbIt) blobMetaList =
     bindR (is_type BLOB_METADATA key) (\<lambda>meta.
     if meta then bindR (must_load P val) (\<lambda>blobMeta. all_metas P dbIt (blobMetaList @ [blobMeta]))
     else all_metas P dbIt blobMetaList)"

definition getAllBlobMetaDesc :: "'p bprotocol_scheme \<Rightarrow> ('db, 'z) leveldb_scheme \<Rightarrow> 'db \<Rightarrow> BlobMetaDesc list \<Rightarrow>
    (BlobMetaDesc list \<times> fds_errno) res" where
  "getAllBlobMetaDesc P L db blobMetaList =
     bindR (all_metas P (ldb_entries L db) blobMetaList) (\<lambda>l. Inr (l, ERR_OK))"

text \<open>\<^verbatim>\<open>std::string::find(pat, pos)\<close>.\<close>

definition str_find :: "bytes \<Rightarrow> bytes \<Rightarrow> nat \<Rightarrow> nat option" where
  "str_find str pat pos =
     find (\<lambda>i. take (length pat) (drop i str) = pat) [pos ..< Suc (length str) - length pat]"

text \<open>
  The listing by prefix. A seek inside the loop may go backwards, so the loop may not end.
  After a seek the loop's own \<^verbatim>\<open>Next\<close> is still due, which needs the iterator to be at an entry.
\<close>

partial_function (option) prefix_loop :: "'p bprotocol_scheme \<Rightarrow> ('db, 'z) leveldb_scheme \<Rightarrow> 'db \<Rightarrow> bytes \<Rightarrow> bytes \<Rightarrow> bytes \<Rightarrow>
    (bytes \<times> bytes) list \<Rightarrow> BlobMetaDesc list \<Rightarrow> bytes list \<Rightarrow> (BlobMetaDesc list \<times> bytes list) res option" where
  "prefix_loop P L db prefix delimiter endKey dbIt blobMetaList skippedPrefixes =
     (case dbIt of
        [] \<Rightarrow> Some (Inr (blobMetaList, skippedPrefixes))
      | e # dbIt' \<Rightarrow>
          (case (if prefix = [] then Inr (-1) else Compare (NullObjectID, NullObjectID) (fst e) endKey) of
             Inl err \<Rightarrow> Some (Inl err)
           | Inr c \<Rightarrow>
               if \<not> c < 0 then Some (Inr (blobMetaList, skippedPrefixes))
               else (case must_load P (snd e) of
                  Inl err \<Rightarrow> Some (Inl err)
                | Inr blobMetadata \<Rightarrow>
                   (let blobName = blob_name (bd_desc blobMetadata)
                    in case (if delimiter = [] then None else str_find blobName delimiter (length prefix)) of
                         None \<Rightarrow> prefix_loop P L db prefix delimiter endKey dbIt'
                                    (blobMetaList @ [blobMetadata]) skippedPrefixes
                       | Some delimiterPosition \<Rightarrow>
                          (let blobNameToDelimiter = take (delimiterPosition + 1) blobName
                           in case ldb_seek L db (getIncremented (BlobMetadataKey blobNameToDelimiter)) of
                                [] \<Rightarrow> Some (Inl Undefined)
                              | _ # dbIt'' \<Rightarrow> prefix_loop P L db prefix delimiter endKey dbIt'' blobMetaList
                                    (skippedPrefixes @ [drop (length prefix) blobNameToDelimiter]))))))"

definition getBlobMetaDescForPrefix :: "'p bprotocol_scheme \<Rightarrow> ('db, 'z) leveldb_scheme \<Rightarrow> 'db \<Rightarrow> bytes \<Rightarrow> bytes \<Rightarrow>
    BlobMetaDesc list \<Rightarrow> bytes list \<Rightarrow> (BlobMetaDesc list \<times> bytes list \<times> fds_errno) res option" where
  "getBlobMetaDescForPrefix P L db prefix delimiter blobMetaList skippedPrefixes =
     (if prefix = [] \<and> delimiter = []
      then Some (bindR (getAllBlobMetaDesc P L db blobMetaList) (\<lambda>(l, rc). Inr (l, skippedPrefixes, rc)))
      else map_option (\<lambda>r. bindR r (\<lambda>(l, skipped). Inr (l, skipped, ERR_OK)))
        (prefix_loop P L db prefix delimiter (getIncremented (BlobMetadataKey prefix))
          (if prefix = [] then ldb_entries L db else ldb_seek L db (BlobMetadataKey prefix))
          blobMetaList skippedPrefixes))"

text \<open>The abort flag is read once per entry: \<open>abortFlag\<close> gives what each reading sees.\<close>

fun sequence_ids :: "'p bprotocol_scheme \<Rightarrow> (nat \<Rightarrow> bool) \<Rightarrow> (bytes \<times> bytes) list \<Rightarrow> (bytes, u64) omap \<Rightarrow>
    ((bytes, u64) omap \<times> fds_errno) res" where
  "sequence_ids P abortFlag [] blobsSeqId = Inr (blobsSeqId, ERR_OK)"
| "sequence_ids P abortFlag ((key, val) # dbIt) blobsSeqId =
     (if abortFlag 0 then Inr (blobsSeqId, ERR_DM_MIGRATION_ABORTED)
      else bindR (is_type BLOB_METADATA key) (\<lambda>meta.
        if meta then bindR (loadSerialized (BlobMetaDesc_read P) val) (\<lambda>(err, m).
          if err \<noteq> ERR_OK then Inr (blobsSeqId, ERR_SERIALIZE_FAILED)
          else bindR (deref m) (\<lambda>blobMeta. sequence_ids P (\<lambda>n. abortFlag (Suc n)) dbIt
             (omap_insert (blob_name (bd_desc blobMeta)) (bm_sequence_id (bd_desc blobMeta)) blobsSeqId)))
        else sequence_ids P (\<lambda>n. abortFlag (Suc n)) dbIt blobsSeqId))"

definition getAllBlobsWithSequenceId :: "'p bprotocol_scheme \<Rightarrow> ('db, 'z) leveldb_scheme \<Rightarrow> 'db \<Rightarrow> (nat \<Rightarrow> bool) \<Rightarrow>
    (bytes, u64) omap \<Rightarrow> ((bytes, u64) omap \<times> fds_errno) res" where
  "getAllBlobsWithSequenceId P L db abortFlag blobsSeqId =
     bindR (sequence_ids P abortFlag (ldb_entries L db) blobsSeqId) (\<lambda>(m, err).
     if err \<noteq> ERR_OK then Inr (m, err)
     else Inr (m, status2error (ldb_iter_status L db)))"

fun max_sequence :: "'p bprotocol_scheme \<Rightarrow> (bytes \<times> bytes) list \<Rightarrow> u64 \<Rightarrow> (u64 \<times> fds_errno) res" where
  "max_sequence P [] mx = Inr (mx, ERR_OK)"
| "max_sequence P ((key, val) # dbIt) mx =
     bindR (is_type BLOB_METADATA key) (\<lambda>meta.
     if meta then bindR (loadSerialized (BlobMetaDesc_read P) val) (\<lambda>(err, m).
       if err \<noteq> ERR_OK then Inr (mx, ERR_SERIALIZE_FAILED)
       else bindR (deref m) (\<lambda>blobMeta. max_sequence P dbIt
         (if mx < bm_sequence_id (bd_desc blobMeta) then bm_sequence_id (bd_desc blobMeta) else mx)))
     else max_sequence P dbIt mx)"

definition getLatestSequenceId :: "'p bprotocol_scheme \<Rightarrow> ('db, 'z) leveldb_scheme \<Rightarrow> 'db \<Rightarrow> (u64 \<times> fds_errno) res" where
  "getLatestSequenceId P L db =
     bindR (max_sequence P (ldb_entries L db) 0) (\<lambda>(mx, err).
     if err \<noteq> ERR_OK then Inr (mx, err)
     else if ldb_iter_status L db = LdbOk
     then bindR (getVolumeMetaDesc P L db) (\<lambda>(err, v).
       if err = ERR_OK then bindR (deref v) (\<lambda>volMetaDesc.
         Inr (if mx < vd_sequence_id volMetaDesc then vd_sequence_id volMetaDesc else mx, err))
       else Inr (mx, err))
     else Inr (mx, status2error (ldb_iter_status L db)))"

definition getObject :: "('db, 'z) leveldb_scheme \<Rightarrow> 'db DmPersistVolDB \<Rightarrow> bytes \<Rightarrow> u64 \<Rightarrow> ObjectID \<Rightarrow>
    (ObjectID \<times> fds_errno) res" where
  "getObject L vol blobName offset obj =
     aligned (pv_objSize vol) offset
       (case object_index (pv_objSize vol) offset of
          None \<Rightarrow> Inr (obj, ERR_DM_OFFSET_OUT_RANGE)
        | Some objectIndex \<Rightarrow>
            (let (val, rc) = Catalog_Query L (pv_db vol) (BlobObjectKey blobName objectIndex)
             in if rc \<noteq> ERR_OK then Inr (obj, rc)
                else bindR (deref val) (\<lambda>v. bindR (SetId obj v (length v)) (\<lambda>oid. Inr (oid, rc)))))"

text \<open>
  The two range reads walk the entries from the key of the first object while they do not
  come after that of the last one; here the indices are cut to 32 bits unchecked.
\<close>

fun range_scan :: "bytes \<Rightarrow> (bytes \<Rightarrow> bytes \<Rightarrow> 's \<Rightarrow> 's res) \<Rightarrow> (bytes \<times> bytes) list \<Rightarrow> 's \<Rightarrow> 's res" where
  "range_scan endKey visit [] st = Inr st"
| "range_scan endKey visit ((key, val) # dbIt) st =
     bindR (Compare (NullObjectID, NullObjectID) key endKey) (\<lambda>c.
     if c \<le> 0 then bindR (BlobObjectKey_slice key) (\<lambda>typed. bindR (visit typed val st) (range_scan endKey visit dbIt))
     else Inr st)"

definition range_keys :: "u32 \<Rightarrow> bytes \<Rightarrow> u64 \<Rightarrow> u64 \<Rightarrow> (bytes \<Rightarrow> bytes \<Rightarrow> 'a res) \<Rightarrow> 'a res" where
  "range_keys objSize blobName startOffset endOffset k =
     aligned objSize startOffset (aligned objSize endOffset
       (k (BlobObjectKey blobName (ucast (startOffset div ucast objSize)))
          (BlobObjectKey blobName (ucast (endOffset div ucast objSize)))))"

definition fdsp_entry :: "u32 \<Rightarrow> bytes \<Rightarrow> bytes \<Rightarrow> FDSP_BlobObjectInfo" where
  "fdsp_entry objSize key val =
     \<lparr>fo_offset = ucast (getObjectIndex key) * ucast objSize, fo_digest = val, fo_size = ucast objSize\<rparr>"

definition getObject_fdsp :: "('db, 'z) leveldb_scheme \<Rightarrow> 'db DmPersistVolDB \<Rightarrow> bytes \<Rightarrow> u64 \<Rightarrow> u64 \<Rightarrow>
    FDSP_BlobObjectInfo list \<Rightarrow> (FDSP_BlobObjectInfo list \<times> fds_errno) res" where
  "getObject_fdsp L vol blobName startOffset endOffset objList =
     range_keys (pv_objSize vol) blobName startOffset endOffset (\<lambda>startKey endKey.
       bindR (range_scan endKey (\<lambda>key val objs. Inr (objs @ [fdsp_entry (pv_objSize vol) key val]))
           (ldb_seek L (pv_db vol) startKey) objList) (\<lambda>objs.
       Inr (objs, status2error (ldb_iter_status L (pv_db vol)))))"

definition getObject_list :: "('db, 'z) leveldb_scheme \<Rightarrow> 'db DmPersistVolDB \<Rightarrow> bytes \<Rightarrow> u64 \<Rightarrow> u64 \<Rightarrow> BlobObjList \<Rightarrow>
    (BlobObjList \<times> fds_errno) res" where
  "getObject_list L vol blobName startOffset endOffset objList =
     range_keys (pv_objSize vol) blobName startOffset endOffset (\<lambda>startKey endKey.
       bindR (range_scan endKey (\<lambda>key val objs.
             bindR (SetId NullObjectID val (length val)) (\<lambda>oid.
               Inr (updateObject (ucast (getObjectIndex key) * ucast (pv_objSize vol)) oid (ucast (pv_objSize vol)) objs)))
           (ldb_seek L (pv_db vol) startKey) objList) (\<lambda>objs.
       Inr (objs, ERR_OK)))"

section \<open>Walking the objects\<close>

fun each_object :: "(bytes \<times> bytes) list \<Rightarrow> ObjectID \<Rightarrow> ObjectID list \<Rightarrow> ObjectID list res" where
  "each_object [] objId seen = Inr seen"
| "each_object ((key, val) # dbIt) objId seen =
     bindR (is_type BLOB_OBJECTS key) (\<lambda>obj.
     if obj then bindR (BlobObjectKey_slice key) (\<lambda>_. bindR (SetId objId val (length val)) (\<lambda>objId'.
       each_object dbIt objId' (seen @ [objId'])))
     else Inr seen)"

text \<open>The objects the function is called with, in order.\<close>

definition forEachObject :: "('db, 'z) leveldb_scheme \<Rightarrow> 'db \<Rightarrow> ObjectID list res" where
  "forEachObject L db = each_object (ldb_seek L db (BlobObjectKey [] 0)) NullObjectID []"

text \<open>\<^verbatim>\<open>ObjectID(string)\<close> leaves the digest uninitialised, \<open>junk\<close>, when the string is not 20 bytes long.\<close>

definition ObjectID_string :: "ObjectID \<Rightarrow> bytes \<Rightarrow> ObjectID" where
  "ObjectID_string junk str = (if length str \<noteq> 20 then junk else ObjectID_bytes str)"

fun object_ids :: "ObjectID \<Rightarrow> nat \<Rightarrow> (bytes \<times> bytes) list \<Rightarrow> ObjectID list \<Rightarrow> (ObjectID list \<times> (bytes \<times> bytes) list) res" where
  "object_ids junk maxObjs [] objects = Inr (objects, [])"
| "object_ids junk maxObjs ((key, val) # dbItr) objects =
     (if \<not> length objects < maxObjs then Inr (objects, (key, val) # dbItr)
      else bindR (is_type BLOB_OBJECTS key) (\<lambda>obj.
        object_ids junk maxObjs dbItr (if obj then objects @ [ObjectID_string junk val] else objects)))"

definition getObjectIds :: "ObjectID \<Rightarrow> ('db, 'z) leveldb_scheme \<Rightarrow> u32 \<Rightarrow> 'db \<Rightarrow> (bytes \<times> bytes) list option \<Rightarrow>
    (ObjectID list \<times> (bytes \<times> bytes) list) res" where
  "getObjectIds junk L maxObjs snap dbItr =
     object_ids junk (unat maxObjs) (case dbItr of None \<Rightarrow> ldb_entries L snap | Some it \<Rightarrow> it) []"

section \<open>The summary of the volume\<close>

definition initVolSummary :: "'db DmPersistVolDB \<Rightarrow> u64 \<Rightarrow> u64 \<Rightarrow> u64 \<Rightarrow> 'db DmPersistVolDB \<times> fds_errno" where
  "initVolSummary vol logicalSize blobCount logicalObjectCount =
     (if \<not> vs_initialized (pv_summary vol)
      then (vol\<lparr>pv_summary := \<lparr>vs_initialized = True, vs_size = logicalSize, vs_blobCount = blobCount,
              vs_objectCount = logicalObjectCount\<rparr>\<rparr>, ERR_OK)
      else (vol, ERR_DUPLICATE))"

definition stat_delta :: "u64 \<Rightarrow> u64 \<Rightarrow> u64 \<Rightarrow> u64" where
  "stat_delta added removed stat = (if added \<ge> removed then stat + (added - removed) else stat - (removed - added))"

definition applyStatDeltas :: "'db DmPersistVolDB \<Rightarrow> u64 \<times> u64 \<Rightarrow> u64 \<times> u64 \<Rightarrow> u64 \<times> u64 \<Rightarrow> 'db DmPersistVolDB \<times> fds_errno" where
  "applyStatDeltas vol bytesAR blobsAR objectsAR =
     (if \<not> vs_initialized (pv_summary vol) then (vol, ERR_NOT_READY)
      else (vol\<lparr>pv_summary := (pv_summary vol)\<lparr>
          vs_size := stat_delta (fst bytesAR) (snd bytesAR) (vs_size (pv_summary vol)),
          vs_blobCount := stat_delta (fst blobsAR) (snd blobsAR) (vs_blobCount (pv_summary vol)),
          vs_objectCount := stat_delta (fst objectsAR) (snd objectsAR) (vs_objectCount (pv_summary vol))\<rparr>\<rparr>, ERR_OK))"

definition resetVolSummary :: "'db DmPersistVolDB \<Rightarrow> 'db DmPersistVolDB" where
  "resetVolSummary vol = vol\<lparr>pv_summary := \<lparr>vs_initialized = False, vs_size = 0, vs_blobCount = 0, vs_objectCount = 0\<rparr>\<rparr>"

definition getVolSummary :: "'db DmPersistVolDB \<Rightarrow> (u64 \<times> u64 \<times> u64) option \<times> fds_errno" where
  "getVolSummary vol =
     (if \<not> vs_initialized (pv_summary vol) then (None, ERR_NOT_READY)
      else (Some (vs_size (pv_summary vol), vs_blobCount (pv_summary vol), vs_objectCount (pv_summary vol)), ERR_OK))"

definition getInMemorySnapshot :: "'db DmPersistVolDB \<Rightarrow> 'db DmPersistVolDB \<times> 'db" where
  "getInMemorySnapshot vol = (vol\<lparr>pv_snapshotCount := pv_snapshotCount vol + 1\<rparr>, pv_db vol)"

definition freeInMemorySnapshot :: "'db DmPersistVolDB \<Rightarrow> 'db DmPersistVolDB" where
  "freeInMemorySnapshot vol = vol\<lparr>pv_snapshotCount := pv_snapshotCount vol - 1\<rparr>"

text \<open>
  The version of a replica, kept in a file: \<open>None\<close> if it cannot be opened. Adding one to
  the largest 32-bit integer is undefined.
\<close>

definition updateVersion :: "'db DmPersistVolDB \<Rightarrow> int option \<Rightarrow> (int \<times> int option) res" where
  "updateVersion vol file =
     fds_verify (\<not> pv_snapshot vol)
       (let version = (case file of None \<Rightarrow> 0 | Some v \<Rightarrow> v)
        in if version = 0 then Inr (2, Some 2)
           else if version = 2 ^ 31 - 1 then Inl Undefined
           else let version = (if version + 1 < 0 then 2 else version + 1)
                in Inr (version, Some version))"

section \<open>What a catalog holds\<close>

definition stored :: "('db, 'z) leveldb_scheme \<Rightarrow> 'db \<Rightarrow> catalog_key \<Rightarrow> bytes option" where
  "stored L db k = map_of (ldb_entries L db) (encode_key k)"

lemma catalog_bytes_encode [simp]: "catalog_bytes (encode_key k)"
  by (simp add: catalog_bytes_def)

lemma catalog_bytes_keys [simp]:
  "catalog_bytes JournalTimestampKey" "catalog_bytes VolumeMetadataKey" "catalog_bytes (BlobMetadataKey n)"
  "catalog_bytes (BlobObjectKey n i)"
  using catalog_bytes_encode[of JournalEntry] catalog_bytes_encode[of VolumeEntry]
    catalog_bytes_encode[of "BlobEntry n"] catalog_bytes_encode[of "ObjectEntry n i"] by simp_all

lemma key_before_encode: "key_before (encode_key a) (encode_key b) \<longleftrightarrow> catalog_cmp a b < 0"
  by (auto simp: key_before_def Compare_encode catalog_cmp_order compareWithOperators_def)

text \<open>The entries of a catalog, with their keys read.\<close>

lemma catalog_entries:
  assumes "leveldb_ok L" "catalog_db L db"
  obtains es where "ldb_entries L db = map (\<lambda>(k, v). (encode_key k, v)) es"
    "sorted_wrt (\<lambda>a b. catalog_cmp a b < 0) (map fst es)"
    "\<And>k. ldb_seek L db (encode_key k) = map (\<lambda>(k, v). (encode_key k, v)) (dropWhile (\<lambda>e. catalog_cmp (fst e) k < 0) es)"
proof -
  have "\<exists>es'. es = map (\<lambda>(k, v). (encode_key k, v)) es'" if "\<forall>(key, val)\<in>set es. catalog_bytes key" for es :: "(bytes \<times> bytes) list"
    using that
  proof (induction es)
    case (Cons e es)
    then obtain es' k v where "es = map (\<lambda>(k, v). (encode_key k, v)) es'" "e = (encode_key k, v)"
      by (auto simp: catalog_bytes_def)
    then show ?case
      by (intro exI[of _ "(k, v) # es'"]) simp
  qed simp
  then obtain es where es: "ldb_entries L db = map (\<lambda>(k, v). (encode_key k, v)) es"
    using assms(2) by (auto simp: catalog_db_def)
  have "sorted_wrt key_before (map fst (ldb_entries L db))"
    using assms by (simp add: leveldb_ok_def)
  then have "sorted_wrt (\<lambda>a b. catalog_cmp a b < 0) (map fst es)"
    by (simp add: es sorted_wrt_map case_prod_unfold key_before_encode)
  moreover have "ldb_seek L db (encode_key k) = dropWhile (\<lambda>e. key_before (fst e) (encode_key k)) (ldb_entries L db)" for k
    using assms by (simp add: leveldb_ok_def)
  ultimately show ?thesis
    using es that by (simp add: dropWhile_map comp_def case_prod_unfold key_before_encode)
qed

lemma stored_entries:
  assumes "ldb_entries L db = map (\<lambda>(k, v). (encode_key k, v)) es"
  shows "stored L db k = map_of es k"
proof -
  have "map_of (map (\<lambda>(k, v). (encode_key k, v)) es) (encode_key k) = map_of es k"
    by (induction es) (auto simp: encode_key_inj)
  then show ?thesis
    by (simp add: stored_def assms)
qed

lemma vol_update_stored:
  assumes "leveldb_ok L" "catalog_db L (pv_db vol)" "vol_update L vol batch = (vol', ERR_OK)"
    and "list_all (\<lambda>w. catalog_bytes (op_key w)) batch"
  shows "catalog_db L (pv_db vol') \<and> pv_objSize vol' = pv_objSize vol \<and>
    stored L (pv_db vol') = (\<lambda>k. fold apply_op batch (map_of (ldb_entries L (pv_db vol))) (encode_key k))"
proof -
  obtain db' where db': "ldb_write L (pv_db vol) batch = (db', LdbOk)" "vol' = vol\<lparr>pv_db := db'\<rparr>"
    using assms(3) by (auto simp: vol_update_def Catalog_Update_def split: prod.splits if_splits)
  have "list_all (\<lambda>w. catalog_bytes (op_key w)) batch \<and> snd (ldb_write L (pv_db vol) batch) = LdbOk \<longrightarrow>
      catalog_db L (fst (ldb_write L (pv_db vol) batch)) \<and>
      map_of (ldb_entries L (fst (ldb_write L (pv_db vol) batch))) = fold apply_op batch (map_of (ldb_entries L (pv_db vol)))"
    using assms(1,2) unfolding leveldb_ok_def by blast
  then show ?thesis
    using db' assms(4) by (simp add: stored_def fun_eq_iff)
qed

lemma vol_update_errors: "vol_update L vol batch = (vol', rc) \<Longrightarrow> rc = ERR_OK \<or> rc = ERR_DISK_WRITE_FAILED"
  by (auto simp: vol_update_def Catalog_Update_def split: prod.splits if_splits)

section \<open>Batches\<close>

definition offset_of :: "u32 \<Rightarrow> u32 \<Rightarrow> u64" where
  "offset_of objSize i = ucast i * ucast objSize"

lemma unat_offset_of: "unat (offset_of objSize i) = unat i * unat objSize"
proof -
  have "unat i * unat objSize < 2 ^ 32 * 2 ^ 32"
    using unsigned_less[of i] unsigned_less[of objSize] by (intro mult_strict_mono) simp_all
  then have "unat (ucast i :: u64) * unat (ucast objSize :: u64) < 2 ^ LENGTH(64)"
    by (simp add: unat_ucast_u32)
  then show ?thesis
    by (simp add: offset_of_def unat_mult_lem[THEN iffD1] unat_ucast_u32)
qed

text \<open>Aligned offsets in range and indices determine each other.\<close>

lemma object_index_iff:
  assumes "objSize \<noteq> 0" "offset mod ucast objSize = 0"
  shows "object_index objSize offset = Some i \<longleftrightarrow> offset = offset_of objSize i"
proof
  assume index: "object_index objSize offset = Some i"
  have "unat (offset div ucast objSize) < 2 ^ 32"
    using object_index_bound(1)[OF assms(1) index] assms(1)
    by (simp add: unat_div unat_ucast_u32 div_less_iff_less_mult unat_gt_0)
  moreover have "i = ucast (offset div ucast objSize)"
    using index by (auto simp: object_index_def Let_def split: if_splits)
  ultimately have "unat i = unat offset div unat objSize"
    using unat_ucast_down by (simp add: unat_div unat_ucast_u32)
  moreover have "unat offset mod unat objSize = 0"
    using arg_cong[OF assms(2), of unat] by (simp add: unat_mod unat_ucast_u32)
  ultimately have "unat offset = unat i * unat objSize"
    by (metis add.right_neutral div_mult_mod_eq)
  then show "offset = offset_of objSize i"
    by (simp add: word_unat_eq_iff unat_offset_of)
next
  assume "offset = offset_of objSize i"
  then have "unat (offset div ucast objSize) = unat i"
    using assms(1) by (simp add: unat_div unat_ucast_u32 unat_offset_of unat_gt_0)
  then have "offset div ucast objSize = ucast i"
    by (simp add: word_unat_eq_iff unat_ucast_u32)
  moreover have "\<not> (0xFFFFFFFF :: u64) < ucast i"
    using unsigned_less[of i, where 'a = nat] by (simp add: word_less_nat_alt unat_ucast_u32)
  ultimately show "object_index objSize offset = Some i"
    by (simp add: object_index_def)
qed

lemma offset_of_inj:
  assumes "objSize \<noteq> 0"
  shows "offset_of objSize i = offset_of objSize j \<longleftrightarrow> i = j"
proof -
  have "unat objSize \<noteq> 0"
    using assms by (simp add: unat_eq_0)
  then have "unat (offset_of objSize i) = unat (offset_of objSize j) \<longleftrightarrow> unat i = unat j"
    by (simp only: unat_offset_of mult_cancel2) simp
  then show ?thesis
    by (simp only: word_unat_eq_iff)
qed

lemma offset_of_mod: "objSize \<noteq> 0 \<Longrightarrow> offset_of objSize i mod ucast objSize = 0"
  by (simp add: word_unat_eq_iff unat_mod unat_ucast_u32 unat_offset_of)

text \<open>What putting and deleting objects of a blob makes of the contents.\<close>

definition with_puts :: "u32 \<Rightarrow> bytes \<Rightarrow> (u64 \<times> BlobObjInfo) list \<Rightarrow> (catalog_key \<Rightarrow> bytes option) \<Rightarrow> catalog_key \<Rightarrow> bytes option" where
  "with_puts objSize blobName objs old k =
     (case k of ObjectEntry n i \<Rightarrow>
        (if n = blobName then (case map_of (rev objs) (offset_of objSize i) of
             Some info \<Rightarrow> Some (digest (obj_oid info)) | None \<Rightarrow> old k)
         else old k)
      | _ \<Rightarrow> old k)"

definition with_deletes :: "u32 \<Rightarrow> bytes \<Rightarrow> u64 list \<Rightarrow> (catalog_key \<Rightarrow> bytes option) \<Rightarrow> catalog_key \<Rightarrow> bytes option" where
  "with_deletes objSize blobName offsets old k =
     (case k of ObjectEntry n i \<Rightarrow> (if n = blobName \<and> offset_of objSize i \<in> set offsets then None else old k)
      | _ \<Rightarrow> old k)"

lemma aligned_eq_Inr [res_simps]:
  "aligned objSize offset k = Inr r \<longleftrightarrow> objSize \<noteq> 0 \<and> offset mod ucast objSize = 0 \<and> k = Inr r"
  by (auto simp: aligned_def fds_verify_def)

lemma apply_op_encode:
  "(\<lambda>k. apply_op (Put (encode_key a) v) m (encode_key k)) = (\<lambda>k. m (encode_key k))(a \<mapsto> v)"
  "(\<lambda>k. apply_op (Delete (encode_key a)) m (encode_key k)) = (\<lambda>k. m (encode_key k))(a := None)"
  by (auto simp: fun_eq_iff encode_key_inj)

lemma with_puts_Cons:
  assumes "objSize \<noteq> 0"
  shows "with_puts objSize blobName ((offset_of objSize i, info) # objs) old =
    with_puts objSize blobName objs (old(ObjectEntry blobName i \<mapsto> digest (obj_oid info)))"
proof (rule ext)
  fix k
  show "with_puts objSize blobName ((offset_of objSize i, info) # objs) old k =
    with_puts objSize blobName objs (old(ObjectEntry blobName i \<mapsto> digest (obj_oid info))) k"
  proof (cases k)
    case (ObjectEntry n j)
    then show ?thesis
      using offset_of_inj[OF assms, of i j]
      by (cases "map_of (rev objs) (offset_of objSize j)") (auto simp: with_puts_def map_add_def)
  qed (simp_all add: with_puts_def)
qed

lemma with_deletes_Cons:
  assumes "objSize \<noteq> 0"
  shows "with_deletes objSize blobName (offset_of objSize i # offsets) old =
    with_deletes objSize blobName offsets (old(ObjectEntry blobName i := None))"
proof (rule ext)
  fix k
  show "with_deletes objSize blobName (offset_of objSize i # offsets) old k =
    with_deletes objSize blobName offsets (old(ObjectEntry blobName i := None)) k"
    by (cases k) (auto simp: with_deletes_def offset_of_inj[OF assms])
qed

lemma put_ops_apply:
  assumes "put_ops objSize blobName objs = Inr (Some ops)"
  shows "list_all (\<lambda>w. catalog_bytes (op_key w)) ops \<and>
     (\<lambda>k. fold apply_op ops m (encode_key k)) = with_puts objSize blobName objs (\<lambda>k. m (encode_key k))"
  using assms
proof (induction objs arbitrary: ops m)
  case Nil
  then show ?case by (auto simp: with_puts_def fun_eq_iff split: catalog_key.splits)
next
  case (Cons e objs)
  obtain offset info where e: "e = (offset, info)"
    by (cases e)
  obtain i ops' where size: "objSize \<noteq> 0" and index: "object_index objSize offset = Some i" "offset mod ucast objSize = 0"
    and rest: "put_ops objSize blobName objs = Inr (Some ops')"
    and ops: "ops = Put (encode_key (ObjectEntry blobName i)) (digest (obj_oid info)) # ops'"
    using Cons.prems by (auto simp: e res_simps split: option.splits)
  have "offset = offset_of objSize i"
    using object_index_iff[OF size index(2), of i] index(1) by simp
  then show ?case
    using Cons.IH[OF rest, of "apply_op (Put (encode_key (ObjectEntry blobName i)) (digest (obj_oid info))) m"]
    unfolding apply_op_encode by (simp add: ops e with_puts_Cons[OF size] del: apply_op.simps)
qed

lemma delete_ops_apply:
  assumes "delete_ops objSize blobName offsets = Inr (Some ops)"
  shows "list_all (\<lambda>w. catalog_bytes (op_key w)) ops \<and>
     (\<lambda>k. fold apply_op ops m (encode_key k)) = with_deletes objSize blobName offsets (\<lambda>k. m (encode_key k))"
  using assms
proof (induction offsets arbitrary: ops m)
  case Nil
  then show ?case by (auto simp: with_deletes_def fun_eq_iff split: catalog_key.splits)
next
  case (Cons offset offsets)
  obtain i ops' where size: "objSize \<noteq> 0" and index: "object_index objSize offset = Some i" "offset mod ucast objSize = 0"
    and rest: "delete_ops objSize blobName offsets = Inr (Some ops')"
    and ops: "ops = Delete (encode_key (ObjectEntry blobName i)) # ops'"
    using Cons.prems by (auto simp: res_simps split: option.splits)
  have "offset = offset_of objSize i"
    using object_index_iff[OF size index(2), of i] index(1) by simp
  then show ?case
    using Cons.IH[OF rest, of "apply_op (Delete (encode_key (ObjectEntry blobName i))) m"]
    unfolding apply_op_encode by (simp add: ops with_deletes_Cons[OF size] del: apply_op.simps)
qed

lemma getSerialized_ok: "getSerialized (Inr bs) [] = Inr (ERR_OK, val) \<Longrightarrow> val = bs"
  by (auto simp: getSerialized_def Let_def split: if_splits)

text \<open>
  C4. A batch that the catalog reports as written changes the contents by exactly what it
  was given: the objects put at their offsets, then the offsets deleted, the serialized
  descriptor under the blob's name and the time of the operation; every other blob, the
  other offsets of this one and the volume's descriptor are as before. A batch refused
  because updates are not allowed, an offset is out of range or the descriptor cannot be
  serialized changes nothing.
\<close>

theorem putBatch_stored:
  assumes "leveldb_ok L" "catalog_db L (pv_db vol)"
    and "putBatch P L vol blobName blobMeta puts deletes now = Inr (vol', rc)"
  shows "(rc = ERR_OK \<longrightarrow> catalog_db L (pv_db vol') \<and>
      stored L (pv_db vol') =
        (with_deletes (pv_objSize vol) blobName deletes (with_puts (pv_objSize vol) blobName (bl_objs puts)
          ((stored L (pv_db vol))(JournalEntry \<mapsto> le_bytes 8 now))))(BlobEntry blobName \<mapsto> BlobMetaDesc_write P blobMeta)) \<and>
    (rc \<noteq> ERR_OK \<and> rc \<noteq> ERR_DISK_WRITE_FAILED \<longrightarrow> vol' = vol)"
proof (cases "rc = ERR_OK")
  case True
  let ?old = "map_of (ldb_entries L (pv_db vol))"
  let ?m = "apply_op (Put (encode_key JournalEntry) (le_bytes 8 now)) ?old"
  let ?meta = "Put (encode_key (BlobEntry blobName)) (BlobMetaDesc_write P blobMeta)"
  obtain pops dops where ops: "put_ops (pv_objSize vol) blobName (bl_objs puts) = Inr (Some pops)"
      "delete_ops (pv_objSize vol) blobName deletes = Inr (Some dops)"
    and upd: "vol_update L vol (timestamp_op now # pops @ dops @ [?meta]) = (vol', ERR_OK)"
    using assms(3) True
    by (auto simp: putBatch_def res_simps split: if_splits option.splits dest!: getSerialized_ok)
  have start: "(\<lambda>k. ?old (encode_key k)) = stored L (pv_db vol)"
    by (rule ext) (simp add: stored_def)
  note puts' = put_ops_apply[OF ops(1), of ?m] and deletes' = delete_ops_apply[OF ops(2), of "fold apply_op pops ?m"]
  have "fold apply_op (timestamp_op now # pops @ dops @ [?meta]) ?old = apply_op ?meta (fold apply_op dops (fold apply_op pops ?m))"
    by (simp add: timestamp_op_def)
  then have "(\<lambda>k. fold apply_op (timestamp_op now # pops @ dops @ [?meta]) ?old (encode_key k)) =
      (with_deletes (pv_objSize vol) blobName deletes (with_puts (pv_objSize vol) blobName (bl_objs puts)
        ((stored L (pv_db vol))(JournalEntry \<mapsto> le_bytes 8 now))))(BlobEntry blobName \<mapsto> BlobMetaDesc_write P blobMeta)"
    by (simp only: apply_op_encode conjunct2[OF deletes'] conjunct2[OF puts'] start)
  moreover have "list_all (\<lambda>w. catalog_bytes (op_key w)) (timestamp_op now # pops @ dops @ [?meta])"
    using puts' deletes' by (simp add: timestamp_op_def)
  ultimately show ?thesis
    using True vol_update_stored[OF assms(1,2) upd] by simp
next
  case False
  then show ?thesis
    using assms(3) by (auto simp: putBatch_def res_simps split: if_splits option.splits dest: vol_update_errors)
qed

section \<open>A database for the witnesses\<close>

text \<open>A sorted list of entries, put in order when it is not.\<close>

definition decode_key :: "bytes \<Rightarrow> catalog_key option" where
  "decode_key key =
     (if key = JournalTimestampKey then Some JournalEntry
      else if key = VolumeMetadataKey then Some VolumeEntry
      else if key = [] then None
      else if hd key = 3 then Some (BlobEntry (BlobMetadataKey_getBlobName key))
      else if hd key = 4 \<and> BlobObjectKey_size \<le> length key
      then Some (ObjectEntry (BlobObjectKey_getBlobName key) (getObjectIndex key))
      else None)"

definition enc :: "(catalog_key \<times> bytes) list \<Rightarrow> (bytes \<times> bytes) list" where
  "enc es = map (\<lambda>(k, v). (encode_key k, v)) es"

fun list_op :: "write_op \<Rightarrow> (catalog_key, bytes) omap \<Rightarrow> (catalog_key, bytes) omap" where
  "list_op (Put key val) m = (case decode_key key of None \<Rightarrow> m | Some k \<Rightarrow> omap_put k val m)"
| "list_op (Delete key) m = (case decode_key key of None \<Rightarrow> m | Some k \<Rightarrow> omap_erase k m)"

definition list_leveldb :: "(catalog_key, bytes) omap leveldb" where
  "list_leveldb =
     \<lparr>ldb_write = (\<lambda>db batch. (fold list_op batch (omap_puts db []), LdbOk)),
      ldb_get = (\<lambda>db key. case map_of (enc (omap_puts db [])) key of None \<Rightarrow> (None, LdbNotFound) | Some v \<Rightarrow> (Some v, LdbOk)),
      ldb_entries = (\<lambda>db. enc (omap_puts db [])),
      ldb_seek = (\<lambda>db key. dropWhile (\<lambda>e. key_before (fst e) key) (enc (omap_puts db []))),
      ldb_iter_status = (\<lambda>db. LdbOk)\<rparr>"

lemma decode_encode [simp]: "decode_key (encode_key k) = Some k"
proof (cases k)
  case (BlobEntry n)
  then show ?thesis
    using encode_key_inj[of k JournalEntry] encode_key_inj[of k VolumeEntry] encode_key_shape[of k]
    by (auto simp: decode_key_def)
next
  case (ObjectEntry n i)
  moreover have "BlobObjectKey_size \<le> length (BlobObjectKey n i)"
    by (simp add: key_layout)
  ultimately show ?thesis
    using encode_key_inj[of k JournalEntry] encode_key_inj[of k VolumeEntry] encode_key_shape[of k]
    by (auto simp: decode_key_def)
qed (use encode_key_inj[of VolumeEntry JournalEntry] in \<open>auto simp: decode_key_def\<close>)

lemma enc_lookup: "map_of (enc m) (encode_key k) = map_of m k"
  by (induction m) (auto simp: enc_def encode_key_inj)

lemma enc_lookup_other: "key \<notin> range encode_key \<Longrightarrow> map_of (enc m) key = None"
  by (auto simp: enc_def map_of_eq_None_iff)

lemma list_op_apply:
  assumes "omap_ok m" "catalog_bytes (op_key w)"
  shows "omap_ok (list_op w m) \<and> map_of (enc (list_op w m)) = apply_op w (map_of (enc m))"
proof -
  obtain k where k: "op_key w = encode_key k"
    using assms(2) by (auto simp: catalog_bytes_def)
  have "map_of (enc (list_op w m)) key = apply_op w (map_of (enc m)) key" for key
  proof (cases "key \<in> range encode_key")
    case True
    then show ?thesis
      using k assms(1) by (cases w) (auto simp: enc_lookup map_of_omap_put map_of_omap_erase encode_key_inj)
  next
    case False
    then show ?thesis
      using k by (cases w) (auto simp: enc_lookup_other)
  qed
  then show ?thesis
    using k assms(1) by (cases w) (auto simp: omap_ok_put omap_ok_erase)
qed

lemma list_ops_apply:
  assumes "omap_ok m" "list_all (\<lambda>w. catalog_bytes (op_key w)) batch"
  shows "omap_ok (fold list_op batch m) \<and> map_of (enc (fold list_op batch m)) = fold apply_op batch (map_of (enc m))"
  using assms
proof (induction batch arbitrary: m)
  case (Cons w batch)
  then show ?case
    using list_op_apply[of m w] by auto
qed simp

lemma list_leveldb_ok: "leveldb_ok list_leveldb"
proof -
  have norm: "omap_ok (omap_puts db [])" for db :: "(catalog_key, bytes) omap"
    using omap_puts_lookup[of "[]" db] by simp
  have "sorted_wrt key_before (map fst (enc m))" if "omap_ok m" for m
    using that by (simp add: enc_def omap_ok_def sorted_wrt_map case_prod_unfold key_before_encode catalog_cmp_less)
  moreover have "omap_puts (fold list_op batch (omap_puts db [])) [] = fold list_op batch (omap_puts db [])"
    if "list_all (\<lambda>w. catalog_bytes (op_key w)) batch" for batch db
    using list_ops_apply[OF norm that] by (simp add: omap_rebuild)
  moreover have "\<forall>(key, val)\<in>set (enc m). catalog_bytes key" for m
    by (auto simp: enc_def)
  ultimately show ?thesis
    using norm list_ops_apply[OF norm]
    by (auto simp: leveldb_ok_def list_leveldb_def catalog_db_def split: option.splits)
qed

lemma list_leveldb_catalog: "catalog_db list_leveldb db"
  by (auto simp: catalog_db_def list_leveldb_def enc_def)

lemma BlobMetaDesc_serialized:
  assumes "bprotocol_ok P" "length (BlobMetaDesc_write P b) < 2 ^ 32"
  shows "getSerialized (Inr (BlobMetaDesc_write P b)) [] = Inr (ERR_OK, BlobMetaDesc_write P b)"
proof -
  have "length (writeI64 P l) = 8" for l
    using reads_sprotocol(3)[OF reads_bprotocol(2)[OF assms(1)]] by (simp add: tprotocol_ok_def)
  then have "0 < length (BlobMetaDesc_write P b)"
    by (simp add: BlobMetaDesc_write_def BasicBlobMeta_write_def)
  then have "(of_nat (length (BlobMetaDesc_write P b)) :: u32) \<noteq> 0"
    using assms(2) unat_of_nat_lt[where 'a = 32, of "length (BlobMetaDesc_write P b)"] by (auto simp del: of_nat_eq_0_iff)
  then show ?thesis
    by (simp add: getSerialized_def Let_def)
qed

theorem putBatch_stored_witness:
  "\<exists>vol' :: (catalog_key, bytes) omap DmPersistVolDB.
     leveldb_ok list_leveldb \<and> catalog_db list_leveldb [(ObjectEntry [97] 0, [7])] \<and>
     putBatch be_bprotocol list_leveldb
       \<lparr>pv_db = [(ObjectEntry [97] 0, [7])], pv_objSize = 4096, pv_snapshot = False, pv_readOnly = False,
        pv_summary = \<lparr>vs_initialized = False, vs_size = 0, vs_blobCount = 0, vs_objectCount = 0\<rparr>, pv_snapshotCount = 0\<rparr>
       [97] \<lparr>bd_desc = BasicBlobMeta_new, bd_meta_list = []\<rparr>
       \<lparr>bl_objs = [(4096, \<lparr>obj_oid = NullObjectID, obj_size = 4096\<rparr>)], end_of_blob = False\<rparr> [0] 5 = Inr (vol', ERR_OK) \<and>
     stored list_leveldb (pv_db vol') (ObjectEntry [97] 1) = Some (digest NullObjectID) \<and>
     stored list_leveldb (pv_db vol') (ObjectEntry [97] 0) = None"
proof -
  let ?vol = "\<lparr>pv_db = [(ObjectEntry [97] 0, [7])], pv_objSize = 4096, pv_snapshot = False, pv_readOnly = False,
    pv_summary = \<lparr>vs_initialized = False, vs_size = 0, vs_blobCount = 0, vs_objectCount = 0\<rparr>, pv_snapshotCount = 0\<rparr>
    :: (catalog_key, bytes) omap DmPersistVolDB"
  let ?meta = "\<lparr>bd_desc = BasicBlobMeta_new, bd_meta_list = []\<rparr>"
  let ?puts = "\<lparr>bl_objs = [(4096, \<lparr>obj_oid = NullObjectID, obj_size = 4096\<rparr>)], end_of_blob = False\<rparr>"
  have "length (BlobMetaDesc_write be_bprotocol ?meta) < 2 ^ 32"
    by (simp add: BlobMetaDesc_write_def BasicBlobMeta_write_def BasicBlobMeta_new_def MetaDataList_write_def
        be_bprotocol_def be_sprotocol_def be_protocol_def sprotocol.defs bprotocol.defs tprotocol.defs)
  note ser = BlobMetaDesc_serialized[OF be_bprotocol_ok this]
  obtain vol' where put: "putBatch be_bprotocol list_leveldb ?vol [97] ?meta ?puts [0] 5 = Inr (vol', ERR_OK)"
    by (simp add: putBatch_def op_allowed_def ser aligned_def object_index_def vol_update_def Catalog_Update_def
        list_leveldb_def Let_def)
  have db: "catalog_db list_leveldb (pv_db ?vol)"
    by (rule list_leveldb_catalog)
  have "offset_of 4096 1 = 4096" "offset_of 4096 0 = 0"
    by (simp_all add: offset_of_def)
  then have "stored list_leveldb (pv_db vol') (ObjectEntry [97] 1) = Some (digest NullObjectID)"
    "stored list_leveldb (pv_db vol') (ObjectEntry [97] 0) = None"
    using putBatch_stored[OF list_leveldb_ok db put] by (simp_all add: with_deletes_def with_puts_def)
  then show ?thesis
    using list_leveldb_ok db put by auto
qed

section \<open>Range reads\<close>

lemma enc_Cons: "enc (e # es) = (encode_key (fst e), snd e) # enc es"
  by (simp add: enc_def case_prod_unfold)

lemma Compare_catalog: "Compare (NullObjectID, NullObjectID) (encode_key a) (encode_key b) = Inr (catalog_cmp a b)"
  by (simp add: Compare_encode catalog_cmp_order)

lemma range_scan_entries:
  assumes "\<And>e. e \<in> set (takeWhile (\<lambda>e. catalog_cmp (fst e) k \<le> 0) es) \<Longrightarrow> \<exists>n i. fst e = ObjectEntry n i"
  shows "range_scan (encode_key k) visit (enc es) st =
    foldR (\<lambda>e. visit (encode_key (fst e)) (snd e)) (takeWhile (\<lambda>e. catalog_cmp (fst e) k \<le> 0) es) st"
  using assms
proof (induction es arbitrary: st)
  case Nil
  then show ?case by (simp add: enc_def)
next
  case (Cons e es)
  show ?case
  proof (cases "catalog_cmp (fst e) k \<le> 0")
    case True
    then obtain n i where e: "fst e = ObjectEntry n i"
      using Cons.prems[of e] by auto
    have "range_scan (encode_key k) visit (enc es) st' =
        foldR (\<lambda>e. visit (encode_key (fst e)) (snd e)) (takeWhile (\<lambda>e. catalog_cmp (fst e) k \<le> 0) es) st'" for st'
      using Cons.prems True by (intro Cons.IH) auto
    then have "range_scan (encode_key k) visit (enc es) =
        foldR (\<lambda>e. visit (encode_key (fst e)) (snd e)) (takeWhile (\<lambda>e. catalog_cmp (fst e) k \<le> 0) es)"
      by (rule ext)
    then show ?thesis
      using True by (simp add: enc_Cons Compare_catalog del: encode_key.simps) (simp add: e)
  next
    case False
    then show ?thesis
      by (simp add: enc_Cons Compare_catalog)
  qed
qed

lemma object_interval:
  "\<not> catalog_cmp k (ObjectEntry n si) < 0 \<and> catalog_cmp k (ObjectEntry n ei) \<le> 0 \<longleftrightarrow>
     (\<exists>i. k = ObjectEntry n i \<and> si \<le> i \<and> i \<le> ei)"
  by (cases k) (auto simp: catalog_cmp_order)

lemma fdsp_entry_offset:
  "fdsp_entry objSize key val =
     \<lparr>fo_offset = offset_of objSize (getObjectIndex key), fo_digest = val, fo_size = ucast objSize\<rparr>"
  by (simp add: fdsp_entry_def offset_of_def)

lemma foldR_append_each: "foldR (\<lambda>e objs. Inr (objs @ [f e])) es objs = Inr (objs @ map f es)"
  by (induction es arbitrary: objs) simp_all

text \<open>
  C12. Reading a range of a blob, from an aligned offset to another within the range of
  indices, returns what the catalog holds: the objects stored under the blob's name with
  an index in the range, all of them and no others, in increasing order of their offsets,
  each with its digest and the object size of the volume, after what the list held before.
\<close>

theorem getObject_range_exact:
  assumes "leveldb_ok L" "catalog_db L (pv_db vol)" "pv_objSize vol \<noteq> 0"
  shows "\<exists>found. getObject_fdsp L vol blobName (offset_of (pv_objSize vol) si) (offset_of (pv_objSize vol) ei) objList =
      Inr (objList @ map (\<lambda>(i, d). \<lparr>fo_offset = offset_of (pv_objSize vol) i, fo_digest = d, fo_size = ucast (pv_objSize vol)\<rparr>) found,
           status2error (ldb_iter_status L (pv_db vol))) \<and>
    sorted_wrt (<) (map fst found) \<and>
    set found = {(i, d). si \<le> i \<and> i \<le> ei \<and> stored L (pv_db vol) (ObjectEntry blobName i) = Some d}"
proof -
  let ?size = "pv_objSize vol"
  obtain es where es: "ldb_entries L (pv_db vol) = enc es" "sorted_wrt (\<lambda>a b. catalog_cmp a b < 0) (map fst es)"
    and seek: "\<And>k. ldb_seek L (pv_db vol) (encode_key k) = enc (dropWhile (\<lambda>e. catalog_cmp (fst e) k < 0) es)"
    using catalog_entries[OF assms(1,2)] unfolding enc_def by metis
  define hits where "hits = filter (\<lambda>e. \<exists>i. fst e = ObjectEntry blobName i \<and> si \<le> i \<and> i \<le> ei) es"
  have scan: "takeWhile (\<lambda>e. catalog_cmp (fst e) (ObjectEntry blobName ei) \<le> 0)
      (dropWhile (\<lambda>e. catalog_cmp (fst e) (ObjectEntry blobName si) < 0) es) = hits"
    using catalog.scan_range(2)[OF es(2)] by (simp add: hits_def object_interval)
  have index: "ucast (offset_of ?size i div ucast ?size) = i" for i
    using object_index_iff[OF assms(3) offset_of_mod[OF assms(3)], of i i] by (auto simp: object_index_def Let_def split: if_splits)
  define found where "found = map (\<lambda>e. (getObjectIndex (encode_key (fst e)), snd e)) hits"
  have "range_scan (encode_key (ObjectEntry blobName ei)) (\<lambda>key val objs. Inr (objs @ [fdsp_entry ?size key val]))
      (ldb_seek L (pv_db vol) (encode_key (ObjectEntry blobName si))) objList =
      Inr (objList @ map (\<lambda>e. fdsp_entry ?size (encode_key (fst e)) (snd e)) hits)"
    unfolding seek by (subst range_scan_entries) (auto simp: scan foldR_append_each hits_def)
  then have "getObject_fdsp L vol blobName (offset_of ?size si) (offset_of ?size ei) objList =
      Inr (objList @ map (\<lambda>(i, d). \<lparr>fo_offset = offset_of ?size i, fo_digest = d, fo_size = ucast ?size\<rparr>) found,
           status2error (ldb_iter_status L (pv_db vol)))"
    using assms(3) by (simp add: getObject_fdsp_def range_keys_def aligned_def offset_of_mod index found_def
        fdsp_entry_offset comp_def)
  moreover have "sorted_wrt (\<lambda>a b. catalog_cmp (fst a) (fst b) < 0) hits"
    using es(2) by (simp add: hits_def sorted_wrt_map sorted_wrt_filter)
  then have "sorted_wrt (<) (map fst found)"
    unfolding found_def by (auto simp: sorted_wrt_map comp_def hits_def catalog_cmp_order elim!: sorted_wrt_mono_rel[rotated])
  moreover have "distinct (map fst es)"
    using es(2) by (simp add: catalog_cmp_less strict_sorted_iff)
  then have "set found = {(i, d). si \<le> i \<and> i \<le> ei \<and> stored L (pv_db vol) (ObjectEntry blobName i) = Some d}"
    using stored_entries[OF es(1)[unfolded enc_def]] by (force simp: found_def hits_def image_iff)
  ultimately show ?thesis
    by (intro exI[of _ found]) simp
qed

lemma list_leveldb_stored: "stored list_leveldb db k = map_of (rev db) k"
  using omap_puts_lookup[of "[]" db] by (simp add: stored_def list_leveldb_def enc_lookup)

theorem getObject_range_exact_witness:
  "\<exists>objs.
     leveldb_ok list_leveldb \<and> catalog_db list_leveldb [(ObjectEntry [97] 0, [7]), (ObjectEntry [97] 2, [8])] \<and>
     getObject_fdsp list_leveldb
       \<lparr>pv_db = [(ObjectEntry [97] 0, [7]), (ObjectEntry [97] 2, [8])], pv_objSize = 4096, pv_snapshot = False, pv_readOnly = False,
        pv_summary = \<lparr>vs_initialized = False, vs_size = 0, vs_blobCount = 0, vs_objectCount = 0\<rparr>, pv_snapshotCount = 0\<rparr>
       [97] (offset_of 4096 0) (offset_of 4096 1) [] = Inr (objs, ERR_OK) \<and>
     \<lparr>fo_offset = offset_of 4096 0, fo_digest = [7], fo_size = 4096\<rparr> \<in> set objs"
proof -
  let ?db = "[(ObjectEntry [97] 0, [7]), (ObjectEntry [97] 2, [8])]"
  let ?vol = "\<lparr>pv_db = ?db, pv_objSize = 4096, pv_snapshot = False, pv_readOnly = False,
    pv_summary = \<lparr>vs_initialized = False, vs_size = 0, vs_blobCount = 0, vs_objectCount = 0\<rparr>, pv_snapshotCount = 0\<rparr>
    :: (catalog_key, bytes) omap DmPersistVolDB"
  have vol: "catalog_db list_leveldb (pv_db ?vol)" "pv_objSize ?vol \<noteq> 0"
    by (rule list_leveldb_catalog) simp
  obtain found where read: "getObject_fdsp list_leveldb ?vol [97] (offset_of 4096 0) (offset_of 4096 1) [] =
      Inr (map (\<lambda>(i, d). \<lparr>fo_offset = offset_of 4096 i, fo_digest = d, fo_size = ucast (4096 :: u32)\<rparr>) found,
           status2error (ldb_iter_status list_leveldb ?db))"
    and found: "set found = {(i, d). 0 \<le> i \<and> i \<le> 1 \<and> stored list_leveldb ?db (ObjectEntry [97] i) = Some d}"
    using getObject_range_exact[OF list_leveldb_ok vol, of "[97]" 0 1 "[]"] by auto
  have "(0, [7]) \<in> set found"
    by (simp add: found list_leveldb_stored)
  moreover have "status2error (ldb_iter_status list_leveldb ?db) = ERR_OK"
    by (simp add: status2error_def list_leveldb_def)
  ultimately show ?thesis
    using read list_leveldb_ok vol(1) by (force simp: image_iff)
qed

section \<open>Listing by prefix\<close>

lemma prefix_loop_plain:
  assumes "prefix \<noteq> []"
  shows "prefix_loop P L db prefix [] (encode_key k) (enc es) metas skipped =
    Some (bindR (mapR (\<lambda>e. must_load P (snd e)) (takeWhile (\<lambda>e. catalog_cmp (fst e) k < 0) es))
      (\<lambda>ms. Inr (metas @ ms, skipped)))"
proof (induction es arbitrary: metas)
  case Nil
  then show ?case by (simp add: prefix_loop.simps[of _ _ _ _ _ _ "[]"] enc_def)
next
  case (Cons e es)
  show ?case
    using assms Cons
    by (subst prefix_loop.simps) (auto simp: enc_Cons Compare_catalog Let_def bindR_def split: sum.split)
qed

lemma prefix_entries:
  assumes "prefix \<noteq> []" "last prefix \<noteq> 255"
  shows "\<not> catalog_cmp k (BlobEntry prefix) < 0 \<and> catalog_cmp k (BlobEntry (butlast prefix @ [last prefix + 1])) < 0 \<longleftrightarrow>
     (\<exists>n. k = BlobEntry n \<and> take (length prefix) n = prefix)"
  using prefix_interval[OF assms] by (cases k) (auto simp: catalog_cmp_order)



text \<open>
  With a delimiter, the entry that the seek past a group of names lands on is not looked
  at: the loop's own step goes over it. If the group was the last, that step is taken from
  an iterator that is at no entry.
\<close>

lemma prefix_loop_after_group:
  assumes "prefix \<noteq> []" "Compare (NullObjectID, NullObjectID) key endKey = Inr (-1)" "must_load P val = Inr m"
    and "delimiter \<noteq> []" "str_find (blob_name (bd_desc m)) delimiter (length prefix) = Some pos"
    and "ldb_seek L db (getIncremented (BlobMetadataKey (take (pos + 1) (blob_name (bd_desc m))))) = after"
  shows "prefix_loop P L db prefix delimiter endKey ((key, val) # dbIt) metas skipped =
    (case after of [] \<Rightarrow> Some (Inl Undefined)
     | _ # dbIt' \<Rightarrow> prefix_loop P L db prefix delimiter endKey dbIt' metas
         (skipped @ [drop (length prefix) (take (pos + 1) (blob_name (bd_desc m)))]))"
  using assms by (subst prefix_loop.simps) (simp add: Let_def cong: list.case_cong)

text \<open>Activating a volume writes the initial descriptor over the one that is there.\<close>

lemma activate_opened_resets:
  assumes "leveldb_ok L" "catalog_db L (pv_db vol)" "activate_opened P L vol now = Inr (vol', ERR_OK)"
  shows "stored L (pv_db vol') VolumeEntry = Some (VolumeMetaDesc_write P (VolumeMetaDesc_new [] 0))"
proof -
  let ?ops = "[Put (encode_key JournalEntry) (le_bytes 8 now), Put (encode_key VolumeEntry) (VolumeMetaDesc_write P (VolumeMetaDesc_new [] 0))]"
  have "vol_update L vol ?ops = (vol', ERR_OK)"
    using assms(3) by (auto simp: activate_opened_def putVolumeMetaDesc_def timestamp_op_def res_simps
        split: if_splits dest!: getSerialized_ok)
  from vol_update_stored[OF assms(1,2) this] show ?thesis
    by simp
qed

text \<open>A range read from an offset beyond the 32-bit indices silently reads from the start of the blob.\<close>

lemma range_keys_wraps:
  fixes k :: "bytes \<Rightarrow> bytes \<Rightarrow> 'a res"
  shows "range_keys 4096 blobName (2 ^ 44) endOffset k = range_keys 4096 blobName 0 endOffset k"
proof -
  have "aligned 4096 (2 ^ 44) r = aligned 4096 0 r" for r :: "'a res"
    by (simp add: aligned_def)
  moreover have "ucast ((2 ^ 44 :: u64) div ucast (4096 :: u32)) = (ucast ((0 :: u64) div ucast (4096 :: u32)) :: u32)"
    by simp
  ultimately show ?thesis
    unfolding range_keys_def by (simp only:)
qed

end
