(* ===== verification/Spec2Isabelle.thy ===== *)
theory Spec2Isabelle
  imports Object_Id Svc_State Svc_Maps Serialize Ordered_Map Placement_Table Dlt Dlt_Manager Dmt Volume_Cache Qos_Wfq
    Buffer_Replay
    Catalog_Key Blob_Types Commit_Log Vol_Db
begin

text \<open>
  A verification library for the FormationOne storage platform (C++ under \<^verbatim>\<open>src/source\<close>).

  \<^bold>\<open>The program.\<close> Applications reach volumes through the access manager (AM). Data is cut
  into objects named by a 20-byte digest; the leading bits of the digest are the object's
  token, and the data lookup table (DLT) says which storage managers (SM) hold a token. The
  metadata of a volume, which object is at which offset of which blob, is kept by the data
  managers (DM); the data management table (DMT) says which of them hold a volume. The
  orchestration manager (OM) computes both tables, tracks the state of every service and
  distributes the results; a platform manager (PM) runs the services of a node. Requests
  inside a service pass a quality-of-service dispatcher, and services keep data in caches.

  \<^bold>\<open>How it is modelled.\<close> Every function is an executable definition over explicit state. A call
  that can fail returns \<open>'a res\<close>: \<open>Inl\<close> is an abnormal end (a failed
  \<^verbatim>\<open>fds_verify\<close> or \<^verbatim>\<open>assert\<close>, a null pointer, an index out of range, other undefined behaviour,
  an exception), \<open>Inr\<close> a return
  with its error code of \<^verbatim>\<open>fds_errno_t\<close>. \<^verbatim>\<open>fds_assert\<close>, compiled only for debugging, and log
  output are left out. Integers are words of their width, so sums and counts wrap as in the
  source. Code held under one lock is one step; where a call releases its lock in between,
  it is several steps of an inductive relation. What is not in the repository is a parameter
  with named hypotheses, and each theorem with one has a witness at a concrete instance:
  thrift's protocol (\<open>tprotocol_ok\<close>, \<open>sprotocol_ok\<close>, \<open>bprotocol_ok\<close>; big-endian fixed width),
  leveldb (\<open>leveldb_ok\<close>; a sorted list), the order in which a hash map is walked
  (\<open>hash_walk\<close>), a lock-free queue, floating point, and the readings of clocks.

  \<^bold>\<open>The theories.\<close>
  \<^item> \<open>Prelude\<close>: machine types, error codes, the result type with its loops and runs.
  \<^item> \<open>Ordered_Map\<close>: \<^verbatim>\<open>std::map\<close> as sorted lists, behind the locale \<open>std_map\<close>.
  \<^item> \<open>Serialize\<close> (\<^verbatim>\<open>lib/misc/serialize.cpp\<close>): writers to bytes, readers from bytes, and the
    rules that put the round trip of an object together from those of its fields.
  \<^item> \<open>Object_Id\<close> (\<^verbatim>\<open>ObjectID\<close> in \<^verbatim>\<open>lib/misc/fds_types.cpp\<close>): the byte order is linear, hex
    forms parse back, a token range holds exactly the objects of the token.
  \<^item> \<open>Svc_State\<close>, \<open>Svc_Maps\<close> (\<^verbatim>\<open>OmExtUtilApi.cpp\<close>, \<^verbatim>\<open>OmIntUtilApi\<close>, \<^verbatim>\<open>configdb.cpp\<close>, \<^verbatim>\<open>SvcMgr.cpp\<close>):
    the states of services and the two maps that record them. Updates keep the maps in
    agreement, incarnations only grow, states follow the transition table. The contract of a
    record store is the locale \<open>svc_store\<close>.
  \<^item> \<open>Placement_Table\<close>, \<open>Dlt\<close>, \<open>Dlt_Manager\<close>, \<open>Dmt\<close> (\<^verbatim>\<open>fds_table.h\<close>, \<^verbatim>\<open>fds_placement_table.h\<close>,
    \<^verbatim>\<open>dlt.cpp\<close>, \<^verbatim>\<open>dmt.cpp\<close>): the tables, their checks, reverse maps, serialized forms, and the
    managers that keep versions with reference counts. Checks are exact, tables and managers
    read back as written, counts equal the requests that hold a version, a committed table
    always answers. Reading and writing cells is the locale \<open>cell_table\<close>.
  \<^item> \<open>Kv_Cache\<close>, \<open>Shared_Cache\<close>, \<open>Volume_Cache\<close> (\<^verbatim>\<open>include/cache\<close>): the caches refine a plain
    recency list (locale \<open>kv_cache\<close>), stay within their limit, lose no pointer, and a manager of
    caches keeps volumes apart (locale \<open>per_volume\<close>).
  \<^item> \<open>Token_Bucket\<close>, \<open>Qos_Queue\<close>, \<open>Qos_Htb\<close>, \<open>Qos_Wfq\<close> (\<^verbatim>\<open>qos_tokbucket.h\<close>, \<^verbatim>\<open>fds_qos.h\<close>,
    \<^verbatim>\<open>fds_volume.cpp\<close>, \<^verbatim>\<open>qos_htb.cpp\<close>, \<^verbatim>\<open>qos_min_prio.cpp\<close>, \<^verbatim>\<open>QoSWFQDispatcher.cpp\<close>): rate limits, the
    dispatcher thread interleaved with its clients, and the dispatchers. The minimal-priority and the
    fair queueing dispatcher are instances of the locale \<open>dispatch_policy\<close>. Tokens are bounded by time and rate, outstanding requests by
    their limit, slots and rates add up, the fair queueing dispatcher conserves work.
  \<^item> \<open>Buffer_Replay\<close> (\<^verbatim>\<open>BufferReplay.cpp\<close>): operations buffered to a file and replayed by a thread
    pool are sent in order, each once, in every interleaving.
  \<^item> \<open>Catalog_Key\<close> (\<^verbatim>\<open>lib/catalogKeys\<close>): the keys of the volume catalogs as bytes. The comparator
    is the total order that leveldb asks for (locale \<open>leveldb_comparator\<close>) and orders entries by
    type, name and index; the range of a prefix is exact unless it ends in the byte 255.
  \<^item> \<open>Blob_Types\<close> (\<^verbatim>\<open>DmBlobTypes.cpp\<close>): metadata lists, descriptors and object lists of the DM, with
    what merging, checking, sending and reading back make of them.
  \<^item> \<open>Commit_Log\<close> (\<^verbatim>\<open>CommitLog.cpp\<close>): the open blob transactions of a volume. A commit hands over
    what was gathered, the counters of the DMT versions are exact in every run, open
    transactions arrive at another node.
  \<^item> \<open>Vol_Db\<close> (\<^verbatim>\<open>DmPersistVolDB.cpp\<close>, \<^verbatim>\<open>Catalog.cpp\<close>): the catalog over leveldb. Batches change
    exactly what they were given, range reads and listings by prefix are exact.
  \<^item> This theory imports them all and joins \<open>Object_Id\<close> and \<open>Dlt\<close>.

  \<^bold>\<open>Loops and bounds.\<close> Loops are structural recursions or have a measure; a count down is the
  code's own bounded loop, and no model has fuel. Six loops may not end in the code. They are
  \<open>partial_function (option)\<close>, where \<open>None\<close> means that they do not end:
  \<^item> \<open>newSource\<close>, the search for migration sources, where returning is characterised exactly;
  \<^item> \<open>DLTManager_getPrimary_obj\<close>, which never returns;
  \<^item> \<open>push_loop\<close>, which returns for a queue that keeps its contract;
  \<^item> \<open>hist_loop\<close>, which returns unless the clock is about to wrap;
  \<^item> \<open>slot_loop\<close>, which returns if a queue with a slot has a request pending;
  \<^item> \<open>prefix_loop\<close>, which returns without a delimiter.

  Bounds in hypotheses are those of the types: fewer than \<open>2 ^ 32\<close> elements or bytes where a
  count has 32 bits, fewer than \<open>2 ^ 31\<close> bytes in a string on the wire, fewer than \<open>2 ^ 64\<close>
  calls where a counter has 64.

  \<^bold>\<open>Where the code departs from its intent\<close>, the departure is stated as a lemma about the
  code as it is, for example \<open>BlobObjList_merge_keeps_old\<close>, \<open>received_commit_wraps\<close>,
  \<open>prefix_loop_after_group\<close>, \<open>release_wrong_version\<close>, \<open>notify_race_posts_twice\<close>.

  \<^bold>\<open>Not modelled.\<close> The AM and its front ends, the SM's object store and the persistent layer, the
  PM, the network layer and the redis client are mostly device, process and network I/O around
  the parts above, and their behaviour is that of thrift, redis, leveldb and the kernel. The
  deployment state machines of the OM are \<^verbatim>\<open>boost::msm\<close> tables whose actions are such calls.
  Of the DM, the request handlers, migration, the volume table above the catalogs and the
  opening, copying and archiving of database directories are left out, of every modelled class
  the stream output. The thrift classes are generated by the build; the Java services are
  another program; the test frameworks and unit tests are not part of this one.
\<close>

section \<open>Objects, token ranges and the nodes that serve them\<close>

text \<open>
  C1. Where objects live can be said in two ways, and they agree. A storage manager asks the
  table which tokens it serves and treats the identifiers between the ends of each token's
  range as its own; a client asks the table for the column of the identifier. For tables of 8
  or 16 token bits, a node is in the column of an object exactly if the object lies in the range of
  one of the node's tokens.
\<close>

theorem node_serves_token_ranges:
  assumes "DLT_wf d" "width d = 8 \<or> width d = 16"
  shows "\<exists>d'. generateNodeTokenMap d = Inr d' \<and>
    (\<forall>u oid. (\<exists>g. DLT_getNodes_obj d' oid = Inr g \<and> u \<in> set g) \<longleftrightarrow>
      (\<exists>t\<in>set (DLT_getTokens d' u). \<exists>start end. getTokenRange t (width d) = Inr (start, end) \<and> start \<le> oid \<and> oid \<le> end))"
proof -
  let ?d = "d\<lparr>mapNodeTokens := omap_group (DLT_cells d)\<rparr>"
  have d': "map_fresh ?d" "columns d = 2 ^ width d" "length (distList d) = columns d"
    using assms(1) by (simp_all add: DLT_wf_def map_fresh_def DLT_cells_def)
  have "(\<exists>g. DLT_getNodes_obj ?d oid = Inr g \<and> u \<in> set g) \<longleftrightarrow>
      (\<exists>t\<in>set (DLT_getTokens ?d u). \<exists>start end. getTokenRange t (width d) = Inr (start, end) \<and> start \<le> oid \<and> oid \<le> end)"
    for u oid
  proof -
    have len: "width d \<le> 16" using assms(2) by auto
    obtain t0 where t0: "getToken oid (width d) = Inr t0" "t0 < columns d"
      using getToken_low[OF len] lead16_div_lt[OF len] d'(2) by simp
    have "(\<exists>start end. getTokenRange t (width d) = Inr (start, end) \<and> start \<le> oid \<and> oid \<le> end) \<longleftrightarrow> t = t0" if t: "t < columns d" for t
    proof -
      obtain lo hi where r: "getTokenRange t (width d) = Inr (lo, hi)"
        "\<And>oid. lo \<le> oid \<and> oid \<le> hi \<longleftrightarrow> getToken oid (width d) = Inr t"
        using token_interval[OF assms(2), of t] t d'(2) by auto
      show ?thesis using r(1) r(2)[of oid] t0(1) by auto
    qed
    then show ?thesis
      using t0 d'(3) by (auto simp: set_getTokens[OF d'(1)] DLT_getNodes_obj_def DLT_getToken_def)
  qed
  then show ?thesis
    using generate_eq[OF assms(1)] by auto
qed

theorem node_serves_token_ranges_witness:
  "\<exists>d'. generateNodeTokenMap (DLT_init 8 2 7 True 99) = Inr d' \<and>
    (\<forall>oid. (\<exists>g. DLT_getNodes_obj d' oid = Inr g \<and> 0 \<in> set g) \<longleftrightarrow>
      (\<exists>t\<in>set (DLT_getTokens d' 0). \<exists>start end. getTokenRange t 8 = Inr (start, end) \<and> start \<le> oid \<and> oid \<le> end))"
proof -
  have "DLT_wf (DLT_init 8 2 7 True 99)" "width (DLT_init 8 2 7 True 99) = 8"
    by (simp_all add: DLT_wf_def DLT_init_def TableColumn_init_def)
  then show ?thesis
    using node_serves_token_ranges[of "DLT_init 8 2 7 True 99"] by auto
qed

end
